(* ===== verification/Metis_Prelude.thy ===== *)
theory Metis_Prelude
  imports Main "HOL-Library.Word" "HOL-Library.Multiset"
begin

text \<open>
  Shared vocabulary of the development: what can go wrong in the C code (\<open>fault\<close>), the
  result type of operations that can fail, bounds-checked array reads and writes, the wrap-around
  of unsigned integers, and the contract of the comparison callbacks every ordered structure of
  Metis is parameterised over (\<open>comparator\<close>), with the lemmas on sorted lists that the
  components share.
\<close>

section \<open>Faults and results\<close>

text \<open>
  A failing \<^verbatim>\<open>assert\<close>, an access outside an array, the use of a null pointer and a
  division by zero end the run of the C program (or leave its behaviour undefined). Each is a value
  of \<open>fault\<close>; an operation that can fail returns \<open>Inl\<close> of it. A loop over linked nodes
  that is cut off at the bound the model gives it returns \<open>Out_of_fuel\<close>.
\<close>

datatype fault = Assert_failed | Out_of_bounds | Null_deref | Div_by_zero | Out_of_fuel

type_synonym 'a res = "fault + 'a"

definition res_bind :: "'a res \<Rightarrow> ('a \<Rightarrow> 'b res) \<Rightarrow> 'b res" where
  "res_bind m f = (case m of Inl e \<Rightarrow> Inl e | Inr x \<Rightarrow> f x)"

lemma res_bind_simps [simp]:
  "res_bind (Inr x) f = f x"
  "res_bind (Inl e) f = Inl e"
  by (simp_all add: res_bind_def)

lemma res_bind_eq_Inr: "res_bind m f = Inr y \<longleftrightarrow> (\<exists>x. m = Inr x \<and> f x = Inr y)"
  by (cases m) auto

lemma res_bind_eq_InrE [elim!]:
  assumes "res_bind m f = Inr y"
  obtains x where "m = Inr x" "f x = Inr y"
  using assms by (auto simp: res_bind_eq_Inr)

lemma res_bind_cong [fundef_cong]:
  assumes "m = m'" and "\<And>x. m' = Inr x \<Longrightarrow> f x = f' x"
  shows "res_bind m f = res_bind m' f'"
  using assms by (cases m') auto

lemma res_bind_assoc: "res_bind (res_bind m f) g = res_bind m (\<lambda>x. res_bind (f x) g)"
  by (cases m) auto

definition c_assert :: "bool \<Rightarrow> 'a res \<Rightarrow> 'a res" where
  "c_assert b m = (if b then m else Inl Assert_failed)"

lemma c_assert_simps [simp]:
  "c_assert True m = m"
  "c_assert False m = Inl Assert_failed"
  by (simp_all add: c_assert_def)

lemma c_assert_eq_Inr [simp]: "c_assert b m = Inr y \<longleftrightarrow> b \<and> m = Inr y"
  by (simp add: c_assert_def)

lemma c_assert_cong [fundef_cong]:
  assumes "b = b'" and "b' \<Longrightarrow> m = m'"
  shows "c_assert b m = c_assert b' m'"
  using assms by (auto simp: c_assert_def)

text \<open>
  \<open>succeeds m P\<close>: the operation does not fail and its result satisfies \<open>P\<close>, in the
  style of a weakest precondition.
\<close>

definition succeeds :: "'a res \<Rightarrow> ('a \<Rightarrow> bool) \<Rightarrow> bool" where
  "succeeds m P \<longleftrightarrow> (case m of Inl _ \<Rightarrow> False | Inr x \<Rightarrow> P x)"

lemma succeeds_simps [simp]:
  "succeeds (Inr x) P \<longleftrightarrow> P x"
  "succeeds (Inl e) P \<longleftrightarrow> False"
  by (simp_all add: succeeds_def)

lemma succeeds_bind [simp]: "succeeds (res_bind m f) P \<longleftrightarrow> succeeds m (\<lambda>x. succeeds (f x) P)"
  by (cases m) simp_all

lemma succeeds_assert [simp]: "succeeds (c_assert b m) P \<longleftrightarrow> b \<and> succeeds m P"
  by (cases b) simp_all

lemma succeeds_iff: "succeeds m P \<longleftrightarrow> (\<exists>x. m = Inr x \<and> P x)"
  by (cases m) auto

lemma succeedsE:
  assumes "succeeds m P"
  obtains x where "m = Inr x" "P x"
  using assms by (auto simp: succeeds_iff)

lemma succeeds_mono:
  assumes "succeeds m P" and "\<And>x. m = Inr x \<Longrightarrow> P x \<Longrightarrow> Q x"
  shows "succeeds m Q"
  using assms by (auto simp: succeeds_iff)

text \<open>
  A computation with loops that may not end has a result of type \<open>'a option res\<close>, where
  \<open>Inr None\<close> is a run that does not return. \<open>completes m P\<close> says that it returns, without
  a fault, and that the result satisfies \<open>P\<close>.
\<close>

definition run_bind :: "'a option res \<Rightarrow> ('a \<Rightarrow> 'b option res) \<Rightarrow> 'b option res" where
  "run_bind m f = res_bind m (\<lambda>r. case r of None \<Rightarrow> Inr None | Some x \<Rightarrow> f x)"

definition ret :: "'a \<Rightarrow> 'a option res" where
  "ret x = Inr (Some x)"

definition lift_res :: "'a res \<Rightarrow> 'a option res" where
  "lift_res m = res_bind m ret"

definition completes :: "'a option res \<Rightarrow> ('a \<Rightarrow> bool) \<Rightarrow> bool" where
  "completes m P \<longleftrightarrow> succeeds m (\<lambda>r. case r of None \<Rightarrow> False | Some x \<Rightarrow> P x)"

lemma run_bind_simps [simp]:
  "run_bind (Inr (Some x)) f = f x"
  "run_bind (Inr None) f = Inr None"
  "run_bind (Inl e) f = Inl e"
  by (simp_all add: run_bind_def)

lemma run_bind_ret [simp]: "run_bind (ret x) f = f x"
  by (simp add: ret_def)

lemma run_bind_cong [fundef_cong]:
  assumes "m = m'" and "\<And>x. m' = Inr (Some x) \<Longrightarrow> f x = f' x"
  shows "run_bind m f = run_bind m' f'"
  using assms by (cases m') (auto simp: run_bind_def split: option.splits)

lemma completes_simps [simp]:
  "completes (Inr (Some x)) P \<longleftrightarrow> P x"
  "completes (Inr None) P \<longleftrightarrow> False"
  "completes (Inl e) P \<longleftrightarrow> False"
  by (simp_all add: completes_def)

lemma completes_ret [simp]: "completes (ret x) P \<longleftrightarrow> P x"
  by (simp add: ret_def)

lemma completes_lift [simp]: "completes (lift_res m) P \<longleftrightarrow> succeeds m P"
  by (cases m) (simp_all add: lift_res_def)

lemma completes_bind [simp]: "completes (run_bind m f) P \<longleftrightarrow> completes m (\<lambda>x. completes (f x) P)"
  by (cases m) (simp_all add: run_bind_def completes_def split: option.splits)

lemma completes_assert [simp]: "completes (c_assert b m) P \<longleftrightarrow> b \<and> completes m P"
  by (cases b) simp_all

lemma completes_iff: "completes m P \<longleftrightarrow> (\<exists>x. m = Inr (Some x) \<and> P x)"
  by (cases m) (auto simp: completes_def split: option.splits)

lemma completesE:
  assumes "completes m P"
  obtains x where "m = Inr (Some x)" "P x"
  using assms by (auto simp: completes_iff)

lemma completes_mono:
  assumes "completes m P" and "\<And>x. m = Inr (Some x) \<Longrightarrow> P x \<Longrightarrow> Q x"
  shows "completes m Q"
  using assms by (auto simp: completes_iff)

section \<open>Arrays\<close>

text \<open>
  \<open>rd xs i\<close> is the C read \<^verbatim>\<open>xs[i]\<close>, \<open>wr xs i v\<close> the write
  \<^verbatim>\<open>xs[i] = v\<close>; indices are C integers, so they may be negative.
\<close>

definition rd :: "'a list \<Rightarrow> int \<Rightarrow> 'a res" where
  "rd xs i = (if 0 \<le> i \<and> i < int (length xs) then Inr (xs ! nat i) else Inl Out_of_bounds)"

definition wr :: "'a list \<Rightarrow> int \<Rightarrow> 'a \<Rightarrow> 'a list res" where
  "wr xs i v = (if 0 \<le> i \<and> i < int (length xs) then Inr (xs[nat i := v]) else Inl Out_of_bounds)"

lemma rd_in [simp]: "0 \<le> i \<Longrightarrow> i < int (length xs) \<Longrightarrow> rd xs i = Inr (xs ! nat i)"
  by (simp add: rd_def)

lemma rd_eq_Inr: "rd xs i = Inr x \<longleftrightarrow> 0 \<le> i \<and> i < int (length xs) \<and> x = xs ! nat i"
  by (auto simp: rd_def)

lemma rd_nat [simp]: "rd xs (int i) = (if i < length xs then Inr (xs ! i) else Inl Out_of_bounds)"
  by (simp add: rd_def)

lemma wr_in [simp]: "0 \<le> i \<Longrightarrow> i < int (length xs) \<Longrightarrow> wr xs i v = Inr (xs[nat i := v])"
  by (simp add: wr_def)

lemma wr_eq_Inr: "wr xs i v = Inr ys \<longleftrightarrow> 0 \<le> i \<and> i < int (length xs) \<and> ys = xs[nat i := v]"
  by (auto simp: wr_def)

section \<open>Unsigned integers\<close>

text \<open>\<^verbatim>\<open>unsigned\<close> and \<^verbatim>\<open>uint64_t\<close> wrap around; the signed indices of the
  code never come near their limits (at most a few times the number of pairs in memory).\<close>

definition u32 :: "nat \<Rightarrow> nat" where
  "u32 n = n mod 2 ^ 32"

definition u64 :: "nat \<Rightarrow> nat" where
  "u64 n = n mod 2 ^ 64"

lemma u32_small [simp]: "n < 2 ^ 32 \<Longrightarrow> u32 n = n"
  by (simp add: u32_def)

lemma u64_small [simp]: "n < 2 ^ 64 \<Longrightarrow> u64 n = n"
  by (simp add: u64_def)

lemma u32_less: "u32 n < 2 ^ 32"
  by (simp add: u32_def)

lemma u64_less: "u64 n < 2 ^ 64"
  by (simp add: u64_def)

section \<open>Comparison callbacks\<close>

text \<open>
  Every ordered structure of Metis takes its order from a callback
  \<^verbatim>\<open>int cmp(const void *, const void *)\<close> with the contract of C's \<^verbatim>\<open>qsort\<close>: the
  sign says how the arguments compare, swapping them swaps the sign, and the order is transitive.
  Two arguments that compare as 0 need not be equal.
\<close>

locale comparator =
  fixes cmp :: "'a \<Rightarrow> 'a \<Rightarrow> int"
  assumes cmp_sym: "cmp x y < 0 \<longleftrightarrow> 0 < cmp y x"
    and cmp_trans: "cmp x y \<le> 0 \<Longrightarrow> cmp y z \<le> 0 \<Longrightarrow> cmp x z \<le> 0"
begin

lemma cmp_sym': "0 < cmp x y \<longleftrightarrow> cmp y x < 0"
  using cmp_sym by blast

lemma cmp_refl [simp]: "cmp x x = 0"
  using cmp_sym [of x x] by linarith

lemma cmp_le_ge: "cmp x y \<le> 0 \<longleftrightarrow> 0 \<le> cmp y x"
  using cmp_sym [of y x] by linarith

lemma cmp_eq_sym: "cmp x y = 0 \<longleftrightarrow> cmp y x = 0"
  using cmp_sym [of x y] cmp_sym [of y x] by linarith

lemma cmp_total: "cmp x y \<le> 0 \<or> cmp y x \<le> 0"
  using cmp_le_ge [of x y] by linarith

lemma cmp_ge_trans: "0 \<le> cmp x y \<Longrightarrow> 0 \<le> cmp y z \<Longrightarrow> 0 \<le> cmp x z"
  using cmp_trans cmp_le_ge by blast

lemma cmp_le_less_trans: "cmp x y \<le> 0 \<Longrightarrow> cmp y z < 0 \<Longrightarrow> cmp x z < 0"
  by (meson cmp_le_ge cmp_sym' cmp_trans linorder_not_less)

lemma cmp_less_le_trans: "cmp x y < 0 \<Longrightarrow> cmp y z \<le> 0 \<Longrightarrow> cmp x z < 0"
  by (meson cmp_le_ge cmp_sym' cmp_trans linorder_not_less)

lemma cmp_less_trans: "cmp x y < 0 \<Longrightarrow> cmp y z < 0 \<Longrightarrow> cmp x z < 0"
  by (rule cmp_le_less_trans [OF less_imp_le])

lemma cmp_eq_trans: "cmp x y = 0 \<Longrightarrow> cmp y z = 0 \<Longrightarrow> cmp x z = 0"
  by (metis cmp_eq_sym cmp_le_ge cmp_trans order_antisym order_refl)

lemma cmp_transp: "transp (\<lambda>x y. cmp x y \<le> 0)" "transp (\<lambda>x y. cmp x y < 0)"
  by (auto intro!: transpI intro: cmp_trans cmp_less_trans)

end

text \<open>Sorted (and strictly sorted) with respect to a comparison callback.\<close>

definition csorted :: "('a \<Rightarrow> 'a \<Rightarrow> int) \<Rightarrow> 'a list \<Rightarrow> bool" where
  "csorted cmp xs \<longleftrightarrow> sorted_wrt (\<lambda>x y. cmp x y \<le> 0) xs"

definition cstrict :: "('a \<Rightarrow> 'a \<Rightarrow> int) \<Rightarrow> 'a list \<Rightarrow> bool" where
  "cstrict cmp xs \<longleftrightarrow> sorted_wrt (\<lambda>x y. cmp x y < 0) xs"

lemma csorted_simps [simp]:
  "csorted cmp []"
  "csorted cmp (x # xs) \<longleftrightarrow> (\<forall>y \<in> set xs. cmp x y \<le> 0) \<and> csorted cmp xs"
  by (simp_all add: csorted_def)

lemma csorted_append:
  "csorted cmp (xs @ ys) \<longleftrightarrow>
     csorted cmp xs \<and> csorted cmp ys \<and> (\<forall>x \<in> set xs. \<forall>y \<in> set ys. cmp x y \<le> 0)"
  by (auto simp: csorted_def sorted_wrt_append)

lemma cstrict_simps [simp]:
  "cstrict cmp []"
  "cstrict cmp (x # xs) \<longleftrightarrow> (\<forall>y \<in> set xs. cmp x y < 0) \<and> cstrict cmp xs"
  by (simp_all add: cstrict_def)

lemma cstrict_append:
  "cstrict cmp (xs @ ys) \<longleftrightarrow>
     cstrict cmp xs \<and> cstrict cmp ys \<and> (\<forall>x \<in> set xs. \<forall>y \<in> set ys. cmp x y < 0)"
  by (auto simp: cstrict_def sorted_wrt_append)

lemma cstrict_imp_csorted: "cstrict cmp xs \<Longrightarrow> csorted cmp xs"
  unfolding cstrict_def csorted_def by (rule sorted_wrt_mono_rel) auto

lemma csorted_nth: "csorted cmp xs \<Longrightarrow> i < j \<Longrightarrow> j < length xs \<Longrightarrow> cmp (xs ! i) (xs ! j) \<le> 0"
  using sorted_wrt_nth_less [of "\<lambda>x y. cmp x y \<le> 0" xs i j] by (simp add: csorted_def)

lemma cstrict_nth: "cstrict cmp xs \<Longrightarrow> i < j \<Longrightarrow> j < length xs \<Longrightarrow> cmp (xs ! i) (xs ! j) < 0"
  using sorted_wrt_nth_less [of "\<lambda>x y. cmp x y < 0" xs i j] by (simp add: cstrict_def)

lemma csorted_take [simp]: "csorted cmp xs \<Longrightarrow> csorted cmp (take n xs)"
  by (simp add: csorted_def sorted_wrt_take)

lemma csorted_drop [simp]: "csorted cmp xs \<Longrightarrow> csorted cmp (drop n xs)"
  by (simp add: csorted_def sorted_wrt_drop)

lemma cstrict_take [simp]: "cstrict cmp xs \<Longrightarrow> cstrict cmp (take n xs)"
  by (simp add: cstrict_def sorted_wrt_take)

lemma cstrict_drop [simp]: "cstrict cmp xs \<Longrightarrow> cstrict cmp (drop n xs)"
  by (simp add: cstrict_def sorted_wrt_drop)

lemma csorted_tl [simp]: "csorted cmp xs \<Longrightarrow> csorted cmp (tl xs)"
  by (cases xs) simp_all

lemma cstrict_tl [simp]: "cstrict cmp xs \<Longrightarrow> cstrict cmp (tl xs)"
  by (cases xs) simp_all

lemma csorted_map: "csorted cmp (map f xs) \<longleftrightarrow> csorted (\<lambda>x y. cmp (f x) (f y)) xs"
  by (simp add: csorted_def sorted_wrt_map)

lemma cstrict_map: "cstrict cmp (map f xs) \<longleftrightarrow> cstrict (\<lambda>x y. cmp (f x) (f y)) xs"
  by (simp add: cstrict_def sorted_wrt_map)

lemma comparator_on: "comparator cmp \<Longrightarrow> comparator (\<lambda>x y. cmp (f x) (f y))"
  by (simp add: comparator_def)

section \<open>The C library's sort\<close>

text \<open>
  The standard promises of \<^verbatim>\<open>qsort(base, n, size, cmp)\<close> that the array is permuted into
  ascending order; the order of elements that compare equal is unspecified. The model takes the
  sort as a parameter, and the theorems hold for every sort that keeps the promise.
\<close>

locale qsort_impl =
  fixes qs :: "('a \<Rightarrow> 'a \<Rightarrow> int) \<Rightarrow> 'a list \<Rightarrow> 'a list"
  assumes qsort_perm: "mset (qs cmp xs) = mset xs"
    and qsort_sorted: "comparator cmp \<Longrightarrow> csorted cmp (qs cmp xs)"
begin

lemma qsort_length [simp]: "length (qs cmp xs) = length xs"
  by (metis qsort_perm size_mset)

lemma qsort_set [simp]: "set (qs cmp xs) = set xs"
  by (metis qsort_perm set_mset_mset)

end

text \<open>A sort that keeps the promise: stable insertion, used to evaluate concrete runs.\<close>

fun c_insert :: "('a \<Rightarrow> 'a \<Rightarrow> int) \<Rightarrow> 'a \<Rightarrow> 'a list \<Rightarrow> 'a list" where
  "c_insert cmp x [] = [x]"
| "c_insert cmp x (y # ys) = (if cmp x y \<le> 0 then x # y # ys else y # c_insert cmp x ys)"

fun c_isort :: "('a \<Rightarrow> 'a \<Rightarrow> int) \<Rightarrow> 'a list \<Rightarrow> 'a list" where
  "c_isort cmp [] = []"
| "c_isort cmp (x # xs) = c_insert cmp x (c_isort cmp xs)"

lemma mset_c_insert: "mset (c_insert cmp x xs) = add_mset x (mset xs)"
  by (induction xs) auto

lemma set_c_insert: "set (c_insert cmp x xs) = insert x (set xs)"
  by (induction xs) auto

lemma mset_c_isort: "mset (c_isort cmp xs) = mset xs"
  by (induction xs) (auto simp: mset_c_insert)

context comparator
begin

lemma csorted_c_insert: "csorted cmp xs \<Longrightarrow> csorted cmp (c_insert cmp x xs)"
proof (induction xs)
  case (Cons y ys)
  show ?case
  proof (cases "cmp x y \<le> 0")
    case True
    with Cons.prems show ?thesis by (auto intro: cmp_trans)
  next
    case False
    then have "cmp y x \<le> 0" using cmp_total by blast
    with False Cons show ?thesis by (auto simp: set_c_insert)
  qed
qed simp

lemma csorted_c_isort: "csorted cmp (c_isort cmp xs)"
  by (induction xs) (auto simp: csorted_c_insert)

end

interpretation isort: qsort_impl c_isort
  by unfold_locales (simp_all add: mset_c_isort comparator.csorted_c_isort)

end
