(* ===== verification/Mr_Types.thy ===== *)
theory Mr_Types
  imports Metis_Prelude
begin

text \<open>
  The data types shared by the whole library (\<^verbatim>\<open>metis/lib/mr-types.h\<close>), the application's
  callbacks as the library keeps them in its globals (\<^verbatim>\<open>the_app\<close>, \<^verbatim>\<open>keycmp\<close>,
  \<^verbatim>\<open>mrkeycopy\<close>), and growable arrays with their capacity.
\<close>

section \<open>Pairs\<close>

text \<open>
  Keys and values are \<^verbatim>\<open>void *\<close> in C; the model is polymorphic in both. The field
  \<^verbatim>\<open>vals\<close> of a \<^verbatim>\<open>keyvals_t\<close> is used in two ways: as the address of an array of
  values, or, when the application has a value modifier, as the modified value itself.
\<close>

datatype 'v vals_ptr = VNull | VArr "'v list" | VVm 'v

record ('k, 'v) keyval =
  kv_key :: 'k
  kv_val :: 'v
  kv_hash :: nat

record ('k, 'v) keyvals_len =
  kvl_key :: 'k
  kvl_vals :: "'v vals_ptr"
  kvl_len :: nat

record ('k, 'v) keyvals =
  kvs_key :: 'k
  kvs_vals :: "'v vals_ptr"
  kvs_len :: nat
  kvs_alloc_len :: nat
  kvs_hash :: nat

datatype app_type = Atype_maponly | Atype_mapgroup | Atype_mapreduce

text \<open>
  What the library knows about the application. A value modifier \<^verbatim>\<open>vm(oldv, newv, isnew)\<close>
  gets \<open>None\<close> for a null \<^verbatim>\<open>oldv\<close>. A combiner rewrites the array of values in place
  and returns the number of values left. A reduce function emits any number of pairs through
  \<^verbatim>\<open>mr_reduce_emit\<close>; the model of it returns them. \<open>null_key\<close> is the null pointer
  among the keys, which a cleared slot holds.
\<close>

record ('k, 'v) env =
  atype :: app_type
  vm :: "('v option \<Rightarrow> 'v \<Rightarrow> bool \<Rightarrow> 'v) option"
  combiner :: "('k \<Rightarrow> 'v list \<Rightarrow> 'v list \<times> nat) option"
  reduce_func :: "('k \<Rightarrow> 'v list \<Rightarrow> ('k \<times> 'v) list) option"
  keycmp :: "'k \<Rightarrow> 'k \<Rightarrow> int"
  mrkeycopy :: "('k \<Rightarrow> nat \<Rightarrow> 'k) option"
  null_key :: 'k

definition uses_vm :: "('k, 'v) env \<Rightarrow> bool" where
  "uses_vm e \<longleftrightarrow> atype e = Atype_mapreduce \<and> vm e \<noteq> None"

definition copy_key :: "('k, 'v) env \<Rightarrow> 'k \<Rightarrow> nat \<Rightarrow> 'k" where
  "copy_key e key keylen =
     (case mrkeycopy e of
        Some cp \<Rightarrow> (if keylen \<noteq> 0 then cp key keylen else key)
      | None \<Rightarrow> key)"

text \<open>
  The contract of a call with a key to copy: the copy compares equal to the key. A key-copy
  callback copies \<^verbatim>\<open>keylen\<close> bytes, so it is kept by a length that covers the key.
\<close>

definition keycopy_ok :: "('k, 'v) env \<Rightarrow> 'k \<Rightarrow> nat \<Rightarrow> bool" where
  "keycopy_ok e key keylen \<longleftrightarrow> keycmp e (copy_key e key keylen) key = 0"

text \<open>
  What the ordered structures of the library rely on in an application: its key order is a
  comparator.
\<close>

locale mr_env =
  fixes e :: "('k, 'v) env"
  assumes keycmp_comparator: "comparator (keycmp e)"

sublocale mr_env \<subseteq> kc: comparator "keycmp e"
  by (rule keycmp_comparator)

context mr_env
begin

lemma keycopy_ok_none [simp]: "mrkeycopy e = None \<Longrightarrow> keycopy_ok e k n"
  by (simp add: keycopy_ok_def copy_key_def)

lemma copy_key_cmp:
  assumes "keycopy_ok e k n"
  shows "keycmp e (copy_key e k n) k = 0" "keycmp e k (copy_key e k n) = 0"
  using assms kc.cmp_eq_sym by (auto simp: keycopy_ok_def)

lemma copy_key_cmp_left: "keycopy_ok e k n \<Longrightarrow> keycmp e (copy_key e k n) x < 0 \<longleftrightarrow> keycmp e k x < 0"
  by (metis copy_key_cmp kc.cmp_le_less_trans order_refl)

lemma copy_key_cmp_right: "keycopy_ok e k n \<Longrightarrow> keycmp e x (copy_key e k n) < 0 \<longleftrightarrow> keycmp e x k < 0"
  by (metis copy_key_cmp kc.cmp_less_le_trans order_refl)

end

section \<open>Growable arrays\<close>

text \<open>
  \<^verbatim>\<open>keyval_arr_t\<close>, \<^verbatim>\<open>keyvals_arr_t\<close> and \<^verbatim>\<open>keyvals_len_arr_t\<close> have the same
  layout: a length, a capacity and a pointer. The pointer is \<open>None\<close> when null, otherwise the
  initialised part of the buffer; the capacity is checked on every store.
\<close>

record 'e parr =
  pa_len :: nat
  pa_alloc :: nat
  pa_arr :: "'e list option"

definition parr_init :: "'e parr" where
  "parr_init = \<lparr>pa_len = 0, pa_alloc = 0, pa_arr = None\<rparr>"

definition init_array_size :: nat where
  "init_array_size = 8"

text \<open>\<^verbatim>\<open>realloc\<close> keeps what fits into the new size; on a null pointer it allocates.\<close>

definition c_realloc :: "'e list option \<Rightarrow> nat \<Rightarrow> 'e list option" where
  "c_realloc buf n = Some (take n (case buf of None \<Rightarrow> [] | Some xs \<Rightarrow> xs))"

definition parr_grow :: "'e parr \<Rightarrow> 'e parr" where
  "parr_grow a =
     (if pa_alloc a = 0 then a\<lparr>pa_alloc := init_array_size, pa_arr := Some []\<rparr>
      else if pa_len a = pa_alloc a then
        let n = u32 (pa_alloc a * 2) in a\<lparr>pa_alloc := n, pa_arr := c_realloc (pa_arr a) n\<rparr>
      else a)"

text \<open>A store into a buffer: inside the capacity, over an initialised cell or right after them.\<close>

definition buf_put :: "nat \<Rightarrow> 'e list \<Rightarrow> nat \<Rightarrow> 'e \<Rightarrow> 'e list res" where
  "buf_put cap xs i v =
     (if i < cap \<and> i < length xs then Inr (xs[i := v])
      else if i < cap \<and> i = length xs then Inr (xs @ [v])
      else Inl Out_of_bounds)"

definition parr_put :: "'e parr \<Rightarrow> nat \<Rightarrow> 'e \<Rightarrow> 'e parr res" where
  "parr_put a i v =
     (case pa_arr a of
        None \<Rightarrow> Inl Null_deref
      | Some xs \<Rightarrow> res_bind (buf_put (pa_alloc a) xs i v) (\<lambda>ys. Inr (a\<lparr>pa_arr := Some ys\<rparr>)))"

text \<open>\<^verbatim>\<open>arr[len++] = v\<close> after making room.\<close>

definition parr_append :: "'e parr \<Rightarrow> 'e \<Rightarrow> 'e parr res" where
  "parr_append a v =
     (let b = parr_grow a in
      res_bind (parr_put b (pa_len b) v) (\<lambda>c. Inr (c\<lparr>pa_len := u32 (pa_len c + 1)\<rparr>)))"

definition parr_elems :: "'e parr \<Rightarrow> 'e list" where
  "parr_elems a = (case pa_arr a of None \<Rightarrow> [] | Some xs \<Rightarrow> take (pa_len a) xs)"

text \<open>The buffer as \<^verbatim>\<open>pch_get_arr_elems\<close> returns it.\<close>

definition parr_buf :: "'e parr \<Rightarrow> 'e list" where
  "parr_buf a = (case pa_arr a of None \<Rightarrow> [] | Some xs \<Rightarrow> xs)"

definition parr_set_elems :: "'e parr \<Rightarrow> 'e list \<Rightarrow> nat \<Rightarrow> 'e parr" where
  "parr_set_elems a xs n = a\<lparr>pa_arr := Some xs, pa_len := n, pa_alloc := n\<rparr>"

definition parr_shallow_free :: "'e parr \<Rightarrow> 'e parr" where
  "parr_shallow_free a =
     (case pa_arr a of None \<Rightarrow> a | Some _ \<Rightarrow> a\<lparr>pa_arr := None, pa_len := 0\<rparr>)"

text \<open>The invariant of an array in use: the live elements are exactly the initialised cells.\<close>

definition parr_inv :: "'e parr \<Rightarrow> bool" where
  "parr_inv a \<longleftrightarrow> pa_len a \<le> pa_alloc a \<and> pa_alloc a < 2 ^ 32 \<and>
     (0 < pa_alloc a \<longrightarrow> (\<exists>xs. pa_arr a = Some xs \<and> length xs = pa_len a))"

lemma parr_init_inv [simp]: "parr_inv parr_init" "parr_elems parr_init = []"
  by (simp_all add: parr_inv_def parr_init_def parr_elems_def)

lemma parr_inv_len: "parr_inv a \<Longrightarrow> length (parr_elems a) = pa_len a"
  by (cases "pa_alloc a = 0") (auto simp: parr_inv_def parr_elems_def split: option.splits)

lemma parr_inv_cases:
  assumes "parr_inv a"
  obtains (empty) "pa_alloc a = 0" "pa_len a = 0" "parr_elems a = []"
  | (full) xs where "0 < pa_alloc a" "pa_arr a = Some xs" "parr_elems a = xs"
      "length xs = pa_len a" "pa_len a \<le> pa_alloc a"
  using assms by (cases "pa_alloc a = 0") (auto simp: parr_inv_def parr_elems_def split: option.splits)

text \<open>Making room keeps the elements, and afterwards there is a free cell below \<open>2 ^ 31\<close> entries.\<close>

lemma parr_grow_room:
  assumes "parr_inv a" "pa_len a < 2 ^ 31"
  shows "parr_inv (parr_grow a)" "parr_elems (parr_grow a) = parr_elems a"
    "pa_len (parr_grow a) = pa_len a" "pa_len a < pa_alloc (parr_grow a)"
    "pa_arr (parr_grow a) = Some (parr_elems a)"
  using assms
  by (auto elim!: parr_inv_cases simp: parr_grow_def parr_inv_def parr_elems_def c_realloc_def
      init_array_size_def Let_def split: option.splits)

lemma parr_append_ok:
  assumes "parr_inv a" "pa_len a < 2 ^ 31"
  shows "succeeds (parr_append a v) (\<lambda>b. parr_inv b \<and> parr_elems b = parr_elems a @ [v] \<and>
           pa_len b = pa_len a + 1)"
  using parr_grow_room [OF assms] assms(2) parr_inv_len [OF assms(1)]
  by (simp add: parr_append_def parr_put_def buf_put_def Let_def parr_inv_def parr_elems_def)

text \<open>At \<open>2 ^ 31\<close> entries the doubled capacity wraps to 0 and the store has no room.\<close>

lemma parr_append_wraps:
  assumes "pa_len a = 2 ^ 31" "pa_alloc a = 2 ^ 31"
  shows "parr_append a v = Inl Out_of_bounds"
  using assms by (simp add: parr_append_def parr_grow_def parr_put_def buf_put_def c_realloc_def u32_def)

text \<open>Freeing leaves the capacity, so a freed array in use before must not be appended to again.\<close>

lemma parr_append_freed:
  assumes "parr_inv a" "pa_arr a \<noteq> None" "1 < pa_alloc a"
  shows "parr_append (parr_shallow_free a) v = Inl Null_deref"
  using assms by (auto simp: parr_append_def parr_shallow_free_def parr_grow_def parr_put_def)

lemma parr_set_elems_inv:
  "length xs = n \<Longrightarrow> n < 2 ^ 32 \<Longrightarrow> parr_inv (parr_set_elems a xs n)"
  "length xs = n \<Longrightarrow> parr_elems (parr_set_elems a xs n) = xs"
  by (simp_all add: parr_set_elems_def parr_inv_def parr_elems_def)

lemma parr_shallow_free_elems [simp]: "parr_elems (parr_shallow_free a) = []"
  by (simp add: parr_elems_def parr_shallow_free_def split: option.splits)

lemma parr_buf_elems: "parr_inv a \<Longrightarrow> take (pa_len a) (parr_buf a) = parr_elems a"
  by (auto simp: parr_buf_def parr_elems_def split: option.splits)

lemma parr_buf_full: "parr_inv a \<Longrightarrow> 0 < pa_alloc a \<Longrightarrow> parr_buf a = parr_elems a"
  by (auto simp: parr_buf_def elim: parr_inv_cases)

lemma parr_buf_len: "parr_inv a \<Longrightarrow> pa_len a \<le> length (parr_buf a)"
  by (metis length_take min.cobounded1 parr_buf_elems parr_inv_len)

end
