(* ===== verification/Value_Helper.thy ===== *)
theory Value_Helper
  imports Mr_Types
begin

text \<open>
  The values of one key (\<^verbatim>\<open>metis/lib/value_helper.c\<close>): inserting a value, with the value
  modifier or the combiner of the application applied on the way, moving the values of one
  \<^verbatim>\<open>keyvals_t\<close> to the end of another, and freeing them.
\<close>

section \<open>Operations\<close>

definition combiner_threshold :: nat where
  "combiner_threshold = 8"

text \<open>The old value handed to the modifier: the pointer field read as a value.\<close>

fun vm_old :: "'v vals_ptr \<Rightarrow> 'v option" where
  "vm_old VNull = None"
| "vm_old (VArr xs) = None"
| "vm_old (VVm v) = Some v"

definition kvs_put :: "('k, 'v) keyvals \<Rightarrow> nat \<Rightarrow> 'v \<Rightarrow> ('k, 'v) keyvals res" where
  "kvs_put kvs i v =
     (case kvs_vals kvs of
        VArr xs \<Rightarrow> res_bind (buf_put (kvs_alloc_len kvs) xs i v) (\<lambda>ys. Inr (kvs\<lparr>kvs_vals := VArr ys\<rparr>))
      | _ \<Rightarrow> Inl Null_deref)"

definition realloc_vals :: "'v vals_ptr \<Rightarrow> nat \<Rightarrow> 'v vals_ptr" where
  "realloc_vals p n = VArr (take n (case p of VArr xs \<Rightarrow> xs | _ \<Rightarrow> []))"

text \<open>Running the combiner over the first \<^verbatim>\<open>len\<close> values, in place.\<close>

definition run_combiner :: "('k \<Rightarrow> 'v list \<Rightarrow> 'v list \<times> nat) \<Rightarrow> ('k, 'v) keyvals \<Rightarrow> ('k, 'v) keyvals" where
  "run_combiner c kvs =
     (case kvs_vals kvs of
        VArr xs \<Rightarrow>
          (case c (kvs_key kvs) (take (kvs_len kvs) xs) of
             (ys, n) \<Rightarrow> kvs\<lparr>kvs_vals := VArr (ys @ drop (kvs_len kvs) xs), kvs_len := n\<rparr>)
      | _ \<Rightarrow> kvs)"

definition values_insert :: "('k, 'v) env \<Rightarrow> ('k, 'v) keyvals \<Rightarrow> 'v \<Rightarrow> ('k, 'v) keyvals res" where
  "values_insert e kvs v =
     (case (if atype e = Atype_mapreduce then vm e else None) of
        Some f \<Rightarrow>
          if kvs_len kvs = 0 then Inr (kvs\<lparr>kvs_len := 1, kvs_vals := VVm (f None v True)\<rparr>)
          else Inr (kvs\<lparr>kvs_vals := VVm (f (vm_old (kvs_vals kvs)) v False)\<rparr>)
      | None \<Rightarrow>
          let kvs1 =
            (if kvs_alloc_len kvs = 0
             then kvs\<lparr>kvs_alloc_len := combiner_threshold, kvs_vals := VArr []\<rparr>
             else if kvs_alloc_len kvs = kvs_len kvs
             then let n = u32 (kvs_alloc_len kvs * 2)
                  in kvs\<lparr>kvs_alloc_len := n, kvs_vals := realloc_vals (kvs_vals kvs) n\<rparr>
             else kvs)
          in res_bind (kvs_put kvs1 (kvs_len kvs1) v) (\<lambda>kvs2.
             let kvs3 = kvs2\<lparr>kvs_len := u32 (kvs_len kvs2 + 1)\<rparr>
             in Inr (case (if atype e = Atype_mapreduce then combiner e else None) of
                       Some c \<Rightarrow> if combiner_threshold \<le> kvs_len kvs3 then run_combiner c kvs3 else kvs3
                     | None \<Rightarrow> kvs3)))"

definition values_deep_free :: "('k, 'v) env \<Rightarrow> ('k, 'v) keyvals \<Rightarrow> ('k, 'v) keyvals" where
  "values_deep_free e kvs = kvs\<lparr>kvs_vals := VNull, kvs_alloc_len := 0, kvs_len := 0\<rparr>"

text \<open>
  The capacity of the destination is doubled until the values fit. The loop is bounded by the
  32 doublings after which an \<^verbatim>\<open>unsigned\<close> capacity that never fits has become 0 and stays
  there; the C loop then spins, which the model reports as \<open>None\<close>.
\<close>

fun mv_double :: "nat \<Rightarrow> nat \<Rightarrow> nat \<Rightarrow> nat option" where
  "mv_double 0 a need = (if a < need then None else Some a)"
| "mv_double (Suc fuel) a need = (if a < need then mv_double fuel (u32 (a * 2)) need else Some a)"

text \<open>\<open>None\<close> inside \<open>Inr\<close> is a call that never returns; a returned pair is the two
  structures after the move.\<close>

definition values_mv :: "('k, 'v) env \<Rightarrow> ('k, 'v) keyvals \<Rightarrow> ('k, 'v) keyvals
    \<Rightarrow> (('k, 'v) keyvals \<times> ('k, 'v) keyvals) option res" where
  "values_mv e dst src =
     (case (if atype e = Atype_mapreduce then vm e else None) of
        Some f \<Rightarrow>
          c_assert (kvs_len src = 1)
            (let src1 = src\<lparr>kvs_alloc_len := 0, kvs_len := 0, kvs_vals := VNull\<rparr>
             in if kvs_len dst = 0
                then Inr (Some (dst\<lparr>kvs_vals := kvs_vals src, kvs_alloc_len := kvs_alloc_len src,
                                  kvs_len := 1\<rparr>, src1))
                else case vm_old (kvs_vals src) of
                       Some w \<Rightarrow> Inr (Some (dst\<lparr>kvs_vals :=
                                   VVm (f (vm_old (kvs_vals dst)) w False)\<rparr>, src1))
                     | None \<Rightarrow> Inl Null_deref)
      | None \<Rightarrow>
          let need = u32 (kvs_len dst + kvs_len src);
              cap = (if kvs_alloc_len dst = 0 then Some (kvs_len src)
                     else mv_double 32 (kvs_alloc_len dst) need)
          in case cap of
               None \<Rightarrow> Inr None
             | Some n \<Rightarrow>
                 let dst1 =
                   (if kvs_alloc_len dst = 0 then dst\<lparr>kvs_alloc_len := n, kvs_vals := VArr []\<rparr>
                    else if kvs_alloc_len dst < need
                    then dst\<lparr>kvs_alloc_len := n, kvs_vals := realloc_vals (kvs_vals dst) n\<rparr>
                    else dst)
                 in case (kvs_vals dst1, kvs_vals src) of
                      (VArr xs, VArr ys) \<Rightarrow>
                        if kvs_len dst1 \<le> length xs \<and> kvs_len src \<le> length ys
                           \<and> kvs_len dst1 + kvs_len src \<le> kvs_alloc_len dst1
                        then Inr (Some (dst1\<lparr>kvs_vals :=
                                 VArr (take (kvs_len dst1) xs @ take (kvs_len src) ys
                                       @ drop (kvs_len dst1 + kvs_len src) xs),
                               kvs_len := u32 (kvs_len dst1 + kvs_len src)\<rparr>, src))
                        else Inl Out_of_bounds
                    | _ \<Rightarrow> Inl Null_deref)"


section \<open>What the values of a key stand for\<close>

definition kvs_content :: "('k, 'v) keyvals \<Rightarrow> 'v list" where
  "kvs_content kvs =
     (if kvs_len kvs = 0 then []
      else case kvs_vals kvs of VNull \<Rightarrow> [] | VArr xs \<Rightarrow> take (kvs_len kvs) xs | VVm v \<Rightarrow> [v])"

text \<open>
  Well-formed values: with a value modifier there is at most one value, kept in the pointer field;
  otherwise the live values are a prefix of the initialised part of the array.
\<close>

definition kvs_ok :: "('k, 'v) env \<Rightarrow> ('k, 'v) keyvals \<Rightarrow> bool" where
  "kvs_ok e kvs \<longleftrightarrow>
     (if uses_vm e then kvs_len kvs = 0 \<or> kvs_len kvs = 1 \<and> (\<exists>v. kvs_vals kvs = VVm v)
      else kvs_len kvs \<le> kvs_alloc_len kvs \<and> kvs_alloc_len kvs < 2 ^ 32 \<and>
        (0 < kvs_alloc_len kvs \<longrightarrow>
           (\<exists>xs. kvs_vals kvs = VArr xs \<and> kvs_len kvs \<le> length xs \<and> length xs \<le> kvs_alloc_len kvs)))"

text \<open>
  A summary of the values of a key that the application's combiner and value modifier preserve:
  for an application with neither it can be the list itself, for the counting applications it is
  the sum. Whatever \<open>M\<close> is, the library keeps \<open>M\<close> of everything inserted.
\<close>

locale value_summary =
  fixes e :: "('k, 'v) env" and M :: "'v list \<Rightarrow> 'm"
  assumes M_append: "M xs = M xs' \<Longrightarrow> M ys = M ys' \<Longrightarrow> M (xs @ ys) = M (xs' @ ys')"
    and M_combiner: "combiner e = Some c \<Longrightarrow> xs \<noteq> [] \<Longrightarrow> c k xs = (ys, n) \<Longrightarrow>
          length ys = length xs \<and> 0 < n \<and> n \<le> length xs \<and> M (take n ys) = M xs"
    and M_vm_new: "vm e = Some f \<Longrightarrow> M [f None v True] = M [v]"
    and M_vm: "vm e = Some f \<Longrightarrow> M [f (Some w) v False] = M [w, v]"
begin

lemma values_insert_vm:
  assumes "uses_vm e" "kvs_ok e kvs"
  shows "succeeds (values_insert e kvs v) (\<lambda>kvs'. kvs_ok e kvs' \<and> kvs_key kvs' = kvs_key kvs \<and>
    kvs_hash kvs' = kvs_hash kvs \<and> 0 < kvs_len kvs' \<and> kvs_len kvs' \<le> kvs_len kvs + 1 \<and>
    M (kvs_content kvs') = M (kvs_content kvs @ [v]))"
  using assms
  by (auto simp: values_insert_def uses_vm_def kvs_ok_def kvs_content_def M_vm_new M_vm)

lemma run_combiner_ok:
  assumes "combiner e = Some c" "\<not> uses_vm e" "kvs_ok e kvs" "0 < kvs_len kvs"
  shows "kvs_ok e (run_combiner c kvs)" "kvs_key (run_combiner c kvs) = kvs_key kvs"
    "kvs_hash (run_combiner c kvs) = kvs_hash kvs" "0 < kvs_len (run_combiner c kvs)"
    "kvs_len (run_combiner c kvs) \<le> kvs_len kvs"
    "M (kvs_content (run_combiner c kvs)) = M (kvs_content kvs)"
proof -
  obtain xs where xs: "kvs_vals kvs = VArr xs" "kvs_len kvs \<le> length xs"
    "length xs \<le> kvs_alloc_len kvs" "kvs_alloc_len kvs < 2 ^ 32"
    using assms by (auto simp: kvs_ok_def)
  obtain ys n where c: "c (kvs_key kvs) (take (kvs_len kvs) xs) = (ys, n)" by fastforce
  have "take (kvs_len kvs) xs \<noteq> []" using xs assms by auto
  from M_combiner [OF assms(1) this c] xs(2)
  have n: "length ys = kvs_len kvs" "0 < n" "n \<le> kvs_len kvs" "M (take n ys) = M (take (kvs_len kvs) xs)"
    by simp_all
  show "kvs_ok e (run_combiner c kvs)" "kvs_key (run_combiner c kvs) = kvs_key kvs"
    "kvs_hash (run_combiner c kvs) = kvs_hash kvs" "0 < kvs_len (run_combiner c kvs)"
    "kvs_len (run_combiner c kvs) \<le> kvs_len kvs"
    "M (kvs_content (run_combiner c kvs)) = M (kvs_content kvs)"
    using xs n assms by (auto simp: run_combiner_def c kvs_ok_def kvs_content_def)
qed

text \<open>The array part of an insertion: room is made and the value stored.\<close>

lemma values_store:
  assumes "\<not> uses_vm e" "kvs_ok e kvs" "kvs_len kvs < 2 ^ 31"
  defines "kvs1 \<equiv> (if kvs_alloc_len kvs = 0
             then kvs\<lparr>kvs_alloc_len := combiner_threshold, kvs_vals := VArr []\<rparr>
             else if kvs_alloc_len kvs = kvs_len kvs
             then let n = u32 (kvs_alloc_len kvs * 2)
                  in kvs\<lparr>kvs_alloc_len := n, kvs_vals := realloc_vals (kvs_vals kvs) n\<rparr>
             else kvs)"
  shows "succeeds (kvs_put kvs1 (kvs_len kvs1) v) (\<lambda>kvs2.
     let kvs3 = kvs2\<lparr>kvs_len := u32 (kvs_len kvs2 + 1)\<rparr>
     in kvs_ok e kvs3 \<and> kvs_key kvs3 = kvs_key kvs \<and> kvs_hash kvs3 = kvs_hash kvs \<and>
        kvs_len kvs3 = kvs_len kvs + 1 \<and> kvs_content kvs3 = kvs_content kvs @ [v])"
proof (cases "kvs_alloc_len kvs = 0")
  case True
  with assms(1-3) show ?thesis
    by (auto simp: kvs1_def kvs_ok_def kvs_put_def buf_put_def combiner_threshold_def kvs_content_def)
next
  case False
  then obtain xs where "kvs_vals kvs = VArr xs" "kvs_len kvs \<le> length xs"
    "length xs \<le> kvs_alloc_len kvs" "kvs_alloc_len kvs < 2 ^ 32" "kvs_len kvs \<le> kvs_alloc_len kvs"
    using assms(1,2) by (auto simp: kvs_ok_def)
  with False assms(1-3) show ?thesis
    by (auto simp: kvs1_def kvs_ok_def kvs_put_def buf_put_def Let_def realloc_vals_def
        kvs_content_def take_Suc_conv_app_nth)
qed

lemma values_insert_ok:
  assumes "kvs_ok e kvs" "kvs_len kvs < 2 ^ 31"
  shows "succeeds (values_insert e kvs v) (\<lambda>kvs'. kvs_ok e kvs' \<and> kvs_key kvs' = kvs_key kvs \<and>
    kvs_hash kvs' = kvs_hash kvs \<and> 0 < kvs_len kvs' \<and> kvs_len kvs' \<le> kvs_len kvs + 1 \<and>
    M (kvs_content kvs') = M (kvs_content kvs @ [v]))"
proof (cases "uses_vm e")
  case True
  then show ?thesis using assms(1) by (rule values_insert_vm)
next
  case False
  then have none: "(if atype e = Atype_mapreduce then vm e else None) = None"
    by (auto simp: uses_vm_def)
  show ?thesis
    unfolding values_insert_def none option.case Let_def [of "if _ then _ else _"] succeeds_bind
    by (rule succeeds_mono [OF values_store [OF False assms]])
      (auto simp: Let_def run_combiner_ok [OF _ False] combiner_threshold_def
        intro!: order_trans [OF run_combiner_ok(5) [OF _ False]] split: option.splits if_splits)
qed

end

text \<open>The doubling loop stops when the values fit below \<open>2 ^ 31\<close>.\<close>

lemma mv_double_fits:
  assumes "0 < a" "need \<le> a * 2 ^ fuel" "need \<le> 2 ^ 31" "a < 2 ^ 32"
  shows "\<exists>n. mv_double fuel a need = Some n \<and> need \<le> n \<and> n < 2 ^ 32 \<and> a \<le> n"
  using assms
proof (induction fuel arbitrary: a)
  case (Suc fuel)
  show ?case
  proof (cases "a < need")
    case True
    with Suc.prems have "u32 (a * 2) = a * 2" by simp
    with True Suc.IH [of "a * 2"] Suc.prems show ?thesis by (auto simp: mult.assoc)
  qed (use Suc.prems in auto)
qed auto

context value_summary
begin

lemma values_mv_vm:
  assumes "uses_vm e" "kvs_ok e dst" "kvs_ok e src" "0 < kvs_len src"
  shows "succeeds (values_mv e dst src) (\<lambda>r. case r of None \<Rightarrow> False | Some (dst', src') \<Rightarrow> kvs_ok e dst' \<and>
    kvs_key dst' = kvs_key dst \<and> 0 < kvs_len dst' \<and> kvs_len dst' \<le> kvs_len dst + kvs_len src \<and>
    M (kvs_content dst') = M (kvs_content dst @ kvs_content src))"
  using assms
  by (auto simp: values_mv_def uses_vm_def kvs_ok_def kvs_content_def M_vm)

lemma values_mv_array:
  assumes "\<not> uses_vm e" "kvs_ok e dst" "kvs_ok e src" "0 < kvs_len src"
    and "kvs_len dst + kvs_len src \<le> 2 ^ 31"
  shows "succeeds (values_mv e dst src) (\<lambda>r. case r of None \<Rightarrow> False | Some (dst', src') \<Rightarrow> kvs_ok e dst' \<and>
    kvs_key dst' = kvs_key dst \<and> 0 < kvs_len dst' \<and> kvs_len dst' \<le> kvs_len dst + kvs_len src \<and>
    M (kvs_content dst') = M (kvs_content dst @ kvs_content src))"
proof -
  have none: "(if atype e = Atype_mapreduce then vm e else None) = None"
    using assms(1) by (auto simp: uses_vm_def)
  obtain ys where ys: "kvs_vals src = VArr ys" "kvs_len src \<le> length ys"
    using assms(1,3,4) by (auto simp: kvs_ok_def)
  show ?thesis
  proof (cases "kvs_alloc_len dst = 0")
    case True
    with assms ys show ?thesis
      by (auto simp: values_mv_def none Let_def kvs_ok_def kvs_content_def)
  next
    case False
    then obtain xs where xs: "kvs_vals dst = VArr xs" "kvs_len dst \<le> length xs"
      "length xs \<le> kvs_alloc_len dst" "kvs_alloc_len dst < 2 ^ 32" "kvs_len dst \<le> kvs_alloc_len dst"
      using assms(1,2) by (auto simp: kvs_ok_def)
    let ?need = "kvs_len dst + kvs_len src"
    have need: "u32 ?need = ?need" using assms(5) by simp
    have "?need \<le> kvs_alloc_len dst * 2 ^ 32" using assms(5) False by simp
    with False assms(5) xs(4) obtain n where n: "mv_double 32 (kvs_alloc_len dst) ?need = Some n"
      "?need \<le> n" "n < 2 ^ 32" "kvs_alloc_len dst \<le> n"
      using mv_double_fits [of "kvs_alloc_len dst" ?need 32] by auto
    show ?thesis
      using False xs ys n need assms(1,4,5)
      by (auto simp: values_mv_def none Let_def kvs_ok_def kvs_content_def realloc_vals_def)
  qed
qed

lemma values_mv_ok:
  assumes "kvs_ok e dst" "kvs_ok e src" "0 < kvs_len src" "kvs_len dst + kvs_len src \<le> 2 ^ 31"
  shows "succeeds (values_mv e dst src) (\<lambda>r. case r of None \<Rightarrow> False | Some (dst', src') \<Rightarrow> kvs_ok e dst' \<and>
    kvs_key dst' = kvs_key dst \<and> 0 < kvs_len dst' \<and> kvs_len dst' \<le> kvs_len dst + kvs_len src \<and>
    M (kvs_content dst') = M (kvs_content dst @ kvs_content src))"
  using assms values_mv_vm values_mv_array by (cases "uses_vm e") auto

end

end
