(* ===== verification/Kvs_Spec.thy ===== *)
theory Kvs_Spec
  imports Value_Helper
begin

text \<open>
  What a collection of grouped pairs promises. A pair handler (\<^verbatim>\<open>metis/lib/pchandler.h\<close>)
  that groups by key stores one \<^verbatim>\<open>keyvals_t\<close> per key, in key order. The reference is a
  linear scan over a sorted list (\<open>list_ins\<close>, \<open>list_ins_kvs\<close>); the locale
  \<open>kvs_coll\<close> is the contract that the sorted array and the B+tree keep with it, and the
  abstract view of the data is a list of groups (key, hash, values in the order of insertion).
\<close>

section \<open>Reference operations on a sorted list\<close>

definition fresh_kvs :: "'k \<Rightarrow> nat \<Rightarrow> ('k, 'v) keyvals" where
  "fresh_kvs key hash =
     \<lparr>kvs_key = key, kvs_vals = VNull, kvs_len = 0, kvs_alloc_len = 0, kvs_hash = hash\<rparr>"

lemma kvs_ok_fresh [simp]: "kvs_ok e (fresh_kvs k h)" "kvs_len (fresh_kvs k h) = 0"
  "kvs_key (fresh_kvs k h) = k" "kvs_hash (fresh_kvs k h) = h" "kvs_content (fresh_kvs k h) = []"
  by (simp_all add: kvs_ok_def fresh_kvs_def kvs_content_def)

definition keyvals_cmp :: "('k, 'v) env \<Rightarrow> ('k, 'v) keyvals \<Rightarrow> ('k, 'v) keyvals \<Rightarrow> int" where
  "keyvals_cmp e k1 k2 = keycmp e (kvs_key k1) (kvs_key k2)"

fun list_ins :: "('k, 'v) env \<Rightarrow> 'k \<Rightarrow> 'v \<Rightarrow> nat \<Rightarrow> nat \<Rightarrow> ('k, 'v) keyvals list
    \<Rightarrow> (('k, 'v) keyvals list \<times> bool) res" where
  "list_ins e key v keylen hash [] =
     res_bind (values_insert e (fresh_kvs (copy_key e key keylen) hash) v) (\<lambda>n. Inr ([n], True))"
| "list_ins e key v keylen hash (x # xs) =
     (if keycmp e key (kvs_key x) < 0 then
        res_bind (values_insert e (fresh_kvs (copy_key e key keylen) hash) v)
          (\<lambda>n. Inr (n # x # xs, True))
      else if keycmp e key (kvs_key x) = 0 then
        res_bind (values_insert e x v) (\<lambda>y. Inr (y # xs, False))
      else res_bind (list_ins e key v keylen hash xs) (\<lambda>(ys, b). Inr (x # ys, b)))"

fun list_ins_kvs :: "('k, 'v) env \<Rightarrow> ('k, 'v) keyvals \<Rightarrow> ('k, 'v) keyvals list
    \<Rightarrow> ('k, 'v) keyvals list res" where
  "list_ins_kvs e k [] = Inr [k]"
| "list_ins_kvs e k (x # xs) =
     (if keyvals_cmp e k x < 0 then Inr (k # x # xs)
      else if keyvals_cmp e k x = 0 then Inl Assert_failed
      else res_bind (list_ins_kvs e k xs) (\<lambda>ys. Inr (x # ys)))"

text \<open>Where the key splits the list, the scan inserts there; at a hit it updates there.\<close>

lemma list_ins_miss:
  assumes "\<forall>x \<in> set xs. 0 < keycmp e key (kvs_key x)" "\<forall>y \<in> set ys. keycmp e key (kvs_key y) < 0"
  shows "list_ins e key v keylen hash (xs @ ys) =
    res_bind (values_insert e (fresh_kvs (copy_key e key keylen) hash) v) (\<lambda>n. Inr (xs @ n # ys, True))"
  using assms
proof (induction xs)
  case Nil
  then show ?case by (cases ys) auto
next
  case (Cons x xs)
  then show ?case
    by (cases "values_insert e (fresh_kvs (copy_key e key keylen) hash) v") auto
qed

lemma list_ins_hit:
  assumes "\<forall>x \<in> set xs. 0 < keycmp e key (kvs_key x)" "keycmp e key (kvs_key y) = 0"
  shows "list_ins e key v keylen hash (xs @ y # ys) =
    res_bind (values_insert e y v) (\<lambda>n. Inr (xs @ n # ys, False))"
  using assms
proof (induction xs)
  case (Cons x xs)
  then show ?case by (cases "values_insert e y v") auto
qed simp

lemma list_ins_kvs_miss:
  assumes "\<forall>x \<in> set xs. 0 < keyvals_cmp e k x" "\<forall>y \<in> set ys. keyvals_cmp e k y < 0"
  shows "list_ins_kvs e k (xs @ ys) = Inr (xs @ k # ys)"
  using assms
proof (induction xs)
  case Nil
  then show ?case by (cases ys) auto
qed auto

lemma list_ins_kvs_hit:
  assumes "\<forall>x \<in> set xs. 0 < keyvals_cmp e k x" "keyvals_cmp e k y = 0"
  shows "list_ins_kvs e k (xs @ y # ys) = Inl Assert_failed"
  using assms by (induction xs) auto

lemma values_insert_key:
  "values_insert e kvs v = Inr kvs' \<Longrightarrow> kvs_key kvs' = kvs_key kvs \<and> kvs_hash kvs' = kvs_hash kvs"
  by (auto simp: values_insert_def kvs_put_def run_combiner_def Let_def
      split: option.splits if_splits vals_ptr.splits prod.splits)

context mr_env
begin

lemma keyvals_comparator: "comparator (keyvals_cmp e)"
  unfolding keyvals_cmp_def by (rule comparator_on [OF keycmp_comparator])

text \<open>The scan keeps the list strictly sorted, and adds no key but the one inserted.\<close>

lemma list_ins_strict:
  assumes "list_ins e key v keylen hash xs = Inr (ys, b)" "cstrict (keyvals_cmp e) xs"
    and copy: "keycopy_ok e key keylen"
  shows "cstrict (keyvals_cmp e) ys \<and>
    (\<forall>y \<in> set ys. (\<exists>x \<in> set xs. kvs_key y = kvs_key x) \<or> keycmp e (kvs_key y) key = 0)"
  using assms(1,2)
proof (induction xs arbitrary: ys b)
  case Nil
  then show ?case by (auto simp: copy_key_cmp [OF copy] dest: values_insert_key)
next
  case (Cons x xs)
  consider (lt) "keycmp e key (kvs_key x) < 0" | (eq) "keycmp e key (kvs_key x) = 0"
    | (gr) "0 < keycmp e key (kvs_key x)" by linarith
  then show ?case
  proof cases
    case lt
    have "keycmp e key (kvs_key y) < 0" if "y \<in> set xs" for y
      using kc.cmp_less_trans [OF lt] Cons.prems(2) that by (auto simp: keyvals_cmp_def)
    with lt Cons.prems show ?thesis
      by (auto simp: keyvals_cmp_def copy_key_cmp [OF copy] copy_key_cmp_left [OF copy] dest!: values_insert_key)
  next
    case eq
    with Cons.prems show ?thesis by (auto simp: keyvals_cmp_def dest!: values_insert_key)
  next
    case gr
    then have "\<not> keycmp e key (kvs_key x) < 0" "keycmp e key (kvs_key x) \<noteq> 0" by auto
    with Cons.prems(1) obtain zs where zs: "list_ins e key v keylen hash xs = Inr (zs, b)" "ys = x # zs"
      by auto
    from Cons.IH [OF zs(1)] Cons.prems(2) have
      IH: "cstrict (keyvals_cmp e) zs"
        "\<forall>y \<in> set zs. (\<exists>x \<in> set xs. kvs_key y = kvs_key x) \<or> keycmp e (kvs_key y) key = 0"
      by auto
    have "keyvals_cmp e x y < 0" if "y \<in> set zs" for y
    proof -
      from IH(2) that consider x' where "x' \<in> set xs" "kvs_key y = kvs_key x'"
        | "keycmp e (kvs_key y) key = 0" by blast
      then show ?thesis
      proof cases
        case 1
        with Cons.prems(2) show ?thesis by (auto simp: keyvals_cmp_def)
      next
        case 2
        then show ?thesis
          using gr kc.cmp_less_le_trans [of "kvs_key x" key "kvs_key y"]
            kc.cmp_sym' [of key "kvs_key x"] kc.cmp_eq_sym [of "kvs_key y" key]
          by (simp add: keyvals_cmp_def)
      qed
    qed
    with IH zs(2) show ?thesis by auto
  qed
qed

lemma list_ins_kvs_strict:
  assumes "list_ins_kvs e k xs = Inr ys" "cstrict (keyvals_cmp e) xs"
  shows "cstrict (keyvals_cmp e) ys \<and> set ys = insert k (set xs)"
  using assms
proof (induction xs arbitrary: ys)
  case (Cons x xs)
  have t: "keyvals_cmp e k x < 0 \<Longrightarrow> keyvals_cmp e x y < 0 \<Longrightarrow> keyvals_cmp e k y < 0" for y
    by (rule comparator.cmp_less_trans [OF keyvals_comparator])
  have g: "0 < keyvals_cmp e k x \<Longrightarrow> keyvals_cmp e x k < 0"
    by (simp add: comparator.cmp_sym' [OF keyvals_comparator])
  from Cons t g show ?case by (auto split: if_splits)
qed auto

end

section \<open>The contract of a grouped collection\<close>

text \<open>
  \<open>elems c\<close> are the stored \<^verbatim>\<open>keyvals_t\<close> in order, \<open>rest c i\<close> those an iterator
  has still to deliver. Insertion agrees with the linear scan as long as the collection has fewer
  than \<open>2 ^ 31\<close> keys; iteration delivers the elements once each, in order, whether or not the
  delivered slots are cleared.
\<close>

locale kvs_coll =
  fixes e :: "('k, 'v) env"
    and init :: 'c
    and ins :: "'c \<Rightarrow> 'k \<Rightarrow> 'v \<Rightarrow> nat \<Rightarrow> nat \<Rightarrow> ('c \<times> bool) res"
    and ins_kvs :: "'c \<Rightarrow> ('k, 'v) keyvals \<Rightarrow> 'c res"
    and len :: "'c \<Rightarrow> nat"
    and it_begin :: "'c \<Rightarrow> 'i option res"
    and it_next :: "'c \<Rightarrow> 'i \<Rightarrow> bool \<Rightarrow> (('k, 'v) keyvals \<times> 'c \<times> 'i) option res"
    and inv :: "'c \<Rightarrow> bool"
    and elems :: "'c \<Rightarrow> ('k, 'v) keyvals list"
    and it_ok :: "'c \<Rightarrow> 'i \<Rightarrow> bool"
    and rest :: "'c \<Rightarrow> 'i \<Rightarrow> ('k, 'v) keyvals list"
  assumes inv_init: "inv init"
    and elems_init: "elems init = []"
    and inv_sorted: "inv c \<Longrightarrow> cstrict (keyvals_cmp e) (elems c)"
    and len_elems: "inv c \<Longrightarrow> len c = length (elems c)"
    and ins_elems: "inv c \<Longrightarrow> length (elems c) < 2 ^ 31 \<Longrightarrow> keycopy_ok e key keylen \<Longrightarrow>
          list_ins e key v keylen hash (elems c) = Inr (xs, b) \<Longrightarrow>
          succeeds (ins c key v keylen hash) (\<lambda>(c', b'). inv c' \<and> elems c' = xs \<and> b' = b)"
    and ins_kvs_elems: "inv c \<Longrightarrow> length (elems c) < 2 ^ 31 \<Longrightarrow>
          list_ins_kvs e k (elems c) = Inr xs \<Longrightarrow>
          succeeds (ins_kvs c k) (\<lambda>c'. inv c' \<and> elems c' = xs)"
    and begin_elems: "inv c \<Longrightarrow> succeeds (it_begin c)
          (\<lambda>r. case r of None \<Rightarrow> elems c = [] | Some i \<Rightarrow> it_ok c i \<and> rest c i = elems c)"
    and next_nil: "it_ok c i \<Longrightarrow> rest c i = [] \<Longrightarrow> it_next c i b = Inr None"
    and next_cons: "it_ok c i \<Longrightarrow> rest c i = x # xs \<Longrightarrow>
          succeeds (it_next c i b)
            (\<lambda>r. case r of None \<Rightarrow> False | Some (y, c', i') \<Rightarrow> y = x \<and> it_ok c' i' \<and> rest c' i' = xs)"

section \<open>Groups\<close>

type_synonym ('k, 'v) group = "'k \<times> nat \<times> 'v list"

text \<open>The abstract insertion: a pair joins the group of its key, or starts one in key order.\<close>

fun grp_insert :: "('k \<Rightarrow> 'k \<Rightarrow> int) \<Rightarrow> ('k \<Rightarrow> 'k) \<Rightarrow> 'k \<Rightarrow> nat \<Rightarrow> 'v
    \<Rightarrow> ('k, 'v) group list \<Rightarrow> ('k, 'v) group list" where
  "grp_insert cmp cp k h v [] = [(cp k, h, [v])]"
| "grp_insert cmp cp k h v ((k', h', vs) # g) =
     (if cmp k k' < 0 then (cp k, h, [v]) # (k', h', vs) # g
      else if cmp k k' = 0 then (k', h', vs @ [v]) # g
      else (k', h', vs) # grp_insert cmp cp k h v g)"

text \<open>How a stored \<^verbatim>\<open>keyvals_t\<close> represents a group, up to the summary \<open>M\<close>.\<close>

definition grp_of :: "('k, 'v) env \<Rightarrow> ('v list \<Rightarrow> 'm) \<Rightarrow> ('k, 'v) keyvals \<Rightarrow> ('k, 'v) group \<Rightarrow> bool" where
  "grp_of e M kvs g \<longleftrightarrow>
     (case g of (k, h, vs) \<Rightarrow> kvs_key kvs = k \<and> kvs_hash kvs = h \<and> kvs_ok e kvs \<and>
        0 < kvs_len kvs \<and> kvs_len kvs \<le> length vs \<and> M (kvs_content kvs) = M vs)"

definition grps_of :: "('k, 'v) env \<Rightarrow> ('v list \<Rightarrow> 'm) \<Rightarrow> ('k, 'v) keyvals list \<Rightarrow> ('k, 'v) group list \<Rightarrow> bool" where
  "grps_of e M xs gs \<longleftrightarrow> list_all2 (grp_of e M) xs gs"

lemma grps_of_simps [simp]:
  "grps_of e M [] gs \<longleftrightarrow> gs = []"
  "grps_of e M xs [] \<longleftrightarrow> xs = []"
  "grps_of e M (x # xs) (g # gs) \<longleftrightarrow> grp_of e M x g \<and> grps_of e M xs gs"
  by (auto simp: grps_of_def)

lemma grps_of_Cons: "grps_of e M (x # xs) gs \<longleftrightarrow> (\<exists>g gs'. gs = g # gs' \<and> grp_of e M x g \<and> grps_of e M xs gs')"
  by (auto simp: grps_of_def list_all2_Cons1)

definition grp_size :: "('k, 'v) group list \<Rightarrow> nat" where
  "grp_size gs = sum_list (map (\<lambda>(k, h, vs). length vs) gs)"

lemma grp_size_simps [simp]:
  "grp_size [] = 0"
  "grp_size ((k, h, vs) # gs) = length vs + grp_size gs"
  by (simp_all add: grp_size_def)

lemma grp_size_insert: "grp_size (grp_insert cmp cp k h v gs) = grp_size gs + 1"
  by (induction cmp cp k h v gs rule: grp_insert.induct) auto

lemma grps_of_length: "grps_of e M xs gs \<Longrightarrow> length xs = length gs \<and> length gs \<le> grp_size gs"
proof (induction xs arbitrary: gs)
  case (Cons x xs)
  then obtain k h vs gs' where "gs = (k, h, vs) # gs'" "grp_of e M x (k, h, vs)" "grps_of e M xs gs'"
    by (auto simp: grps_of_Cons)
  with Cons.IH [of gs'] show ?case by (auto simp: grp_of_def)
qed simp

context value_summary
begin

lemma grp_of_fresh:
  "succeeds (values_insert e (fresh_kvs k h) v) (\<lambda>n. grp_of e M n (k, h, [v]))"
  by (rule succeeds_mono [OF values_insert_ok]) (auto simp: grp_of_def)

lemma grp_of_more:
  assumes "grp_of e M x (k, h, vs)" "length vs < 2 ^ 31"
  shows "succeeds (values_insert e x v) (\<lambda>n. grp_of e M n (k, h, vs @ [v]))"
proof (rule succeeds_mono [OF values_insert_ok])
  show "kvs_ok e x" "kvs_len x < 2 ^ 31" using assms by (auto simp: grp_of_def)
  fix n assume "kvs_ok e n \<and> kvs_key n = kvs_key x \<and> kvs_hash n = kvs_hash x \<and> 0 < kvs_len n \<and>
    kvs_len n \<le> kvs_len x + 1 \<and> M (kvs_content n) = M (kvs_content x @ [v])"
  with assms show "grp_of e M n (k, h, vs @ [v])"
    using M_append [of "kvs_content x" vs "[v]" "[v]"] by (auto simp: grp_of_def)
qed

text \<open>The linear scan implements the abstract insertion.\<close>

lemma list_ins_groups:
  assumes "grps_of e M xs gs" "grp_size gs < 2 ^ 31"
  shows "succeeds (list_ins e key v keylen hash xs) (\<lambda>(ys, b).
    grps_of e M ys (grp_insert (keycmp e) (\<lambda>k. copy_key e k keylen) key hash v gs))"
  using assms
proof (induction xs arbitrary: gs)
  case Nil
  then show ?case by (auto intro: succeeds_mono [OF grp_of_fresh])
next
  case (Cons x xs)
  then obtain k h vs gs' where gs: "gs = (k, h, vs) # gs'" "grp_of e M x (k, h, vs)" "grps_of e M xs gs'"
    by (auto simp: grps_of_Cons)
  then have key: "kvs_key x = k" by (simp add: grp_of_def)
  have "succeeds (list_ins e key v keylen hash xs) (\<lambda>(ys, b).
      grps_of e M ys (grp_insert (keycmp e) (\<lambda>k. copy_key e k keylen) key hash v gs'))"
    using Cons gs by auto
  then show ?case
    using gs key Cons.prems(2) succeeds_mono [OF grp_of_more [OF gs(2)]]
    by (auto intro: succeeds_mono [OF grp_of_fresh] succeeds_mono [OF grp_of_more [OF gs(2)]]
        elim!: succeeds_mono)
qed

end

end
