(* ===== verification/Bsearch.thy ===== *)
theory Bsearch
  imports Metis_Prelude
begin

text \<open>
  Binary search over a segment of an array (\<^verbatim>\<open>metis/lib/bsearch.c\<close>). The C functions take
  a base pointer and address \<^verbatim>\<open>ELEM(i)\<close> relative to it; the base may point into the middle
  of a larger array (\<^verbatim>\<open>psrs.c\<close> calls it that way), so the model takes the array and the
  offset of the base, and an \<^verbatim>\<open>ELEM\<close> outside the array is a fault.
\<close>

section \<open>The searches\<close>

function lar_loop :: "('a \<Rightarrow> 'a \<Rightarrow> int) \<Rightarrow> 'a \<Rightarrow> 'a list \<Rightarrow> int \<Rightarrow> int \<Rightarrow> int \<Rightarrow> int res" where
  "lar_loop cmp key arr off left right =
     (if left < right then
        let mid = (left + right) div 2 in
        res_bind (rd arr (off + mid)) (\<lambda>e.
          if 0 \<le> cmp key e then lar_loop cmp key arr off (mid + 1) right
          else lar_loop cmp key arr off left (mid - 1))
      else Inr left)"
  by pat_completeness auto
termination
  by (relation "measure (\<lambda>(cmp, key, arr, off, left, right). nat (right - left))") auto

definition bsearch_lar :: "('a \<Rightarrow> 'a \<Rightarrow> int) \<Rightarrow> 'a \<Rightarrow> 'a list \<Rightarrow> int \<Rightarrow> int \<Rightarrow> int res" where
  "bsearch_lar cmp key arr off nelems =
     (if nelems = 0 then Inr 0 else
      res_bind (rd arr (off + (nelems - 1))) (\<lambda>e.
      if 0 \<le> cmp key e then Inr nelems else
      if nelems = 1 then Inr 0 else
      if nelems = 2 then
        res_bind (rd arr off) (\<lambda>e0. Inr (if cmp key e0 < 0 then 0 else 1))
      else
        res_bind (lar_loop cmp key arr off 0 (nelems - 2)) (\<lambda>left.
        res_bind (rd arr (off + left)) (\<lambda>e.
        Inr (if 0 \<le> cmp key e then left + 1 else left)))))"

function eq_loop :: "('a \<Rightarrow> 'a \<Rightarrow> int) \<Rightarrow> 'a \<Rightarrow> 'a list \<Rightarrow> int \<Rightarrow> int \<Rightarrow> int \<Rightarrow> (int \<times> bool) res" where
  "eq_loop cmp key arr off left right =
     (if left < right then
        let mid = (left + right) div 2 in
        res_bind (rd arr (off + mid)) (\<lambda>e.
          if cmp key e = 0 then Inr (mid, True)
          else if cmp key e < 0 then eq_loop cmp key arr off left (mid - 1)
          else eq_loop cmp key arr off (mid + 1) right)
      else
        res_bind (rd arr (off + left)) (\<lambda>e.
          if cmp key e = 0 then Inr (left, True)
          else if 0 < cmp key e then Inr (left + 1, False)
          else Inr (left, False)))"
  by pat_completeness auto
termination
  by (relation "measure (\<lambda>(cmp, key, arr, off, left, right). nat (right - left))") auto

text \<open>The result is the returned position together with the flag stored in \<^verbatim>\<open>*bfound\<close>.\<close>

definition bsearch_eq :: "('a \<Rightarrow> 'a \<Rightarrow> int) \<Rightarrow> 'a \<Rightarrow> 'a list \<Rightarrow> int \<Rightarrow> int \<Rightarrow> (int \<times> bool) res" where
  "bsearch_eq cmp key arr off nelems =
     (if nelems = 0 then Inr (0, False) else
      res_bind (rd arr (off + (nelems - 1))) (\<lambda>e.
      if cmp key e = 0 then Inr (nelems - 1, True) else
      if 0 < cmp key e then Inr (nelems, False) else
      if nelems = 1 then Inr (0, False) else
      if nelems = 2 then
        res_bind (rd arr off) (\<lambda>e0.
          if cmp key e0 = 0 then Inr (0, True)
          else if cmp key e0 < 0 then Inr (0, False)
          else Inr (1, False))
      else eq_loop cmp key arr off 0 (nelems - 2)))"

declare lar_loop.simps [simp del] eq_loop.simps [simp del]

section \<open>Correctness\<close>

text \<open>The segment of an array that a search works on, and an array read through the base.\<close>

definition seg :: "'a list \<Rightarrow> int \<Rightarrow> int \<Rightarrow> 'a list" where
  "seg arr off n = take (nat n) (drop (nat off) arr)"

lemma length_seg [simp]:
  "0 \<le> off \<Longrightarrow> off + n \<le> int (length arr) \<Longrightarrow> length (seg arr off n) = nat n"
  by (auto simp: seg_def min_def)

lemma rd_seg:
  assumes "0 \<le> off" "off + n \<le> int (length arr)" "0 \<le> i" "i < n"
  shows "rd arr (off + i) = Inr (seg arr off n ! nat i)"
  using assms by (simp add: seg_def nth_drop nat_add_distrib)

lemma seg_whole: "seg xs 0 (int (length xs)) = xs"
  by (simp add: seg_def)

text \<open>
  What the searches promise about a sorted list: \<^verbatim>\<open>bsearch_lar\<close> the position of the
  first element greater than the key, \<^verbatim>\<open>bsearch_eq\<close> a position that compares equal to
  the key or, if there is none, the position that splits the list at the key.
\<close>

definition lar_post :: "('a \<Rightarrow> 'a \<Rightarrow> int) \<Rightarrow> 'a list \<Rightarrow> 'a \<Rightarrow> int \<Rightarrow> bool" where
  "lar_post cmp xs key r \<longleftrightarrow> 0 \<le> r \<and> r \<le> int (length xs) \<and>
     (\<forall>i. 0 \<le> i \<and> i < r \<longrightarrow> 0 \<le> cmp key (xs ! nat i)) \<and>
     (\<forall>i. r \<le> i \<and> i < int (length xs) \<longrightarrow> cmp key (xs ! nat i) < 0)"

definition search_post :: "('a \<Rightarrow> 'a \<Rightarrow> int) \<Rightarrow> 'a list \<Rightarrow> 'a \<Rightarrow> int \<Rightarrow> bool \<Rightarrow> bool" where
  "search_post cmp xs key p b \<longleftrightarrow>
     (if b then 0 \<le> p \<and> p < int (length xs) \<and> cmp key (xs ! nat p) = 0
      else 0 \<le> p \<and> p \<le> int (length xs) \<and>
           (\<forall>i. 0 \<le> i \<and> i < p \<longrightarrow> 0 < cmp key (xs ! nat i)) \<and>
           (\<forall>i. p \<le> i \<and> i < int (length xs) \<longrightarrow> cmp key (xs ! nat i) < 0))"

lemma lar_postI:
  assumes "0 \<le> r" "r \<le> int (length xs)"
    and "\<And>i. 0 \<le> i \<Longrightarrow> i < r \<Longrightarrow> 0 \<le> cmp key (xs ! nat i)"
    and "\<And>i. r \<le> i \<Longrightarrow> i < int (length xs) \<Longrightarrow> cmp key (xs ! nat i) < 0"
  shows "lar_post cmp xs key r"
  using assms by (simp add: lar_post_def)

lemma search_post_hit:
  "0 \<le> p \<Longrightarrow> p < int (length xs) \<Longrightarrow> cmp key (xs ! nat p) = 0 \<Longrightarrow> search_post cmp xs key p True"
  by (simp add: search_post_def)

lemma search_post_miss:
  assumes "0 \<le> p" "p \<le> int (length xs)"
    and "\<And>i. 0 \<le> i \<Longrightarrow> i < p \<Longrightarrow> 0 < cmp key (xs ! nat i)"
    and "\<And>i. p \<le> i \<Longrightarrow> i < int (length xs) \<Longrightarrow> cmp key (xs ! nat i) < 0"
  shows "search_post cmp xs key p False"
  using assms by (simp add: search_post_def)

lemma int_upto_1: "0 \<le> (i::int) \<Longrightarrow> i < 1 \<Longrightarrow> i = 0"
  by simp

lemma int_from_1: "1 \<le> (i::int) \<Longrightarrow> i < 2 \<Longrightarrow> i = 1"
  by simp

lemma int_upto_2: "0 \<le> (i::int) \<Longrightarrow> i < 2 \<Longrightarrow> i = 0 \<or> i = 1"
  by linarith

context comparator
begin

text \<open>In a sorted list the elements not above the key form a prefix, those not below it a suffix.\<close>

lemma key_ge_prefix:
  assumes "csorted cmp xs" "j < length xs" "i \<le> j" "0 \<le> cmp key (xs ! j)"
  shows "0 \<le> cmp key (xs ! i)"
proof (cases "i = j")
  case False
  with assms have "cmp (xs ! i) (xs ! j) \<le> 0" by (simp add: csorted_nth)
  then show ?thesis using assms(4) cmp_ge_trans cmp_le_ge by blast
qed (use assms in simp)

lemma key_gr_prefix:
  assumes "csorted cmp xs" "j < length xs" "i \<le> j" "0 < cmp key (xs ! j)"
  shows "0 < cmp key (xs ! i)"
proof (cases "i = j")
  case False
  with assms have "cmp (xs ! i) (xs ! j) \<le> 0" by (simp add: csorted_nth)
  then show ?thesis using assms(4) cmp_le_less_trans cmp_sym' by blast
qed (use assms in simp)

lemma key_less_suffix:
  assumes "csorted cmp xs" "j < length xs" "i \<le> j" "cmp key (xs ! i) < 0"
  shows "cmp key (xs ! j) < 0"
proof (cases "i = j")
  case False
  with assms have "cmp (xs ! i) (xs ! j) \<le> 0" by (simp add: csorted_nth)
  then show ?thesis using assms(4) cmp_less_le_trans by blast
qed (use assms in simp)

text \<open>
  The loop narrows \<open>[left, right]\<close>: everything before \<open>left\<close> is not above the key and
  everything after \<open>right\<close> is above it.
\<close>

lemma lar_loop_correct:
  assumes "0 \<le> off" "off + n \<le> int (length arr)" "csorted cmp (seg arr off n)"
    and "0 \<le> left" "left < n" "right < n" "left \<le> right + 1"
    and "\<And>i. 0 \<le> i \<Longrightarrow> i < left \<Longrightarrow> 0 \<le> cmp key (seg arr off n ! nat i)"
    and "\<And>i. right < i \<Longrightarrow> 0 \<le> i \<Longrightarrow> i < n \<Longrightarrow> cmp key (seg arr off n ! nat i) < 0"
  shows "\<exists>l. lar_loop cmp key arr off left right = Inr l \<and> 0 \<le> l \<and> l < n \<and>
           (\<forall>i. 0 \<le> i \<and> i < l \<longrightarrow> 0 \<le> cmp key (seg arr off n ! nat i)) \<and>
           (\<forall>i. l < i \<and> i < n \<longrightarrow> cmp key (seg arr off n ! nat i) < 0)"
  using assms(4-9)
proof (induction "nat (right - left)" arbitrary: left right rule: less_induct)
  case less
  let ?s = "seg arr off n"
  have len: "length ?s = nat n" using assms(1,2) by simp
  show ?case
  proof (cases "left < right")
    case False
    with less.prems show ?thesis by (auto simp: lar_loop.simps [of _ _ _ _ left right])
  next
    case True
    define mid where "mid = (left + right) div 2"
    have mid: "left \<le> mid" "mid < right" using True by (auto simp: mid_def)
    have unf: "lar_loop cmp key arr off left right =
        (if 0 \<le> cmp key (?s ! nat mid) then lar_loop cmp key arr off (mid + 1) right
         else lar_loop cmp key arr off left (mid - 1))"
      using True mid less.prems rd_seg [OF assms(1,2), of mid]
      by (simp add: lar_loop.simps [of _ _ _ _ left right] Let_def mid_def)
    show ?thesis
    proof (cases "0 \<le> cmp key (?s ! nat mid)")
      case ge: True
      have "0 \<le> cmp key (?s ! nat i)" if "0 \<le> i" "i < mid + 1" for i
        by (rule key_ge_prefix [OF assms(3) _ _ ge]) (use that mid less.prems len in auto)
      with less.hyps [of right "mid + 1"] less.prems mid show ?thesis
        unfolding unf using ge by simp
    next
      case lt: False
      have "cmp key (?s ! nat i) < 0" if "mid - 1 < i" "i < n" for i
        by (rule key_less_suffix [OF assms(3), where i = "nat mid"])
          (use that mid lt less.prems len in auto)
      with less.hyps [of "mid - 1" left] less.prems mid show ?thesis
        unfolding unf using lt by simp
    qed
  qed
qed

lemma bsearch_lar_correct:
  assumes "0 \<le> off" "0 \<le> n" "off + n \<le> int (length arr)" "csorted cmp (seg arr off n)"
  shows "\<exists>r. bsearch_lar cmp key arr off n = Inr r \<and> lar_post cmp (seg arr off n) key r"
proof -
  let ?s = "seg arr off n"
  have len: "length ?s = nat n" using assms by simp
  note rd = rd_seg [OF assms(1,3)]
  consider (empty) "n = 0" | (above) "0 < n" "0 \<le> cmp key (?s ! nat (n - 1))"
    | (below) "0 < n" "cmp key (?s ! nat (n - 1)) < 0"
    using assms(2) by linarith
  then show ?thesis
  proof cases
    case empty
    then show ?thesis by (auto simp: bsearch_lar_def lar_post_def seg_def)
  next
    case above
    have "0 \<le> cmp key (?s ! nat i)" if "0 \<le> i" "i < n" for i
      by (rule key_ge_prefix [OF assms(4) _ _ above(2)]) (use that len in auto)
    then have "lar_post cmp ?s key n" using above len by (intro lar_postI) auto
    with above rd [of "n - 1"] show ?thesis by (simp add: bsearch_lar_def)
  next
    case below
    note last = rd [of "n - 1"]
    consider "n = 1" | "n = 2" | "2 < n" using below by linarith
    then show ?thesis
    proof cases
      case 1
      then have "lar_post cmp ?s key 0"
        using below len by (intro lar_postI) (auto dest: int_upto_1)
      with 1 below last show ?thesis by (simp add: bsearch_lar_def)
    next
      case 2
      have "lar_post cmp ?s key (if cmp key (?s ! 0) < 0 then 0 else 1)"
        using 2 below len by (intro lar_postI) (auto dest: int_upto_1 int_from_1 int_upto_2 split: if_splits)
      with 2 below last rd [of 0] show ?thesis by (simp add: bsearch_lar_def)
    next
      case 3
      have "\<exists>l. lar_loop cmp key arr off 0 (n - 2) = Inr l \<and> 0 \<le> l \<and> l < n \<and>
           (\<forall>i. 0 \<le> i \<and> i < l \<longrightarrow> 0 \<le> cmp key (?s ! nat i)) \<and>
           (\<forall>i. l < i \<and> i < n \<longrightarrow> cmp key (?s ! nat i) < 0)"
      proof (rule lar_loop_correct [OF assms(1,3,4)])
        fix i assume "n - 2 < i" "0 \<le> i" "i < n"
        then have "i = n - 1" by simp
        with below show "cmp key (?s ! nat i) < 0" by simp
      qed (use 3 in auto)
      then obtain l where l: "lar_loop cmp key arr off 0 (n - 2) = Inr l" "0 \<le> l" "l < n"
        "\<And>i. 0 \<le> i \<Longrightarrow> i < l \<Longrightarrow> 0 \<le> cmp key (?s ! nat i)"
        "\<And>i. l < i \<Longrightarrow> i < n \<Longrightarrow> cmp key (?s ! nat i) < 0"
        by blast
      let ?r = "if 0 \<le> cmp key (?s ! nat l) then l + 1 else l"
      have "lar_post cmp ?s key ?r"
      proof (rule lar_postI)
        fix i assume i: "0 \<le> i" "i < ?r"
        then show "0 \<le> cmp key (?s ! nat i)"
          using l(4) [of i] by (cases "i = l") (auto split: if_splits)
      next
        fix i assume i: "?r \<le> i" "i < int (length ?s)"
        then show "cmp key (?s ! nat i) < 0"
          using l(2,3) l(5) [of i] len by (cases "i = l") (auto split: if_splits)
      qed (use l(2,3) len in auto)
      moreover have "bsearch_lar cmp key arr off n = Inr ?r"
        using below 3 last rd [of l] l(1-3) by (simp add: bsearch_lar_def)
      ultimately show ?thesis by simp
    qed
  qed
qed

lemma eq_loop_correct:
  assumes "0 \<le> off" "off + n \<le> int (length arr)" "csorted cmp (seg arr off n)"
    and "0 \<le> left" "left < n" "right < n" "left \<le> right + 1"
    and "\<And>i. 0 \<le> i \<Longrightarrow> i < left \<Longrightarrow> 0 < cmp key (seg arr off n ! nat i)"
    and "\<And>i. right < i \<Longrightarrow> 0 \<le> i \<Longrightarrow> i < n \<Longrightarrow> cmp key (seg arr off n ! nat i) < 0"
  shows "\<exists>p b. eq_loop cmp key arr off left right = Inr (p, b) \<and>
           search_post cmp (seg arr off n) key p b"
  using assms(4-9)
proof (induction "nat (right - left)" arbitrary: left right rule: less_induct)
  case less
  let ?s = "seg arr off n"
  have len: "length ?s = nat n" using assms(1,2) by simp
  note rd = rd_seg [OF assms(1,2)]
  show ?case
  proof (cases "left < right")
    case False
    have eq: "eq_loop cmp key arr off left right =
        (if cmp key (?s ! nat left) = 0 then Inr (left, True)
         else if 0 < cmp key (?s ! nat left) then Inr (left + 1, False)
         else Inr (left, False))"
      using False less.prems rd [of left] by (simp add: eq_loop.simps [of _ _ _ _ left right])
    consider (hit) "cmp key (?s ! nat left) = 0" | (lt) "cmp key (?s ! nat left) < 0"
      | (gr) "0 < cmp key (?s ! nat left)" by linarith
    then show ?thesis
    proof cases
      case hit
      then have "search_post cmp ?s key left True"
        using less.prems(1,2) len by (intro search_post_hit) simp_all
      then show ?thesis unfolding eq using hit by (simp add: ex_bool_eq)
    next
      case lt
      have "search_post cmp ?s key left False"
      proof (rule search_post_miss)
        fix i assume "left \<le> i" "i < int (length ?s)"
        then show "cmp key (?s ! nat i) < 0"
          using lt False less.prems(1,2) less.prems(6) [of i] len by (cases "i = left") auto
      qed (use less.prems(1,2,5) len in auto)
      then show ?thesis unfolding eq using lt by (simp add: ex_bool_eq)
    next
      case gr
      have "search_post cmp ?s key (left + 1) False"
      proof (rule search_post_miss)
        fix i assume "left + 1 \<le> i" "i < int (length ?s)"
        then show "cmp key (?s ! nat i) < 0"
          using False less.prems(1,2) less.prems(6) [of i] len by auto
      next
        fix i assume "0 \<le> i" "i < left + 1"
        then show "0 < cmp key (?s ! nat i)"
          using gr less.prems(5) [of i] by (cases "i = left") auto
      qed (use less.prems(1,2) len in auto)
      then show ?thesis unfolding eq using gr by (simp add: ex_bool_eq)
    qed
  next
    case True
    define mid where "mid = (left + right) div 2"
    have mid: "left \<le> mid" "mid < right" using True by (auto simp: mid_def)
    have unf: "eq_loop cmp key arr off left right =
        (if cmp key (?s ! nat mid) = 0 then Inr (mid, True)
         else if cmp key (?s ! nat mid) < 0 then eq_loop cmp key arr off left (mid - 1)
         else eq_loop cmp key arr off (mid + 1) right)"
      using True mid less.prems rd [of mid]
      by (simp add: eq_loop.simps [of _ _ _ _ left right] Let_def mid_def)
    consider (eq) "cmp key (?s ! nat mid) = 0" | (lt) "cmp key (?s ! nat mid) < 0"
      | (gr) "0 < cmp key (?s ! nat mid)" by linarith
    then show ?thesis
    proof cases
      case eq
      with less.prems mid len show ?thesis unfolding unf by (auto simp: search_post_def)
    next
      case lt
      have "cmp key (?s ! nat i) < 0" if "mid - 1 < i" "i < n" for i
        by (rule key_less_suffix [OF assms(3), where i = "nat mid"])
          (use that mid lt less.prems len in auto)
      moreover have "eq_loop cmp key arr off left right = eq_loop cmp key arr off left (mid - 1)"
        unfolding unf using lt by simp
      ultimately show ?thesis using less.hyps [of "mid - 1" left] less.prems mid by simp
    next
      case gr
      have "0 < cmp key (?s ! nat i)" if "0 \<le> i" "i < mid + 1" for i
        by (rule key_gr_prefix [OF assms(3) _ _ gr]) (use that mid less.prems len in auto)
      moreover have "eq_loop cmp key arr off left right = eq_loop cmp key arr off (mid + 1) right"
        unfolding unf using gr by simp
      ultimately show ?thesis using less.hyps [of right "mid + 1"] less.prems mid by simp
    qed
  qed
qed

lemma bsearch_eq_correct:
  assumes "0 \<le> off" "0 \<le> n" "off + n \<le> int (length arr)" "csorted cmp (seg arr off n)"
  shows "\<exists>p b. bsearch_eq cmp key arr off n = Inr (p, b) \<and> search_post cmp (seg arr off n) key p b"
proof -
  let ?s = "seg arr off n"
  have len: "length ?s = nat n" using assms by simp
  note rd = rd_seg [OF assms(1,3)]
  consider (empty) "n = 0" | (here) "0 < n" "cmp key (?s ! nat (n - 1)) = 0"
    | (above) "0 < n" "0 < cmp key (?s ! nat (n - 1))"
    | (below) "0 < n" "cmp key (?s ! nat (n - 1)) < 0"
    using assms(2) by linarith
  then show ?thesis
  proof cases
    case empty
    then show ?thesis using len by (auto simp: bsearch_eq_def search_post_def)
  next
    case here
    then show ?thesis using len rd [of "n - 1"] by (auto simp: bsearch_eq_def search_post_def)
  next
    case above
    have "0 < cmp key (?s ! nat i)" if "0 \<le> i" "i < n" for i
      by (rule key_gr_prefix [OF assms(4) _ _ above(2)]) (use that len in auto)
    with above rd [of "n - 1"] len show ?thesis by (auto simp: bsearch_eq_def search_post_def)
  next
    case below
    note last = rd [of "n - 1"]
    consider "n = 1" | "n = 2" | "2 < n" using below by linarith
    then show ?thesis
    proof cases
      case 1
      have "i = 0" if "0 \<le> i" "i < 1" for i :: int using that by linarith
      with 1 below last len show ?thesis by (auto simp: bsearch_eq_def search_post_def)
    next
      case 2
      have "search_post cmp ?s key (if 0 < cmp key (?s ! 0) then 1 else 0) (cmp key (?s ! 0) = 0)"
        using 2 below len unfolding search_post_def
        by (auto dest: int_upto_1 int_from_1 int_upto_2 split: if_splits)
      with 2 below last rd [of 0] show ?thesis
        by (cases "cmp key (?s ! 0) = 0") (simp_all add: bsearch_eq_def ex_bool_eq split: if_splits)
    next
      case 3
      have "\<exists>p b. eq_loop cmp key arr off 0 (n - 2) = Inr (p, b) \<and> search_post cmp ?s key p b"
      proof (rule eq_loop_correct [OF assms(1,3,4)])
        fix i assume "n - 2 < i" "0 \<le> i" "i < n"
        then have "i = n - 1" by simp
        with below show "cmp key (?s ! nat i) < 0" by simp
      qed (use 3 in auto)
      with below 3 last show ?thesis by (simp add: bsearch_eq_def)
    qed
  qed
qed

end

section \<open>The searches against a linear scan\<close>

lemma lar_post_scan:
  assumes "lar_post cmp xs key r"
  shows "r = int (length (takeWhile (\<lambda>x. 0 \<le> cmp key x) xs))"
proof -
  have r: "0 \<le> r" "r \<le> int (length xs)"
    "\<forall>i. 0 \<le> i \<and> i < r \<longrightarrow> 0 \<le> cmp key (xs ! nat i)"
    "\<forall>i. r \<le> i \<and> i < int (length xs) \<longrightarrow> cmp key (xs ! nat i) < 0"
    using assms by (auto simp: lar_post_def)
  have "takeWhile (\<lambda>x. 0 \<le> cmp key x) xs = take (nat r) xs"
  proof (rule takeWhile_eq_take_P_nth)
    fix i assume "i < nat r" "i < length xs"
    then show "0 \<le> cmp key (xs ! i)" using r(3) [rule_format, of "int i"] by simp
  next
    assume "nat r < length xs"
    then show "\<not> 0 \<le> cmp key (xs ! nat r)" using r(1,4) by (simp add: not_le)
  qed
  then show ?thesis using r(1,2) by simp
qed

context comparator
begin

lemma search_post_scan:
  assumes "search_post cmp xs key p b" "cstrict cmp xs"
  shows "p = int (length (takeWhile (\<lambda>x. 0 < cmp key x) xs)) \<and> b = (\<exists>x \<in> set xs. cmp key x = 0)"
proof -
  have p: "0 \<le> p" "p \<le> int (length xs)" using assms(1) by (auto simp: search_post_def split: if_splits)
  have below: "0 < cmp key (xs ! i)" if "i < nat p" for i
  proof (cases b)
    case True
    with assms(1) have hit: "nat p < length xs" "cmp key (xs ! nat p) = 0" by (auto simp: search_post_def)
    have "cmp (xs ! i) (xs ! nat p) < 0" using cstrict_nth [OF assms(2) that hit(1)] .
    moreover have "cmp (xs ! nat p) key \<le> 0" using hit(2) cmp_eq_sym [of key "xs ! nat p"] by simp
    ultimately have "cmp (xs ! i) key < 0" by (rule cmp_less_le_trans)
    then show ?thesis by (simp add: cmp_sym')
  next
    case False
    with assms(1) have "\<forall>i. 0 \<le> i \<and> i < p \<longrightarrow> 0 < cmp key (xs ! nat i)" by (simp add: search_post_def)
    then show ?thesis using that by (metis nat_int of_nat_0_le_iff zless_nat_eq_int_zless)
  qed
  have here: "\<not> 0 < cmp key (xs ! nat p)" if "nat p < length xs"
    using assms(1) p(1) that by (auto simp: search_post_def not_less order_less_imp_le split: if_splits)
  have "takeWhile (\<lambda>x. 0 < cmp key x) xs = take (nat p) xs"
    by (rule takeWhile_eq_take_P_nth) (use below here in auto)
  moreover have "b = (\<exists>x \<in> set xs. cmp key x = 0)"
  proof (cases b)
    case True
    with assms(1) show ?thesis by (auto simp: search_post_def)
  next
    case False
    have "cmp key (xs ! i) \<noteq> 0" if "i < length xs" for i
      using assms(1) False that below [of i] p(1)
      by (cases "i < nat p") (auto simp: search_post_def nat_le_iff dest!: spec [of _ "int i"])
    with False show ?thesis by (auto simp: in_set_conv_nth)
  qed
  ultimately show ?thesis using p by simp
qed

end

lemma seg_middle: "seg (pre @ xs @ post) (int (length pre)) (int (length xs)) = xs"
  by (simp add: seg_def)

interpretation int_cmp: comparator "\<lambda>x y :: int. x - y"
  by unfold_locales auto





end
