(* ===== verification/Kvs_Array.thy ===== *)
theory Kvs_Array
  imports Kvs_Spec Bsearch
begin

text \<open>
  The sorted array of grouped pairs (\<^verbatim>\<open>metis/lib/keyvals_array.c\<close>, \<open>hkvsarr\<close>): keys are
  found by binary search, a new key is moved into place with \<^verbatim>\<open>memmove\<close>.
\<close>

section \<open>Operations\<close>

definition kvsa_init :: "('k, 'v) keyvals parr" where
  "kvsa_init = parr_init"

definition kvsa_checkfull :: "('k, 'v) keyvals parr \<Rightarrow> ('k, 'v) keyvals parr" where
  "kvsa_checkfull arr = parr_grow arr"

text \<open>Moving the tail up by one and storing into the gap; the length grows by one.\<close>

definition parr_insert_at :: "'e parr \<Rightarrow> nat \<Rightarrow> 'e \<Rightarrow> 'e parr res" where
  "parr_insert_at a i x =
     (case pa_arr a of
        None \<Rightarrow> Inl Null_deref
      | Some xs \<Rightarrow>
          if i \<le> pa_len a \<and> pa_len a \<le> length xs \<and> pa_len a < pa_alloc a
          then Inr (a\<lparr>pa_arr := Some (take i xs @ x # take (pa_len a - i) (drop i xs)
                                  @ drop (pa_len a + 1) xs),
                     pa_len := u32 (pa_len a + 1)\<rparr>)
          else Inl Out_of_bounds)"

definition kvsa_append_kvs :: "('k, 'v) keyvals parr \<Rightarrow> ('k, 'v) keyvals \<Rightarrow> ('k, 'v) keyvals parr res" where
  "kvsa_append_kvs arr kvs =
     (let b = kvsa_checkfull arr in
      res_bind (parr_put b (pa_len b) kvs) (\<lambda>c. Inr (c\<lparr>pa_len := u32 (pa_len c + 1)\<rparr>)))"

definition kvsa_insert_kvs :: "('k, 'v) env \<Rightarrow> ('k, 'v) keyvals parr \<Rightarrow> ('k, 'v) keyvals
    \<Rightarrow> ('k, 'v) keyvals parr res" where
  "kvsa_insert_kvs e arr0 kvs =
     (let arr = kvsa_checkfull arr0 in
      res_bind (bsearch_eq (keyvals_cmp e) kvs (parr_buf arr) 0 (int (pa_len arr))) (\<lambda>(dst, bfound).
      c_assert (\<not> bfound) (parr_insert_at arr (nat dst) kvs)))"

definition kvsa_insert_kv :: "('k, 'v) env \<Rightarrow> ('k, 'v) keyvals parr \<Rightarrow> 'k \<Rightarrow> 'v \<Rightarrow> nat \<Rightarrow> nat
    \<Rightarrow> (('k, 'v) keyvals parr \<times> bool) res" where
  "kvsa_insert_kv e arr key v keylen hash =
     res_bind (bsearch_eq (keyvals_cmp e) (fresh_kvs key 0) (parr_buf arr) 0 (int (pa_len arr))) (\<lambda>(dst, bfound).
     if bfound then
       res_bind (rd (parr_buf arr) dst) (\<lambda>slot.
       res_bind (values_insert e slot v) (\<lambda>slot'.
       res_bind (parr_put arr (nat dst) slot') (\<lambda>arr'. Inr (arr', False))))
     else
       let arr1 = kvsa_checkfull arr; slot = fresh_kvs (copy_key e key keylen) hash in
       res_bind (parr_insert_at arr1 (nat dst) slot) (\<lambda>arr2.
       res_bind (values_insert e slot v) (\<lambda>slot'.
       res_bind (parr_put arr2 (nat dst) slot') (\<lambda>arr3. Inr (arr3, True)))))"

definition kvsa_get_len :: "('k, 'v) keyvals parr \<Rightarrow> nat" where
  "kvsa_get_len arr = pa_len arr"

definition kvsa_iter_begin :: "('k, 'v) keyvals parr option \<Rightarrow> nat option" where
  "kvsa_iter_begin coll = (case coll of None \<Rightarrow> None | Some _ \<Rightarrow> Some 0)"

text \<open>\<^verbatim>\<open>memset\<close> of a slot to zero.\<close>

definition zero_kvs :: "('k, 'v) env \<Rightarrow> ('k, 'v) keyvals" where
  "zero_kvs e = fresh_kvs (null_key e) 0"

definition kvsa_iter_next_kvs :: "('k, 'v) env \<Rightarrow> ('k, 'v) keyvals parr \<Rightarrow> nat \<Rightarrow> bool
    \<Rightarrow> (('k, 'v) keyvals \<times> ('k, 'v) keyvals parr \<times> nat) option res" where
  "kvsa_iter_next_kvs e arr nxt bclear =
     (if nxt = pa_len arr then Inr None
      else res_bind (rd (parr_buf arr) (int nxt)) (\<lambda>kvs.
           res_bind (if bclear then parr_put arr nxt (zero_kvs e) else Inr arr) (\<lambda>arr'.
           Inr (Some (kvs, arr', nxt + 1)))))"

definition kvsa_get_arr_elems :: "('k, 'v) keyvals parr \<Rightarrow> ('k, 'v) keyvals list option" where
  "kvsa_get_arr_elems arr = pa_arr arr"

definition kvsa_get_key :: "('k, 'v) keyvals \<Rightarrow> 'k" where
  "kvsa_get_key pair = kvs_key pair"

definition kvsa_set_elems :: "('k, 'v) keyvals parr \<Rightarrow> ('k, 'v) keyvals list \<Rightarrow> nat \<Rightarrow> ('k, 'v) keyvals parr" where
  "kvsa_set_elems arr elems n = parr_set_elems arr elems n"

definition kvsa_shallow_free :: "('k, 'v) keyvals parr \<Rightarrow> ('k, 'v) keyvals parr" where
  "kvsa_shallow_free arr = parr_shallow_free arr"

section \<open>The array keeps the contract of a grouped collection\<close>

definition kvsa_inv :: "('k, 'v) env \<Rightarrow> ('k, 'v) keyvals parr \<Rightarrow> bool" where
  "kvsa_inv e arr \<longleftrightarrow> parr_inv arr \<and> cstrict (keyvals_cmp e) (parr_elems arr)"

lemma nth_ball_lt:
  assumes "\<forall>i::int. 0 \<le> i \<and> i < p \<longrightarrow> P (xs ! nat i)" "p \<le> int (length xs)"
  shows "\<forall>x \<in> set (take (nat p) xs). P x"
proof
  fix x assume "x \<in> set (take (nat p) xs)"
  then obtain j where "j < nat p" "x = xs ! j" by (auto simp: in_set_conv_nth)
  with assms(1) [rule_format, of "int j"] show "P x" by simp
qed

lemma nth_ball_ge:
  assumes "\<forall>i::int. p \<le> i \<and> i < int (length xs) \<longrightarrow> P (xs ! nat i)" "0 \<le> p"
  shows "\<forall>x \<in> set (drop (nat p) xs). P x"
proof
  fix x assume "x \<in> set (drop (nat p) xs)"
  then obtain j where "j < length xs - nat p" "x = xs ! (nat p + j)" by (auto simp: in_set_conv_nth)
  with assms(1) [rule_format, of "int (nat p + j)"] assms(2) show "P x" by (simp only: nat_int) linarith
qed

text \<open>
  The search over a strictly sorted array, in terms of its first \<open>n\<close> elements: a hit is the
  only element with the key, a miss is where the key belongs.
\<close>

lemma search_strict:
  assumes cmp: "comparator cmp" and n: "n \<le> length arr" and xs: "xs = take n arr"
    and sorted: "cstrict cmp xs"
  shows "succeeds (bsearch_eq cmp k arr 0 (int n)) (\<lambda>(p, b).
    0 \<le> p \<and> (if b
     then nat p < n \<and> cmp k (xs ! nat p) = 0 \<and> (\<forall>x \<in> set (take (nat p) xs). 0 < cmp k x)
     else nat p \<le> n \<and> (\<forall>x \<in> set (take (nat p) xs). 0 < cmp k x) \<and>
          (\<forall>x \<in> set (drop (nat p) xs). cmp k x < 0)))"
proof -
  have seg: "seg arr 0 (int n) = xs" by (simp add: seg_def xs)
  have len: "length xs = n" using n by (simp add: xs)
  have "\<exists>p b. bsearch_eq cmp k arr 0 (int n) = Inr (p, b) \<and> search_post cmp xs k p b"
    using comparator.bsearch_eq_correct [OF cmp, of 0 "int n" arr k] seg n cstrict_imp_csorted [OF sorted] by simp
  then obtain p b where eq: "bsearch_eq cmp k arr 0 (int n) = Inr (p, b)"
    and post: "search_post cmp xs k p b" by blast
  show ?thesis
  proof (cases b)
    case True
    with post len have hit: "0 \<le> p" "nat p < n" "cmp k (xs ! nat p) = 0"
      by (auto simp: search_post_def)
    have "0 < cmp k x" if x: "x \<in> set (take (nat p) xs)" for x
    proof -
      obtain j where j: "j < nat p" "x = xs ! j" using x by (auto simp: in_set_conv_nth)
      then have "cmp x (xs ! nat p) < 0"
        using cstrict_nth [OF sorted] hit len by simp
      then show ?thesis
        using hit(3) comparator.cmp_less_le_trans [OF cmp] comparator.cmp_eq_sym [OF cmp]
          comparator.cmp_sym' [OF cmp] by (metis order_refl)
    qed
    with True hit eq show ?thesis by simp
  next
    case False
    with post have "0 \<le> p" "p \<le> int (length xs)"
      "\<forall>i. 0 \<le> i \<and> i < p \<longrightarrow> 0 < cmp k (xs ! nat i)"
      "\<forall>i. p \<le> i \<and> i < int (length xs) \<longrightarrow> cmp k (xs ! nat i) < 0"
      by (auto simp: search_post_def)
    with False eq len nth_ball_lt [of p "\<lambda>x. 0 < cmp k x" xs] nth_ball_ge [of p xs "\<lambda>x. cmp k x < 0"]
    show ?thesis by simp
  qed
qed

lemma kvsa_search:
  assumes cmp: "comparator (keyvals_cmp e)" and a: "parr_inv a"
    and sorted: "cstrict (keyvals_cmp e) (parr_elems a)"
  shows "succeeds (bsearch_eq (keyvals_cmp e) k (parr_buf a) 0 (int (pa_len a))) (\<lambda>(p, b).
    0 \<le> p \<and> (if b
     then nat p < pa_len a \<and> keyvals_cmp e k (parr_elems a ! nat p) = 0 \<and>
          (\<forall>x \<in> set (take (nat p) (parr_elems a)). 0 < keyvals_cmp e k x)
     else nat p \<le> pa_len a \<and>
          (\<forall>x \<in> set (take (nat p) (parr_elems a)). 0 < keyvals_cmp e k x) \<and>
          (\<forall>x \<in> set (drop (nat p) (parr_elems a)). keyvals_cmp e k x < 0)))"
proof (rule search_strict [OF cmp _ _ sorted])
  show elems: "parr_elems a = take (pa_len a) (parr_buf a)" using parr_buf_elems [OF a] by simp
  show "pa_len a \<le> length (parr_buf a)"
    using parr_inv_len [OF a] elems by (metis length_take min.cobounded1)
qed

lemma parr_insert_at_ok:
  assumes "parr_inv a" "pa_len a < 2 ^ 31" "i \<le> pa_len a"
  shows "succeeds (parr_insert_at (parr_grow a) i x) (\<lambda>b. parr_inv b \<and>
    parr_elems b = take i (parr_elems a) @ x # drop i (parr_elems a) \<and> i < pa_len b)"
  using parr_grow_room [OF assms(1,2)] assms(2,3) parr_inv_len [OF assms(1)]
  by (simp add: parr_insert_at_def parr_inv_def parr_elems_def)

lemma parr_put_ok:
  assumes "parr_inv a" "i < pa_len a"
  shows "succeeds (parr_put a i x) (\<lambda>b. parr_inv b \<and> parr_elems b = (parr_elems a)[i := x] \<and> pa_len b = pa_len a)"
  using assms by (auto elim!: parr_inv_cases simp: parr_put_def buf_put_def parr_inv_def parr_elems_def)

context mr_env
begin

lemma kvsa_insert_kv_refines:
  assumes "kvsa_inv e a" "pa_len a < 2 ^ 31"
    and "list_ins e key v keylen hash (parr_elems a) = Inr (xs, b)"
    and "keycopy_ok e key keylen"
  shows "succeeds (kvsa_insert_kv e a key v keylen hash)
    (\<lambda>(a', b'). kvsa_inv e a' \<and> parr_elems a' = xs \<and> b' = b)"
proof -
  let ?es = "parr_elems a" and ?k = "fresh_kvs key 0"
  have a: "parr_inv a" "cstrict (keyvals_cmp e) ?es" using assms(1) by (auto simp: kvsa_inv_def)
  have len: "length ?es = pa_len a" by (rule parr_inv_len [OF a(1)])
  have strict: "cstrict (keyvals_cmp e) xs" using list_ins_strict [OF assms(3) a(2) assms(4)] by blast
  have cmp: "keyvals_cmp e ?k x = keycmp e key (kvs_key x)" for x by (simp add: keyvals_cmp_def)
  obtain p f where search: "bsearch_eq (keyvals_cmp e) ?k (parr_buf a) 0 (int (pa_len a)) = Inr (p, f)"
    and p: "0 \<le> p" and post: "if f
     then nat p < pa_len a \<and> keycmp e key (kvs_key (?es ! nat p)) = 0 \<and>
          (\<forall>x \<in> set (take (nat p) ?es). 0 < keycmp e key (kvs_key x))
     else nat p \<le> pa_len a \<and> (\<forall>x \<in> set (take (nat p) ?es). 0 < keycmp e key (kvs_key x)) \<and>
          (\<forall>x \<in> set (drop (nat p) ?es). keycmp e key (kvs_key x) < 0)"
    using kvsa_search [OF keyvals_comparator a, of ?k, unfolded cmp] by (auto elim!: succeedsE)
  show ?thesis
  proof (cases f)
    case True
    with post have hit: "nat p < pa_len a" "keycmp e key (kvs_key (?es ! nat p)) = 0"
      "\<forall>x \<in> set (take (nat p) ?es). 0 < keycmp e key (kvs_key x)" by auto
    have "take (nat p) ?es @ ?es ! nat p # drop (Suc (nat p)) ?es = ?es"
      using hit(1) len by (simp add: id_take_nth_drop [symmetric])
    with list_ins_hit [OF hit(3,2), of v keylen hash "drop (Suc (nat p)) ?es"] assms(3)
    have "res_bind (values_insert e (?es ! nat p) v)
        (\<lambda>n. Inr (take (nat p) ?es @ n # drop (Suc (nat p)) ?es, False)) = Inr (xs, b)" by simp
    then obtain n where n: "values_insert e (?es ! nat p) v = Inr n"
      "xs = ?es[nat p := n]" "\<not> b"
      using hit(1) len by (auto simp: upd_conv_take_nth_drop)
    have "parr_buf a = ?es" using a(1) hit(1) by (intro parr_buf_full) (auto simp: parr_inv_def)
    with True search p hit(1) len n strict show ?thesis
      by (auto simp: kvsa_insert_kv_def kvsa_inv_def intro: succeeds_mono [OF parr_put_ok [OF a(1)]])
  next
    case False
    let ?slot = "fresh_kvs (copy_key e key keylen) hash"
    from False post have miss: "nat p \<le> pa_len a"
      "\<forall>x \<in> set (take (nat p) ?es). 0 < keycmp e key (kvs_key x)"
      "\<forall>x \<in> set (drop (nat p) ?es). keycmp e key (kvs_key x) < 0" by auto
    from list_ins_miss [OF miss(2,3)] assms(3) obtain n where n: "values_insert e ?slot v = Inr n"
      "xs = take (nat p) ?es @ n # drop (nat p) ?es" "b" by auto
    have "succeeds (parr_insert_at (kvsa_checkfull a) (nat p) ?slot) (\<lambda>c.
        succeeds (parr_put c (nat p) n) (\<lambda>c'. parr_inv c' \<and> parr_elems c' = xs))"
      unfolding kvsa_checkfull_def
    proof (rule succeeds_mono [OF parr_insert_at_ok [OF a(1) assms(2) miss(1)]])
      fix c assume "parr_inv c \<and> parr_elems c = take (nat p) ?es @ ?slot # drop (nat p) ?es \<and> nat p < pa_len c"
      then show "succeeds (parr_put c (nat p) n) (\<lambda>c'. parr_inv c' \<and> parr_elems c' = xs)"
        using miss(1) len n(2)
        by (intro succeeds_mono [OF parr_put_ok]) (auto simp: list_update_append)
    qed
    with False search n strict show ?thesis
      by (auto simp: kvsa_insert_kv_def Let_def kvsa_inv_def elim!: succeeds_mono)
  qed
qed

lemma kvsa_insert_kvs_refines:
  assumes "kvsa_inv e a" "pa_len a < 2 ^ 31" "list_ins_kvs e k (parr_elems a) = Inr xs"
  shows "succeeds (kvsa_insert_kvs e a k) (\<lambda>a'. kvsa_inv e a' \<and> parr_elems a' = xs)"
proof -
  let ?es = "parr_elems a" and ?b = "kvsa_checkfull a"
  have a: "parr_inv a" "cstrict (keyvals_cmp e) ?es" using assms(1) by (auto simp: kvsa_inv_def)
  have strict: "cstrict (keyvals_cmp e) xs" using list_ins_kvs_strict [OF assms(3) a(2)] by blast
  note grow = parr_grow_room [OF a(1) assms(2), folded kvsa_checkfull_def]
  obtain p f where search: "bsearch_eq (keyvals_cmp e) k (parr_buf ?b) 0 (int (pa_len a)) = Inr (p, f)"
    and p: "0 \<le> p" and post: "if f
     then nat p < pa_len a \<and> keyvals_cmp e k (?es ! nat p) = 0 \<and>
          (\<forall>x \<in> set (take (nat p) ?es). 0 < keyvals_cmp e k x)
     else nat p \<le> pa_len a \<and> (\<forall>x \<in> set (take (nat p) ?es). 0 < keyvals_cmp e k x) \<and>
          (\<forall>x \<in> set (drop (nat p) ?es). keyvals_cmp e k x < 0)"
    using kvsa_search [OF keyvals_comparator grow(1), of k, unfolded grow(2,3)] a(2)
    by (auto elim!: succeedsE)
  show ?thesis
  proof (cases f)
    case True
    with post have hit: "nat p < pa_len a" "keyvals_cmp e k (?es ! nat p) = 0"
      "\<forall>x \<in> set (take (nat p) ?es). 0 < keyvals_cmp e k x" by auto
    have "take (nat p) ?es @ ?es ! nat p # drop (Suc (nat p)) ?es = ?es"
      using hit(1) parr_inv_len [OF a(1)] by (simp add: id_take_nth_drop [symmetric])
    with list_ins_kvs_hit [OF hit(3,2), of "drop (Suc (nat p)) ?es"] assms(3) show ?thesis by simp
  next
    case False
    with post have miss: "nat p \<le> pa_len a" "\<forall>x \<in> set (take (nat p) ?es). 0 < keyvals_cmp e k x"
      "\<forall>x \<in> set (drop (nat p) ?es). keyvals_cmp e k x < 0" by auto
    from list_ins_kvs_miss [OF miss(2,3)] assms(3)
    have "xs = take (nat p) ?es @ k # drop (nat p) ?es" by simp
    with False search strict grow(3) show ?thesis
      unfolding kvsa_checkfull_def
      by (auto simp: kvsa_insert_kvs_def kvsa_checkfull_def Let_def kvsa_inv_def
          intro: succeeds_mono [OF parr_insert_at_ok [OF a(1) assms(2) miss(1)]])
  qed
qed

end

text \<open>An iterator over the array is valid while it has not passed the end.\<close>

definition kvsa_it_ok :: "('k, 'v) keyvals parr \<Rightarrow> nat \<Rightarrow> bool" where
  "kvsa_it_ok a i \<longleftrightarrow> parr_inv a \<and> i \<le> pa_len a"

lemma kvsa_next_end: "i = pa_len a \<Longrightarrow> kvsa_iter_next_kvs e a i b = Inr None"
  by (simp add: kvsa_iter_next_kvs_def)

lemma kvsa_next_step:
  assumes "kvsa_it_ok a i" "drop i (parr_elems a) = x # xs"
  shows "succeeds (kvsa_iter_next_kvs e a i b)
    (\<lambda>r. case r of None \<Rightarrow> False
         | Some (y, a', i') \<Rightarrow> y = x \<and> kvsa_it_ok a' i' \<and> drop i' (parr_elems a') = xs)"
proof -
  have a: "parr_inv a" "i < pa_len a" "length (parr_elems a) = pa_len a"
    using assms parr_inv_len [of a] by (auto simp: kvsa_it_ok_def le_less)
  then have buf: "parr_buf a = parr_elems a" by (intro parr_buf_full) (auto simp: parr_inv_def)
  have x: "x = parr_elems a ! i" "xs = drop (Suc i) (parr_elems a)"
    using assms(2) a Cons_nth_drop_Suc [of i "parr_elems a"] by auto
  show ?thesis
    using a buf x
    by (auto simp: kvsa_iter_next_kvs_def kvsa_it_ok_def intro: succeeds_mono [OF parr_put_ok [OF a(1,2)]])
qed

sublocale mr_env \<subseteq> kvsa: kvs_coll e kvsa_init "kvsa_insert_kv e" "kvsa_insert_kvs e" kvsa_get_len
    "\<lambda>c. Inr (kvsa_iter_begin (Some c))" "kvsa_iter_next_kvs e" "kvsa_inv e" parr_elems kvsa_it_ok
    "\<lambda>c i. drop i (parr_elems c)"
proof unfold_locales
  show "kvsa_inv e kvsa_init" "parr_elems kvsa_init = []"
    by (simp_all add: kvsa_inv_def kvsa_init_def)
  show "cstrict (keyvals_cmp e) (parr_elems c)" "kvsa_get_len c = length (parr_elems c)"
    if "kvsa_inv e c" for c
    using that by (simp_all add: kvsa_inv_def kvsa_get_len_def parr_inv_len)
  show "succeeds (kvsa_insert_kv e c key v keylen hash)
      (\<lambda>(c', b'). kvsa_inv e c' \<and> parr_elems c' = xs \<and> b' = b)"
    if "kvsa_inv e c" "length (parr_elems c) < 2 ^ 31" "keycopy_ok e key keylen"
      "list_ins e key v keylen hash (parr_elems c) = Inr (xs, b)" for c key v keylen hash xs b
    using that by (intro kvsa_insert_kv_refines) (auto simp: kvsa_inv_def parr_inv_len)
  show "succeeds (kvsa_insert_kvs e c k) (\<lambda>c'. kvsa_inv e c' \<and> parr_elems c' = xs)"
    if "kvsa_inv e c" "length (parr_elems c) < 2 ^ 31"
      "list_ins_kvs e k (parr_elems c) = Inr xs" for c k xs
    using that by (intro kvsa_insert_kvs_refines) (auto simp: kvsa_inv_def parr_inv_len)
  show "succeeds (Inr (kvsa_iter_begin (Some c))) (\<lambda>r. case r of None \<Rightarrow> parr_elems c = []
      | Some i \<Rightarrow> kvsa_it_ok c i \<and> drop i (parr_elems c) = parr_elems c)" if "kvsa_inv e c" for c
    using that by (simp add: kvsa_iter_begin_def kvsa_it_ok_def kvsa_inv_def)
  show "kvsa_iter_next_kvs e c i b = Inr None"
    if "kvsa_it_ok c i" "drop i (parr_elems c) = []" for c i b
    using that by (intro kvsa_next_end) (auto simp: kvsa_it_ok_def parr_inv_len)
qed (rule kvsa_next_step)

context mr_env
begin

lemma kvsa_coll: "kvs_coll e kvsa_init (kvsa_insert_kv e) (kvsa_insert_kvs e) kvsa_get_len
    (\<lambda>c. Inr (kvsa_iter_begin (Some c))) (kvsa_iter_next_kvs e) (kvsa_inv e) parr_elems kvsa_it_ok
    (\<lambda>c i. drop i (parr_elems c))"
  by (rule kvsa.kvs_coll_axioms)

end

end
