(* ===== verification/Kv_Arrays.thy ===== *)
theory Kv_Arrays
  imports Mr_Types
begin

text \<open>
  The two append-only pair arrays: \<^verbatim>\<open>metis/lib/keyval_array.c\<close> (\<open>hkvarr\<close>, ungrouped
  key/value pairs and the final output of map-only and map-reduce applications) and
  \<^verbatim>\<open>metis/lib/keyvals_len_array.c\<close> (\<open>hkvslenarr\<close>, the output of map-group
  applications).
\<close>

section \<open>hkvarr: arrays of key/value pairs\<close>

definition kva_init :: "('k, 'v) keyval parr" where
  "kva_init = parr_init"

definition kva_insert_kv :: "('k, 'v) env \<Rightarrow> ('k, 'v) keyval parr \<Rightarrow> 'k \<Rightarrow> 'v \<Rightarrow> nat \<Rightarrow> nat
    \<Rightarrow> (('k, 'v) keyval parr \<times> bool) res" where
  "kva_insert_kv e arr key v keylen hash =
     res_bind (parr_append arr \<lparr>kv_key = copy_key e key keylen, kv_val = v, kv_hash = hash\<rparr>)
       (\<lambda>arr'. Inr (arr', True))"

text \<open>An iterator is the index of the next pair; there is none on a null collection.\<close>

definition kva_iter_begin :: "('k, 'v) keyval parr option \<Rightarrow> nat option" where
  "kva_iter_begin coll = (case coll of None \<Rightarrow> None | Some _ \<Rightarrow> Some 0)"

definition kva_iter_next_kv :: "('k, 'v) keyval parr \<Rightarrow> nat \<Rightarrow> (('k, 'v) keyval \<times> nat) option res" where
  "kva_iter_next_kv arr nxt =
     (if nxt = pa_len arr then Inr None
      else case pa_arr arr of
             None \<Rightarrow> Inl Null_deref
           | Some xs \<Rightarrow> res_bind (rd xs (int nxt)) (\<lambda>x. Inr (Some (x, nxt + 1))))"

text \<open>\<^verbatim>\<open>pch_copy_kv\<close> copies the live pairs out and returns how many there are.\<close>

definition kva_copy_kv :: "('k, 'v) keyval parr \<Rightarrow> ('k, 'v) keyval list \<times> nat" where
  "kva_copy_kv arr = (parr_elems arr, pa_len arr)"

definition kva_get_len :: "('k, 'v) keyval parr \<Rightarrow> nat" where
  "kva_get_len arr = pa_len arr"

definition kva_get_arr_elems :: "('k, 'v) keyval parr \<Rightarrow> ('k, 'v) keyval list option" where
  "kva_get_arr_elems arr = pa_arr arr"

definition kva_get_key :: "('k, 'v) keyval \<Rightarrow> 'k" where
  "kva_get_key pair = kv_key pair"

definition kva_set_elems :: "('k, 'v) keyval parr \<Rightarrow> ('k, 'v) keyval list \<Rightarrow> nat \<Rightarrow> ('k, 'v) keyval parr" where
  "kva_set_elems arr elems n = parr_set_elems arr elems n"

definition kva_shallow_free :: "('k, 'v) keyval parr \<Rightarrow> ('k, 'v) keyval parr" where
  "kva_shallow_free arr = parr_shallow_free arr"

section \<open>hkvslenarr: arrays of keys with their values\<close>

definition kvl_init :: "('k, 'v) keyvals_len parr" where
  "kvl_init = parr_init"

definition kvl_insert_kvslen :: "('k, 'v) keyvals_len parr \<Rightarrow> 'k \<Rightarrow> 'v vals_ptr \<Rightarrow> nat
    \<Rightarrow> ('k, 'v) keyvals_len parr res" where
  "kvl_insert_kvslen arr key vals n = parr_append arr \<lparr>kvl_key = key, kvl_vals = vals, kvl_len = n\<rparr>"

definition kvl_get_len :: "('k, 'v) keyvals_len parr \<Rightarrow> nat" where
  "kvl_get_len arr = pa_len arr"

definition kvl_get_arr_elems :: "('k, 'v) keyvals_len parr \<Rightarrow> ('k, 'v) keyvals_len list option" where
  "kvl_get_arr_elems arr = pa_arr arr"

definition kvl_get_key :: "('k, 'v) keyvals_len \<Rightarrow> 'k" where
  "kvl_get_key pair = kvl_key pair"

definition kvl_set_elems :: "('k, 'v) keyvals_len parr \<Rightarrow> ('k, 'v) keyvals_len list \<Rightarrow> nat
    \<Rightarrow> ('k, 'v) keyvals_len parr" where
  "kvl_set_elems arr elems n = parr_set_elems arr elems n"

definition kvl_shallow_free :: "('k, 'v) keyvals_len parr \<Rightarrow> ('k, 'v) keyvals_len parr" where
  "kvl_shallow_free arr = parr_shallow_free arr"

section \<open>Properties\<close>

lemma kva_insert_kv_ok:
  assumes "parr_inv arr" "pa_len arr < 2 ^ 31"
  shows "succeeds (kva_insert_kv e arr key v keylen hash) (\<lambda>(arr', b). b \<and> parr_inv arr' \<and>
    parr_elems arr' = parr_elems arr @ [\<lparr>kv_key = copy_key e key keylen, kv_val = v, kv_hash = hash\<rparr>] \<and>
    pa_len arr' = pa_len arr + 1)"
  unfolding kva_insert_kv_def by (simp add: succeeds_mono [OF parr_append_ok [OF assms]])

lemma kvl_insert_kvslen_ok:
  assumes "parr_inv arr" "pa_len arr < 2 ^ 31"
  shows "succeeds (kvl_insert_kvslen arr key vals n) (\<lambda>arr'. parr_inv arr' \<and>
    parr_elems arr' = parr_elems arr @ [\<lparr>kvl_key = key, kvl_vals = vals, kvl_len = n\<rparr>] \<and>
    pa_len arr' = pa_len arr + 1)"
  unfolding kvl_insert_kvslen_def by (rule parr_append_ok [OF assms])

text \<open>Iterating to the end delivers exactly the live pairs.\<close>

fun kva_iter_all :: "nat \<Rightarrow> ('k, 'v) keyval parr \<Rightarrow> nat \<Rightarrow> ('k, 'v) keyval list res" where
  "kva_iter_all 0 arr nxt = Inr []"
| "kva_iter_all (Suc fuel) arr nxt =
     res_bind (kva_iter_next_kv arr nxt) (\<lambda>r.
       case r of None \<Rightarrow> Inr []
       | Some (x, nxt') \<Rightarrow> res_bind (kva_iter_all fuel arr nxt') (\<lambda>xs. Inr (x # xs)))"

lemma kva_iter_all_elems:
  assumes "parr_inv arr" "nxt \<le> pa_len arr" "pa_len arr - nxt < fuel"
  shows "kva_iter_all fuel arr nxt = Inr (drop nxt (parr_elems arr))"
  using assms(2,3)
proof (induction fuel arbitrary: nxt)
  case (Suc fuel)
  show ?case
  proof (cases "nxt = pa_len arr")
    case True
    then show ?thesis by (simp add: kva_iter_next_kv_def parr_inv_len [OF assms(1)])
  next
    case False
    with Suc.prems have lt: "nxt < pa_len arr" by simp
    with assms(1) obtain xs where "pa_arr arr = Some xs" "parr_elems arr = xs" "length xs = pa_len arr"
      by (auto elim: parr_inv_cases)
    with lt Suc.IH [of "nxt + 1"] Suc.prems show ?thesis
      by (simp add: kva_iter_next_kv_def Cons_nth_drop_Suc)
  qed
qed simp

end
