(* ===== verification/C_String.thy ===== *)
theory C_String
  imports Metis_Prelude
begin

text \<open>
  The part of C's string library that the applications use: the bytes of a string up to its
  terminator, \<^verbatim>\<open>strcmp\<close>, and \<^verbatim>\<open>toupper\<close> in the C locale. A string is a list of
  characters; the end of the list stands for the terminator, and so does a null character in it.
\<close>

abbreviation nul :: char where
  "nul \<equiv> CHR 0x00"

definition c_str :: "string \<Rightarrow> string" where
  "c_str s = takeWhile (\<lambda>c. c \<noteq> nul) s"

text \<open>\<^verbatim>\<open>strcmp\<close> compares bytes as unsigned; only the sign of its result is specified. The
  terminator, being 0, is below every other byte, so a proper prefix comes first.\<close>

fun lex_cmp :: "nat list \<Rightarrow> nat list \<Rightarrow> int" where
  "lex_cmp [] [] = 0"
| "lex_cmp [] (y # ys) = - 1"
| "lex_cmp (x # xs) [] = 1"
| "lex_cmp (x # xs) (y # ys) = (if x < y then - 1 else if y < x then 1 else lex_cmp xs ys)"

definition c_strcmp :: "string \<Rightarrow> string \<Rightarrow> int" where
  "c_strcmp s t = lex_cmp (map of_char (c_str s)) (map of_char (c_str t))"

definition c_toupper :: "char \<Rightarrow> char" where
  "c_toupper c = (let n = of_char c :: nat in if 97 \<le> n \<and> n \<le> 122 then char_of (n - 32) else c)"

section \<open>Properties\<close>

lemma lex_cmp_sym: "lex_cmp xs ys < 0 \<longleftrightarrow> 0 < lex_cmp ys xs"
  by (induction xs ys rule: lex_cmp.induct) auto

lemma lex_cmp_trans: "lex_cmp xs ys \<le> 0 \<Longrightarrow> lex_cmp ys zs \<le> 0 \<Longrightarrow> lex_cmp xs zs \<le> 0"
proof (induction xs arbitrary: ys zs)
  case Nil
  then show ?case by (cases zs) auto
next
  case (Cons x xs)
  then obtain y ys' where ys: "ys = y # ys'" by (cases ys) auto
  with Cons.prems obtain z zs' where zs: "zs = z # zs'" by (cases zs) auto
  from Cons ys zs show ?case by (auto split: if_splits)
qed

lemma lex_cmp_eq: "lex_cmp xs ys = 0 \<longleftrightarrow> xs = ys"
  by (induction xs ys rule: lex_cmp.induct) auto

interpretation lex: comparator lex_cmp
  using lex_cmp_sym lex_cmp_trans by unfold_locales

interpretation str: comparator c_strcmp
  using comparator_on [OF lex.comparator_axioms, of "\<lambda>s. map of_char (c_str s)"]
  by (simp add: c_strcmp_def [abs_def])

text \<open>Two strings compare equal exactly when their bytes up to the terminator agree.\<close>

lemma c_strcmp_eq: "c_strcmp s t = 0 \<longleftrightarrow> c_str s = c_str t"
  using inj_map_eq_map [OF inj_of_char, of "c_str s" "c_str t"]
  by (simp add: c_strcmp_def lex_cmp_eq)

lemma c_str_id: "nul \<notin> set s \<Longrightarrow> c_str s = s"
  by (induction s) (auto simp: c_str_def)

end
