(* ===== verification/Splitter.thy ===== *)
theory Splitter
  imports Metis_Prelude
begin

text \<open>
  Cutting the input into map tasks: the pre-splitter (\<^verbatim>\<open>metis/lib/presplitter.c\<close>) runs the
  application's splitter to the end before the map phase and hands the splits out by an atomic
  counter; the default splitter (\<^verbatim>\<open>metis/lib/defsplitter.c\<close>) cuts equal, aligned pieces. A
  split is the offset of its first byte and its length.
\<close>

section \<open>The pre-splitter\<close>

type_synonym split = "nat \<times> nat"

type_synonym 's splitter = "'s \<Rightarrow> nat \<Rightarrow> (split option \<times> 's) res"

record presplitter_state =
  ps_ma :: "split list"
  ps_idx :: int
  ps_nsplits :: nat
  ps_nsplits_bak :: nat
  ps_ma_bak :: "split list"

text \<open>
  The loop of \<^verbatim>\<open>presplitter_init\<close>; it ends when the splitter returns 0. A splitter that
  never does makes it run forever, which is the value \<open>None\<close>. The array is doubled when it is
  full, so there is always a free slot for the next split.
\<close>

partial_function (option) presplit_loop ::
  "'s splitter \<Rightarrow> nat \<Rightarrow> 's \<Rightarrow> split list \<Rightarrow> (split list \<times> 's) res option" where
  "presplit_loop split ncores s ma =
     (case split s ncores of
        Inl f \<Rightarrow> Some (Inl f)
      | Inr (None, s') \<Rightarrow> Some (Inr (ma, s'))
      | Inr (Some x, s') \<Rightarrow> presplit_loop split ncores s' (ma @ [x]))"

definition presplitter_init :: "'s splitter \<Rightarrow> 's \<Rightarrow> nat \<Rightarrow> presplitter_state res option" where
  "presplitter_init split arg ncores =
     map_option (\<lambda>r. res_bind r (\<lambda>(ma, s).
         c_assert (0 < length ma)
           (Inr \<lparr>ps_ma = ma, ps_idx = 0, ps_nsplits = length ma, ps_nsplits_bak = 0, ps_ma_bak = []\<rparr>)))
       (presplit_loop split ncores arg [])"

text \<open>
  \<^verbatim>\<open>atomic_add32_ret\<close> returns the counter before the addition, which wraps in 32 bits; the
  comparison with the unsigned \<^verbatim>\<open>nsplits\<close> converts a negative counter to a huge one.
\<close>

definition s32 :: "int \<Rightarrow> int" where
  "s32 i = (i + 2 ^ 31) mod 2 ^ 32 - 2 ^ 31"

definition presplitter :: "presplitter_state \<Rightarrow> (split option \<times> presplitter_state) res" where
  "presplitter ps =
     (let i = ps_idx ps; ps' = ps\<lparr>ps_idx := s32 (i + 1)\<rparr> in
      if int (ps_nsplits ps) \<le> i mod 2 ^ 64 then Inr (None, ps')
      else res_bind (rd (ps_ma ps) i) (\<lambda>x. Inr (Some x, ps')))"

definition presplitter_nsplits :: "presplitter_state \<Rightarrow> nat" where
  "presplitter_nsplits ps = ps_nsplits ps"

definition presplitter_reset :: "presplitter_state \<Rightarrow> presplitter_state" where
  "presplitter_reset ps = ps\<lparr>ps_idx := 0, ps_nsplits := ps_nsplits_bak ps, ps_ma := ps_ma_bak ps\<rparr>"

definition presplitter_prep_sample :: "presplitter_state \<Rightarrow> nat \<Rightarrow> presplitter_state res" where
  "presplitter_prep_sample ps ntasks =
     c_assert (ntasks \<le> ps_nsplits ps)
       (if length (ps_ma ps) < ps_nsplits ps then Inl Out_of_bounds
        else Inr (ps\<lparr>ps_ma_bak := take (ps_nsplits ps) (ps_ma ps), ps_nsplits_bak := ps_nsplits ps,
                   ps_nsplits := ntasks\<rparr>))"

definition presplitter_done_sample :: "presplitter_state \<Rightarrow> presplitter_state" where
  "presplitter_done_sample ps =
     ps\<lparr>ps_idx := s32 (int (ps_nsplits ps)), ps_nsplits := ps_nsplits_bak ps\<rparr>"

section \<open>The default splitter\<close>

definition def_nsplits_per_core :: nat where
  "def_nsplits_per_core = 16"

record defsplitter_state =
  ds_split_pos :: nat
  ds_data_size :: nat
  ds_nsplits :: nat
  ds_align :: nat

definition rounddown :: "nat \<Rightarrow> nat \<Rightarrow> nat" where
  "rounddown a n = a - a mod n"

definition defsplitter_init :: "nat \<Rightarrow> nat \<Rightarrow> nat \<Rightarrow> defsplitter_state res" where
  "defsplitter_init data_size nsplits align =
     (if align = 0 then Inl Div_by_zero
      else c_assert (data_size mod align = 0)
        (Inr \<lparr>ds_split_pos = 0, ds_data_size = data_size, ds_nsplits = nsplits, ds_align = align\<rparr>))"

definition defsplitter :: "defsplitter_state splitter" where
  "defsplitter ds ncores =
     (let split_pos = ds_split_pos ds; data_size = ds_data_size ds in
      if data_size \<le> split_pos then Inr (None, ds)
      else
        let ds1 = (if ds_nsplits ds = 0 then ds\<lparr>ds_nsplits := ncores * def_nsplits_per_core\<rparr> else ds) in
        if ds_nsplits ds1 = 0 \<or> ds_align ds1 = 0 then Inl Div_by_zero
        else
          let split_size = rounddown (ds_data_size ds1 div ds_nsplits ds1) (ds_align ds1);
              len = (if data_size < split_pos + split_size then data_size - split_pos else split_size)
          in Inr (Some (split_pos, len), ds1\<lparr>ds_split_pos := split_pos + split_size\<rparr>))"

section \<open>Splitters that make progress\<close>

text \<open>
  The splits of an input are consecutive, nonempty and end at allowed positions: \<open>chain ends p q\<close>
  says so for the bytes from \<open>p\<close> to \<open>q\<close>.
\<close>

fun chain :: "(nat \<Rightarrow> bool) \<Rightarrow> nat \<Rightarrow> nat \<Rightarrow> split list \<Rightarrow> bool" where
  "chain ends p q [] \<longleftrightarrow> p = q"
| "chain ends p q ((a, l) # xs) \<longleftrightarrow> a = p \<and> 0 < l \<and> ends (p + l) \<and> chain ends (p + l) q xs"

lemma chain_append: "chain ends p q (xs @ ys) \<longleftrightarrow> (\<exists>r. chain ends p r xs \<and> chain ends r q ys)"
  by (induction ends p q xs rule: chain.induct) auto

lemma chain_length: "chain ends p q xs \<Longrightarrow> p + length xs \<le> q"
  by (induction ends p q xs rule: chain.induct) auto

text \<open>
  The contract of a splitter: at the end of the data it says so, before the end it delivers the
  next piece and moves on.
\<close>

locale progress_splitter =
  fixes split :: "'s splitter" and ncores :: nat
    and good :: "'s \<Rightarrow> bool" and pos :: "'s \<Rightarrow> nat" and size :: "'s \<Rightarrow> nat" and ends :: "'s \<Rightarrow> nat \<Rightarrow> bool"
  assumes split_end: "good s \<Longrightarrow> size s \<le> pos s \<Longrightarrow> succeeds (split s ncores) (\<lambda>(r, s'). r = None)"
    and split_next: "good s \<Longrightarrow> pos s < size s \<Longrightarrow> succeeds (split s ncores) (\<lambda>(r, s').
          case r of None \<Rightarrow> False
          | Some (a, l) \<Rightarrow> a = pos s \<and> 0 < l \<and> pos s' = pos s + l \<and> pos s' \<le> size s \<and> size s' = size s \<and>
              good s' \<and> ends s' = ends s \<and> ends s (pos s'))"
begin

lemma presplit_loop_chain:
  assumes "good s" "pos s \<le> size s"
  shows "\<exists>xs s'. presplit_loop split ncores s ma = Some (Inr (ma @ xs, s')) \<and>
    chain (ends s) (pos s) (size s) xs"
  using assms
proof (induction "size s - pos s" arbitrary: s ma rule: less_induct)
  case less
  show ?case
  proof (cases "pos s < size s")
    case False
    with less.prems show ?thesis
      using split_end [of s] by (subst presplit_loop.simps) (auto elim!: succeedsE)
  next
    case True
    with less.prems split_next [of s] obtain l s' where
      step: "split s ncores = Inr (Some (pos s, l), s')" and s': "0 < l" "pos s' = pos s + l"
        "pos s' \<le> size s" "size s' = size s" "good s'" "ends s' = ends s" "ends s (pos s')"
      by (auto elim!: succeedsE split: option.splits)
    moreover from s' True have "size s' - pos s' < size s - pos s" by simp
    ultimately obtain xs t where
      "presplit_loop split ncores s' (ma @ [(pos s, l)]) = Some (Inr ((ma @ [(pos s, l)]) @ xs, t))"
      "chain (ends s) (pos s') (size s) xs"
      using less.hyps [of s' "ma @ [(pos s, l)]"] by auto
    with step s' show ?thesis
      by (subst presplit_loop.simps) (auto intro!: exI [of _ "(pos s, l) # xs"])
  qed
qed

lemma presplitter_init_covers:
  assumes "good s" "pos s < size s"
  shows "\<exists>ps. presplitter_init split s ncores = Some (Inr ps) \<and>
    chain (ends s) (pos s) (size s) (ps_ma ps) \<and> ps_nsplits ps = length (ps_ma ps) \<and>
    0 < ps_nsplits ps \<and> ps_idx ps = 0"
  using presplit_loop_chain [of s "[]"] assms by (fastforce simp: presplitter_init_def)

end

text \<open>A splitter that can deliver forever makes the pre-splitter run forever.\<close>

lemma presplit_loop_diverges:
  assumes step: "\<And>s. Q s \<Longrightarrow> \<exists>x s'. split s ncores = Inr (Some x, s') \<and> Q s'" and "Q s"
  shows "presplit_loop split ncores s ma = None"
proof (rule ccontr)
  assume "presplit_loop split ncores s ma \<noteq> None"
  then obtain y where "presplit_loop split ncores s ma = Some y" by blast
  then have "(\<forall>s. Q s \<longrightarrow> (\<exists>x s'. split s ncores = Inr (Some x, s') \<and> Q s')) \<longrightarrow> \<not> Q s"
  proof (induction split ncores s ma y rule: presplit_loop.raw_induct [rotated, consumes 1, case_names step])
    case (step loop split ncores s ma y)
    show ?case
    proof (intro impI notI)
      assume all: "\<forall>s. Q s \<longrightarrow> (\<exists>x s'. split s ncores = Inr (Some x, s') \<and> Q s')" and "Q s"
      from all [rule_format, OF this(2)]
      obtain x s' where s': "split s ncores = Inr (Some x, s')" "Q s'" by (elim exE conjE)
      with step(2) have "loop split ncores s' (ma @ [x]) = Some y" by simp
      from mp [OF step(1) [OF this] all] s'(2) show False by contradiction
    qed
  qed
  moreover have "\<forall>s. Q s \<longrightarrow> (\<exists>x s'. split s ncores = Inr (Some x, s') \<and> Q s')"
    by (intro allI impI step)
  ultimately show False using assms(2) by (rule mp [THEN notE])
qed

section \<open>The default splitter makes progress when its pieces are not empty\<close>

definition def_nsplits :: "defsplitter_state \<Rightarrow> nat \<Rightarrow> nat" where
  "def_nsplits ds ncores = (if ds_nsplits ds = 0 then ncores * def_nsplits_per_core else ds_nsplits ds)"

definition def_good :: "nat \<Rightarrow> defsplitter_state \<Rightarrow> bool" where
  "def_good ncores ds \<longleftrightarrow> 0 < def_nsplits ds ncores \<and> 0 < ds_align ds \<and>
     ds_align ds \<le> ds_data_size ds div def_nsplits ds ncores \<and>
     ds_data_size ds mod ds_align ds = 0 \<and> ds_split_pos ds mod ds_align ds = 0"

definition def_pos :: "defsplitter_state \<Rightarrow> nat" where
  "def_pos ds = min (ds_split_pos ds) (ds_data_size ds)"

definition def_ends :: "defsplitter_state \<Rightarrow> nat \<Rightarrow> bool" where
  "def_ends ds p \<longleftrightarrow> p mod ds_align ds = 0"

lemma rounddown_aligned: "rounddown a n mod n = 0"
  by (simp add: rounddown_def minus_mod_eq_mult_div)

lemma rounddown_pos: "0 < n \<Longrightarrow> n \<le> a \<Longrightarrow> 0 < rounddown a n"
  by (simp add: rounddown_def) (meson mod_less_divisor order.strict_trans2)

lemma rounddown_zero: "a < n \<Longrightarrow> rounddown a n = 0"
  by (simp add: rounddown_def)

text \<open>The size of a full piece, and what a call delivers in terms of it.\<close>

definition def_size :: "defsplitter_state \<Rightarrow> nat \<Rightarrow> nat" where
  "def_size ds ncores = rounddown (ds_data_size ds div def_nsplits ds ncores) (ds_align ds)"

lemma defsplitter_step:
  assumes "ds_split_pos ds < ds_data_size ds" "0 < def_nsplits ds ncores" "0 < ds_align ds"
  shows "defsplitter ds ncores =
    Inr (Some (ds_split_pos ds, min (def_size ds ncores) (ds_data_size ds - ds_split_pos ds)),
         ds\<lparr>ds_nsplits := def_nsplits ds ncores, ds_split_pos := ds_split_pos ds + def_size ds ncores\<rparr>)"
  using assms by (auto simp: defsplitter_def def_size_def def_nsplits_def Let_def)

interpretation defsp: progress_splitter defsplitter ncores "def_good ncores" def_pos ds_data_size def_ends
  for ncores
proof unfold_locales
  fix s assume "def_good ncores s" "ds_data_size s \<le> def_pos s"
  then show "succeeds (defsplitter s ncores) (\<lambda>(r, s'). r = None)"
    by (simp add: defsplitter_def def_pos_def)
next
  fix s assume s: "def_good ncores s" "def_pos s < ds_data_size s"
  then have pos: "def_pos s = ds_split_pos s" "ds_split_pos s < ds_data_size s"
    by (auto simp: def_pos_def min_def split: if_splits)
  have n: "def_nsplits (s\<lparr>ds_nsplits := def_nsplits s ncores, ds_split_pos := p\<rparr>) ncores = def_nsplits s ncores" for p
    by (simp add: def_nsplits_def)
  have aligned: "(ds_split_pos s + def_size s ncores) mod ds_align s = 0"
    using s(1) rounddown_aligned by (simp add: def_good_def def_size_def mod_add_eq [symmetric])
  have "0 < def_size s ncores" using s(1) by (simp add: def_good_def def_size_def rounddown_pos)
  then show "succeeds (defsplitter s ncores) (\<lambda>(r, s'). case r of None \<Rightarrow> False
      | Some (a, l) \<Rightarrow> a = def_pos s \<and> 0 < l \<and> def_pos s' = def_pos s + l \<and> def_pos s' \<le> ds_data_size s \<and>
          ds_data_size s' = ds_data_size s \<and> def_good ncores s' \<and> def_ends s' = def_ends s \<and> def_ends s (def_pos s'))"
    using s(1) pos n aligned
    by (subst defsplitter_step) (auto simp: def_good_def def_pos_def def_ends_def fun_eq_iff min_def)
qed

text \<open>
  With fewer aligned units than splits the piece size is rounded to 0, the position never moves and
  the pre-splitter runs forever.
\<close>

lemma defsplitter_stuck:
  assumes "ds_split_pos ds < ds_data_size ds" "0 < def_nsplits ds ncores" "0 < ds_align ds"
    and "def_size ds ncores = 0"
  shows "presplit_loop defsplitter ncores ds ma = None"
proof (rule presplit_loop_diverges [where Q = "\<lambda>ds. ds_split_pos ds < ds_data_size ds \<and>
    0 < def_nsplits ds ncores \<and> 0 < ds_align ds \<and> def_size ds ncores = 0"])
  fix s assume s: "ds_split_pos s < ds_data_size s \<and> 0 < def_nsplits s ncores \<and> 0 < ds_align s \<and>
    def_size s ncores = 0"
  then show "\<exists>x s'. defsplitter s ncores = Inr (Some x, s') \<and> ds_split_pos s' < ds_data_size s' \<and>
      0 < def_nsplits s' ncores \<and> 0 < ds_align s' \<and> def_size s' ncores = 0"
    by (subst defsplitter_step) (auto simp: def_size_def def_nsplits_def)
qed (use assms in blast)

section \<open>Handing out the splits\<close>

text \<open>
  The workers' calls, in the order of their atomic increments: whatever the interleaving, the first
  \<open>nsplits\<close> calls get the splits, each once, and all later ones get none.
\<close>

fun presplitter_calls :: "nat \<Rightarrow> presplitter_state \<Rightarrow> (split option list \<times> presplitter_state) res" where
  "presplitter_calls 0 ps = Inr ([], ps)"
| "presplitter_calls (Suc n) ps =
     res_bind (presplitter ps) (\<lambda>(r, ps').
     res_bind (presplitter_calls n ps') (\<lambda>(rs, ps''). Inr (r # rs, ps'')))"

lemma s32_small [simp]: "- (2 ^ 31) \<le> i \<Longrightarrow> i < 2 ^ 31 \<Longrightarrow> s32 i = i"
  by (simp add: s32_def)

lemma presplitter_calls_from:
  assumes "ps_idx ps = int i" "ps_nsplits ps \<le> length (ps_ma ps)" "i + n < 2 ^ 31"
  shows "presplitter_calls n ps =
    Inr (map (\<lambda>j. if j < ps_nsplits ps then Some (ps_ma ps ! j) else None) [i..<i + n],
         ps\<lparr>ps_idx := int (i + n)\<rparr>)"
  using assms
proof (induction n arbitrary: ps i)
  case 0
  then show ?case by (simp add: presplitter_state.equality)
next
  case (Suc n)
  have m: "int i mod 2 ^ 64 = int i" using Suc.prems(3) by simp
  have "presplitter ps = Inr (if i < ps_nsplits ps then Some (ps_ma ps ! i) else None,
      ps\<lparr>ps_idx := int (Suc i)\<rparr>)"
    using Suc.prems by (auto simp: presplitter_def Let_def m)
  with Suc.IH [of "ps\<lparr>ps_idx := int (Suc i)\<rparr>" "Suc i"] Suc.prems show ?case
    by (simp add: upt_rec [of i "Suc (i + n)"] del: upt_Suc)
qed

section \<open>Main results\<close>

text \<open>C21. Running the default splitter over data that is at least \<^verbatim>\<open>align\<close> bytes per split
  ends, and yields consecutive nonempty splits from the first byte to the last, each ending at a
  multiple of the alignment.\<close>

theorem defsplitter_covers:
  assumes "defsplitter_init sz n align = Inr ds" "0 < def_nsplits ds ncores"
    and "align \<le> sz div def_nsplits ds ncores"
  shows "\<exists>ps. presplitter_init defsplitter ds ncores = Some (Inr ps) \<and> ps_nsplits ps = length (ps_ma ps) \<and>
    chain (\<lambda>p. p mod align = 0) 0 sz (ps_ma ps)"
proof -
  have ds: "ds = \<lparr>ds_split_pos = 0, ds_data_size = sz, ds_nsplits = n, ds_align = align\<rparr>"
    "0 < align" "sz mod align = 0"
    using assms(1) by (auto simp: defsplitter_init_def split: if_splits)
  then have "0 < sz" using assms(3) by (cases sz) auto
  with ds assms(2,3) show ?thesis
    using defsp.presplitter_init_covers [of ncores ds]
    by (auto simp: def_good_def def_pos_def def_ends_def [abs_def])
qed

theorem defsplitter_covers_witness:
  "\<exists>ps. presplitter_init defsplitter
      \<lparr>ds_split_pos = 0, ds_data_size = 21, ds_nsplits = 3, ds_align = 3\<rparr> 2 = Some (Inr ps) \<and>
    ps_nsplits ps = length (ps_ma ps) \<and> chain (\<lambda>p. p mod 3 = 0) 0 21 (ps_ma ps)"
  using defsplitter_covers [of 21 3 3 "\<lparr>ds_split_pos = 0, ds_data_size = 21, ds_nsplits = 3, ds_align = 3\<rparr>" 2]
  by (simp add: defsplitter_init_def def_nsplits_def)

text \<open>C24. When the data has fewer bytes per split than the alignment, the default splitter returns
  empty splits forever and the setup of the map phase never ends.\<close>

theorem defsplitter_small_input_diverges:
  assumes "defsplitter_init sz n align = Inr ds" "0 < sz" "0 < def_nsplits ds ncores"
    and "sz div def_nsplits ds ncores < align"
  shows "presplitter_init defsplitter ds ncores = None"
proof -
  have "ds = \<lparr>ds_split_pos = 0, ds_data_size = sz, ds_nsplits = n, ds_align = align\<rparr>" "0 < align"
    using assms(1) by (auto simp: defsplitter_init_def split: if_splits)
  with assms(2-4) have "presplit_loop defsplitter ncores ds [] = None"
    by (intro defsplitter_stuck) (auto simp: def_size_def rounddown_zero)
  then show ?thesis by (simp add: presplitter_init_def)
qed

theorem defsplitter_small_input_diverges_witness:
  "presplitter_init defsplitter
     \<lparr>ds_split_pos = 0, ds_data_size = 9, ds_nsplits = 0, ds_align = 3\<rparr> 1 = None"
  using defsplitter_small_input_diverges
    [of 9 0 3 "\<lparr>ds_split_pos = 0, ds_data_size = 9, ds_nsplits = 0, ds_align = 3\<rparr>" 1]
  by (simp add: defsplitter_init_def def_nsplits_def def_nsplits_per_core_def)

text \<open>C22. Whatever the order in which the workers ask, the pre-splitter hands out every split exactly
  once, in order, and nothing after the last one.\<close>

theorem presplitter_hands_out_once:
  assumes "ps_idx ps = 0" "ps_nsplits ps = length (ps_ma ps)" "length (ps_ma ps) \<le> n" "n < 2 ^ 31"
  shows "\<exists>ps'. presplitter_calls n ps =
    Inr (map Some (ps_ma ps) @ replicate (n - length (ps_ma ps)) None, ps')"
proof -
  have "map (\<lambda>j. if j < length (ps_ma ps) then Some (ps_ma ps ! j) else None) [0..<n] =
      map Some (ps_ma ps) @ replicate (n - length (ps_ma ps)) None"
    using assms(3) by (intro nth_equalityI) (auto simp: nth_append)
  with presplitter_calls_from [of ps 0 n] assms show ?thesis by simp
qed

theorem presplitter_hands_out_once_witness:
  "\<exists>ps'. presplitter_calls 4 \<lparr>ps_ma = [(0, 5), (5, 3)], ps_idx = 0, ps_nsplits = 2,
      ps_nsplits_bak = 0, ps_ma_bak = []\<rparr> = Inr ([Some (0, 5), Some (5, 3)] @ replicate 2 None, ps')"
  using presplitter_hands_out_once [of "\<lparr>ps_ma = [(0, 5), (5, 3)], ps_idx = 0, ps_nsplits = 2,
      ps_nsplits_bak = 0, ps_ma_bak = []\<rparr>" 4]
  by simp

text \<open>C23. Sampling on the first \<open>ntasks\<close> splits and resetting restores the pre-splitter: all
  splits are handed out again from the first.\<close>

theorem presplitter_sample_reset:
  assumes "ps_nsplits ps = length (ps_ma ps)" "ntasks \<le> ps_nsplits ps"
    and "ps_idx ps = 0" "length (ps_ma ps) < 2 ^ 31" "k < 2 ^ 31"
  shows "succeeds (presplitter_prep_sample ps ntasks) (\<lambda>ps1. succeeds (presplitter_calls k ps1) (\<lambda>(out, ps2).
    out = map (\<lambda>j. if j < ntasks then Some (ps_ma ps ! j) else None) [0..<k] \<and>
    ps_ma (presplitter_reset ps2) = ps_ma ps \<and> ps_nsplits (presplitter_reset ps2) = ps_nsplits ps \<and>
    ps_idx (presplitter_reset ps2) = 0))"
  using assms
  by (auto simp: presplitter_prep_sample_def presplitter_reset_def presplitter_calls_from [of _ 0])

theorem presplitter_sample_reset_witness:
  "succeeds (presplitter_prep_sample \<lparr>ps_ma = [(0, 5), (5, 3), (8, 2)], ps_idx = 0, ps_nsplits = 3,
      ps_nsplits_bak = 0, ps_ma_bak = []\<rparr> 1) (\<lambda>ps1. succeeds (presplitter_calls 2 ps1) (\<lambda>(out, ps2).
    out = map (\<lambda>j. if j < 1 then Some ([(0, 5), (5, 3), (8, 2)] ! j) else None) [0..<2] \<and>
    ps_ma (presplitter_reset ps2) = [(0, 5), (5, 3), (8, 2)] \<and> ps_nsplits (presplitter_reset ps2) = 3 \<and>
    ps_idx (presplitter_reset ps2) = 0))"
  using presplitter_sample_reset [of "\<lparr>ps_ma = [(0, 5), (5, 3), (8, 2)], ps_idx = 0, ps_nsplits = 3,
      ps_nsplits_bak = 0, ps_ma_bak = []\<rparr>" 1 2]
  by (simp cong: if_cong)

end
