(* ===== verification/App_Wc.thy ===== *)
theory App_Wc
  imports C_String Splitter Value_Helper
begin

text \<open>
  Word count (\<^verbatim>\<open>metis/app/wc.c\<close>): the splitter that cuts the input at white space, the map
  function that scans a split for words, the value modifier, combiner and reduce function that add
  up occurrences, and the key callbacks. The environment \<open>wc_env\<close> is what
  \<^verbatim>\<open>do_mapreduce\<close> hands to the library.
\<close>

section \<open>The callbacks\<close>

definition mystrcmp :: "string \<Rightarrow> string \<Rightarrow> int" where
  "mystrcmp s1 s2 = c_strcmp s1 s2"

record wc_data =
  fpos :: nat
  flen :: nat
  fdata :: string
  nsplits :: nat

definition wc_delim :: "char \<Rightarrow> bool" where
  "wc_delim c \<longleftrightarrow> c = CHR '' '' \<or> c = CHR 0x09 \<or> c = CHR 0x0D \<or> c = CHR 0x0A \<or> c = nul"

text \<open>The loop that moves the end of a split to the next delimiter.\<close>

function wc_to_delim :: "string \<Rightarrow> nat \<Rightarrow> nat \<Rightarrow> nat" where
  "wc_to_delim dat len pos =
     (if pos < len \<and> \<not> wc_delim (dat ! pos) then wc_to_delim dat len (pos + 1) else pos)"
  by auto

termination
  by (relation "measure (\<lambda>(dat, len, pos). len - pos)") auto

declare wc_to_delim.simps [simp del]

text \<open>
  One call of the splitter: \<open>None\<close> at the end of the data, otherwise the position and length
  of the split and the state after it. The number of splits is set on the first call.
\<close>

definition wordcount_splitter :: "wc_data \<Rightarrow> nat \<Rightarrow> ((nat \<times> nat) option \<times> wc_data) res" where
  "wordcount_splitter d0 ncores =
     (let d = (if nsplits d0 = 0 then d0\<lparr>nsplits := ncores * def_nsplits_per_core\<rparr> else d0) in
      if nsplits d = 0 then Inl Div_by_zero
      else if flen d \<le> fpos d then Inr (None, d)
      else
        let split_size = flen d div nsplits d;
            len0 = (if flen d < fpos d + split_size then flen d - fpos d else split_size);
            stop = wc_to_delim (fdata d) (flen d) (fpos d + len0)
        in Inr (Some (fpos d, stop - fpos d), d\<lparr>fpos := stop\<rparr>))"

datatype wc_state = IN_WORD | NOT_IN_WORD

definition max_key_len :: nat where
  "max_key_len = 256"

definition is_AZ :: "char \<Rightarrow> bool" where
  "is_AZ c \<longleftrightarrow> (65::nat) \<le> of_char c \<and> of_char c \<le> (90::nat)"

definition is_word_char :: "char \<Rightarrow> bool" where
  "is_word_char c \<longleftrightarrow> is_AZ c \<or> c = CHR 0x27"

text \<open>
  The scan of a split. \<open>key\<close> is the filled part of \<^verbatim>\<open>tmp_key\<close> and its length is
  \<^verbatim>\<open>ilen\<close>; the result lists the pairs emitted, each with its key length.
\<close>

fun wc_scan :: "string \<Rightarrow> wc_state \<Rightarrow> string \<Rightarrow> (string \<times> 64 word \<times> nat) list res" where
  "wc_scan [] st key = Inr (if st = IN_WORD then [(key, 1, length key)] else [])"
| "wc_scan (c # dat) IN_WORD key =
     (let curr_ltr = c_toupper c in
      if \<not> is_word_char curr_ltr then
        res_bind (wc_scan dat NOT_IN_WORD key) (\<lambda>out. Inr ((key, 1, length key) # out))
      else c_assert (length key + 1 < max_key_len) (wc_scan dat IN_WORD (key @ [curr_ltr])))"
| "wc_scan (c # dat) NOT_IN_WORD key =
     (let curr_ltr = c_toupper c in
      if is_AZ curr_ltr then wc_scan dat IN_WORD [curr_ltr] else wc_scan dat NOT_IN_WORD key)"

definition wordcount_map :: "string \<Rightarrow> (string \<times> 64 word \<times> nat) list res" where
  "wordcount_map dat = wc_scan dat NOT_IN_WORD []"

definition wordcount_reduce :: "string \<Rightarrow> 64 word list \<Rightarrow> (string \<times> 64 word) list" where
  "wordcount_reduce key_in vals = [(key_in, foldl (+) 0 vals)]"

definition wordcount_combine :: "string \<Rightarrow> 64 word list \<Rightarrow> 64 word list \<times> nat" where
  "wordcount_combine key_in vals =
     (case vals of [] \<Rightarrow> ([], 1) | v # vs \<Rightarrow> (foldl (+) v vs # vs, 1))"

definition wordcount_vm :: "64 word option \<Rightarrow> 64 word \<Rightarrow> bool \<Rightarrow> 64 word" where
  "wordcount_vm oldv newv isnew =
     (if isnew then newv else (case oldv of None \<Rightarrow> 0 | Some v \<Rightarrow> v) + newv)"

definition wc_keycopy :: "string \<Rightarrow> nat \<Rightarrow> string" where
  "wc_keycopy src s = take s src"

text \<open>The order of the output: by falling count, then by word.\<close>

definition wc_out_cmp :: "(string, 64 word) keyval \<Rightarrow> (string, 64 word) keyval \<Rightarrow> int" where
  "wc_out_cmp kv1 kv2 =
     (if kv_val kv1 < kv_val kv2 then 1
      else if kv_val kv2 < kv_val kv1 then - 1
      else c_strcmp (kv_key kv1) (kv_key kv2))"

text \<open>The total that the report prints, and the pairs it lists.\<close>

definition wc_print_top :: "(string, 64 word) keyval list \<Rightarrow> nat \<Rightarrow> 64 word \<times> (string \<times> nat) list" where
  "wc_print_top wc_vals ndisp =
     (foldl (\<lambda>n kv. n + kv_val kv) 0 wc_vals,
      map (\<lambda>kv. (kv_key kv, unat (kv_val kv) mod 2 ^ 32)) (take (min ndisp (length wc_vals)) wc_vals))"

text \<open>
  The environment set up by \<^verbatim>\<open>do_mapreduce\<close>; \<open>with_vm\<close> is the compile-time choice
  between the value modifier and the reduce function with its combiner (it is 1 in the source).
\<close>

definition wc_env :: "bool \<Rightarrow> (string, 64 word) env" where
  "wc_env with_vm =
     \<lparr>atype = Atype_mapreduce,
      vm = (if with_vm then Some wordcount_vm else None),
      combiner = (if with_vm then None else Some wordcount_combine),
      reduce_func = (if with_vm then None else Some wordcount_reduce),
      keycmp = mystrcmp, mrkeycopy = Some wc_keycopy, null_key = []\<rparr>"

lemma wc_env_simps [simp]:
  "atype (wc_env b) = Atype_mapreduce" "keycmp (wc_env b) = mystrcmp"
  "vm (wc_env b) = (if b then Some wordcount_vm else None)"
  "combiner (wc_env b) = (if b then None else Some wordcount_combine)"
  "reduce_func (wc_env b) = (if b then None else Some wordcount_reduce)"
  "mrkeycopy (wc_env b) = Some wc_keycopy" "null_key (wc_env b) = []"
  by (simp_all add: wc_env_def)

section \<open>The callbacks keep the library's contracts\<close>

lemma mystrcmp_comparator: "comparator mystrcmp"
  using str.comparator_axioms by (simp add: mystrcmp_def [abs_def])

interpretation wc: mr_env "wc_env b" for b
  by (rule mr_env.intro) (simp add: mystrcmp_comparator)

lemma foldl_plus: "foldl (+) (a :: 64 word) xs = a + sum_list xs"
  by (induction xs arbitrary: a) (simp_all add: add.assoc)

interpretation wc_sum: value_summary "wc_env b" sum_list for b
  by unfold_locales
    (auto simp: wordcount_combine_def wordcount_vm_def foldl_plus split: if_splits list.splits)

lemma keycopy_ok_wc: "length k \<le> n \<Longrightarrow> keycopy_ok (wc_env b) k n"
  by (simp add: keycopy_ok_def copy_key_def wc_keycopy_def wc.kc.cmp_refl [simplified])

section \<open>Words\<close>

text \<open>
  The reference: a word is a letter followed by letters and apostrophes, as long as possible;
  \<open>words\<close> lists the words of a text in upper case.
\<close>

lemma length_dropWhile_tail: "dropWhile P s = c # cs \<Longrightarrow> length (dropWhile Q cs) < length s"
  using length_dropWhile_le [of P s] length_dropWhile_le [of Q cs] by simp

function words :: "string \<Rightarrow> string list" where
  "words s =
     (case dropWhile (\<lambda>c. \<not> is_AZ c) s of
        [] \<Rightarrow> []
      | c # cs \<Rightarrow> (c # takeWhile is_word_char cs) # words (dropWhile is_word_char cs))"
  by auto

termination
  by (relation "measure length") (simp_all only: in_measure wf_measure length_dropWhile_tail)

declare words.simps [simp del]

lemma words_Nil [simp]: "words [] = []"
  by (subst words.simps) simp

lemma words_Cons:
  "words (c # s) =
     (if is_AZ c then (c # takeWhile is_word_char s) # words (dropWhile is_word_char s) else words s)"
  by (subst words.simps, subst (3) words.simps) simp

text \<open>The scan, between words and in the middle of one whose letters so far are \<open>k\<close>.\<close>

abbreviation emits :: "string list \<Rightarrow> (string \<times> 64 word \<times> nat) list" where
  "emits ws \<equiv> map (\<lambda>w. (w, 1, length w)) ws"

lemma wc_scan_words:
  defines "short ws \<equiv> \<forall>w \<in> set ws. length w < max_key_len"
  shows "let u = map c_toupper s in
    case st of
      NOT_IN_WORD \<Rightarrow> short (words u) \<longrightarrow> wc_scan s st k = Inr (emits (words u))
    | IN_WORD \<Rightarrow>
        let ws = (k @ takeWhile is_word_char u) # words (dropWhile is_word_char u)
        in short ws \<longrightarrow> wc_scan s st k = Inr (emits ws)"
proof (induction s st k rule: wc_scan.induct)
  case (2 c dat key)
  then show ?case by (auto simp: Let_def short_def words_Cons is_word_char_def)
next
  case (3 c dat key)
  then show ?case by (auto simp: Let_def short_def words_Cons)
qed (simp add: short_def split: wc_state.split)

lemma words_append:
  assumes "b = [] \<or> \<not> is_word_char (hd b)"
  shows "words (a @ b) = words a @ words b"
proof (induction "length a" arbitrary: a rule: less_induct)
  case less
  show ?case
  proof (cases a)
    case (Cons c cs)
    let ?d = "dropWhile is_word_char cs"
    have t: "takeWhile is_word_char (cs @ b) = takeWhile is_word_char cs"
      "dropWhile is_word_char (cs @ b) = ?d @ b"
      using assms by (induction cs) (cases b; auto)+
    have "words (?d @ b) = words ?d @ words b" "words (cs @ b) = words cs @ words b"
      using less [of ?d] less [of cs] Cons length_dropWhile_le [of is_word_char cs] by simp_all
    with Cons t show ?thesis by (simp add: words_Cons)
  qed simp
qed

section \<open>The splitter cuts between words\<close>

lemma wc_delim_not_word: "wc_delim c \<Longrightarrow> \<not> is_word_char (c_toupper c)"
  by (auto simp: wc_delim_def is_word_char_def is_AZ_def c_toupper_def)

lemma wc_to_delim_ok:
  assumes "pos \<le> len"
  shows "let p = wc_to_delim dat len pos in pos \<le> p \<and> p \<le> len \<and> (p = len \<or> wc_delim (dat ! p))"
  unfolding Let_def using assms
proof (induction dat len pos rule: wc_to_delim.induct)
  case (1 dat len pos)
  show ?case
  proof (cases "pos < len \<and> \<not> wc_delim (dat ! pos)")
    case True
    with 1 have "wc_to_delim dat len pos = wc_to_delim dat len (pos + 1)"
      by (subst wc_to_delim.simps) simp
    with True 1 show ?thesis by simp
  next
    case False
    then have "wc_to_delim dat len pos = pos" by (subst wc_to_delim.simps) auto
    with False 1 show ?thesis by auto
  qed
qed

definition wc_nsplits :: "wc_data \<Rightarrow> nat \<Rightarrow> nat" where
  "wc_nsplits d ncores = (if nsplits d = 0 then ncores * def_nsplits_per_core else nsplits d)"

definition wc_good :: "nat \<Rightarrow> wc_data \<Rightarrow> bool" where
  "wc_good ncores d \<longleftrightarrow> 0 < wc_nsplits d ncores \<and> wc_nsplits d ncores \<le> flen d"

definition wc_ends :: "wc_data \<Rightarrow> nat \<Rightarrow> bool" where
  "wc_ends d p \<longleftrightarrow> p = flen d \<or> p < flen d \<and> wc_delim (fdata d ! p)"

text \<open>One call, in terms of the number of splits in force.\<close>

lemma wordcount_splitter_step:
  assumes "fpos d < flen d" "0 < wc_nsplits d ncores"
  defines "stop \<equiv> wc_to_delim (fdata d) (flen d) (min (flen d) (fpos d + flen d div wc_nsplits d ncores))"
  shows "wordcount_splitter d ncores =
    Inr (Some (fpos d, stop - fpos d), d\<lparr>nsplits := wc_nsplits d ncores, fpos := stop\<rparr>)"
  using assms by (auto simp: wordcount_splitter_def wc_nsplits_def Let_def min_def)

interpretation wcsp: progress_splitter wordcount_splitter ncores "wc_good ncores" fpos flen wc_ends
  for ncores
proof unfold_locales
  fix s assume "wc_good ncores s" "flen s \<le> fpos s"
  then show "succeeds (wordcount_splitter s ncores) (\<lambda>(r, s'). r = None)"
    by (auto simp: wordcount_splitter_def wc_good_def wc_nsplits_def Let_def)
next
  fix s assume s: "wc_good ncores s" "fpos s < flen s"
  define p where "p = min (flen s) (fpos s + flen s div wc_nsplits s ncores)"
  define stop where "stop = wc_to_delim (fdata s) (flen s) p"
  have "0 < flen s div wc_nsplits s ncores" using s(1) by (simp add: wc_good_def div_greater_zero_iff)
  then have "fpos s < p" "p \<le> flen s" using s(2) by (auto simp: p_def)
  then have stop: "fpos s < stop" "stop \<le> flen s" "stop = flen s \<or> wc_delim (fdata s ! stop)"
    using wc_to_delim_ok [of p "flen s" "fdata s"] by (auto simp: stop_def Let_def)
  have "wordcount_splitter s ncores = Inr (Some (fpos s, stop - fpos s),
      s\<lparr>nsplits := wc_nsplits s ncores, fpos := stop\<rparr>)"
    using s wordcount_splitter_step [of s ncores] by (simp add: wc_good_def stop_def p_def)
  with s stop show "succeeds (wordcount_splitter s ncores) (\<lambda>(r, s'). case r of None \<Rightarrow> False
      | Some (a, l) \<Rightarrow> a = fpos s \<and> 0 < l \<and> fpos s' = fpos s + l \<and> fpos s' \<le> flen s \<and>
          flen s' = flen s \<and> wc_good ncores s' \<and> wc_ends s' = wc_ends s \<and> wc_ends s (fpos s'))"
    by (auto simp: wc_good_def wc_nsplits_def wc_ends_def fun_eq_iff)
qed

text \<open>Cut at such positions, a text has the words of its splits, one after the other.\<close>

lemma words_chain:
  assumes "chain (wc_ends d) p (flen d) xs" "flen d = length (fdata d)" "p \<le> flen d"
  shows "words (map c_toupper (drop p (fdata d))) =
    concat (map (\<lambda>(a, l). words (map c_toupper (take l (drop a (fdata d))))) xs)"
  using assms
proof (induction "wc_ends d" p "flen d" xs rule: chain.induct)
  case (2 p a l xs)
  let ?rest = "drop (p + l) (fdata d)"
  have "p + l \<le> flen d" using 2(2) by (auto simp: wc_ends_def)
  then have IH: "words (map c_toupper ?rest) =
      concat (map (\<lambda>(a, l). words (map c_toupper (take l (drop a (fdata d))))) xs)" using 2 by auto
  have "?rest = [] \<or> \<not> is_word_char (c_toupper (hd ?rest))"
    using 2(2,3) by (auto simp: wc_ends_def hd_drop_conv_nth wc_delim_not_word)
  then have "map c_toupper ?rest = [] \<or> \<not> is_word_char (hd (map c_toupper ?rest))"
    by (auto simp: hd_map)
  from words_append [OF this, of "map c_toupper (take l (drop p (fdata d)))"]
  have "words (map c_toupper (drop p (fdata d))) =
      words (map c_toupper (take l (drop p (fdata d)))) @ words (map c_toupper ?rest)"
    by (metis append_take_drop_id add.commute drop_drop map_append)
  with IH 2(2) show ?case by auto
qed simp

section \<open>Main results\<close>

text \<open>The map function of word count emits exactly the words of its split, in upper case and in
  order, each with the value 1 and its length, as long as no word has 256 characters or more.\<close>

theorem wordcount_map_words:
  assumes "\<forall>w \<in> set (words (map c_toupper s)). length w < max_key_len"
  shows "wordcount_map s = Inr (map (\<lambda>w. (w, 1, length w)) (words (map c_toupper s)))"
  using wc_scan_words [where s = s and st = NOT_IN_WORD] assms by (simp add: wordcount_map_def Let_def)

theorem wordcount_map_words_witness:
  "wordcount_map ''It's 2 late'' = Inr [(''IT'' @ [CHR 0x27] @ ''S'', 1, 4), (''LATE'', 1, 4)]"
proof -
  have "words (map c_toupper ''It's 2 late'') = [''IT'' @ [CHR 0x27] @ ''S'', ''LATE'']" by code_simp
  with wordcount_map_words [of "''It's 2 late''"] show ?thesis by (simp add: max_key_len_def)
qed

text \<open>C33. Cutting the input with the word count splitter loses no word and breaks none: the words of
  the splits, one split after the other, are the words of the input.\<close>

theorem wordcount_splits_words:
  assumes "fpos d = 0" "flen d = length (fdata d)"
    and "0 < wc_nsplits d ncores" "wc_nsplits d ncores \<le> flen d"
  shows "\<exists>ps. presplitter_init wordcount_splitter d ncores = Some (Inr ps) \<and>
    concat (map (\<lambda>(a, l). words (map c_toupper (take l (drop a (fdata d))))) (ps_ma ps)) =
    words (map c_toupper (fdata d))"
proof -
  obtain ps where ps: "presplitter_init wordcount_splitter d ncores = Some (Inr ps)"
    "chain (wc_ends d) 0 (flen d) (ps_ma ps)"
    using wcsp.presplitter_init_covers [of ncores d] assms by (fastforce simp: wc_good_def)
  with words_chain [OF ps(2) assms(2)] show ?thesis by simp
qed

theorem wordcount_splits_words_witness:
  "\<exists>ps. presplitter_init wordcount_splitter
      \<lparr>fpos = 0, flen = 9, fdata = ''ab cd efg'', nsplits = 2\<rparr> 1 = Some (Inr ps) \<and>
    concat (map (\<lambda>(a, l). words (map c_toupper (take l (drop a ''ab cd efg'')))) (ps_ma ps)) =
    [''AB'', ''CD'', ''EFG'']"
proof -
  have "words (map c_toupper ''ab cd efg'') = [''AB'', ''CD'', ''EFG'']" by code_simp
  with wordcount_splits_words [of "\<lparr>fpos = 0, flen = 9, fdata = ''ab cd efg'', nsplits = 2\<rparr>" 1]
  show ?thesis by (simp add: wc_nsplits_def)
qed

text \<open>C34. On an input with fewer bytes than splits, the splitter is stuck at the first delimiter it
  stands on: it returns empty splits forever and the map phase is never reached.\<close>

theorem wordcount_small_input_diverges:
  assumes "fpos d < flen d" "flen d < wc_nsplits d ncores" "wc_delim (fdata d ! fpos d)"
  shows "presplit_loop wordcount_splitter ncores d ma = None"
proof (rule presplit_loop_diverges [where Q = "\<lambda>d. fpos d < flen d \<and> flen d < wc_nsplits d ncores \<and>
    wc_delim (fdata d ! fpos d)"])
  fix s assume s: "fpos s < flen s \<and> flen s < wc_nsplits s ncores \<and> wc_delim (fdata s ! fpos s)"
  then have stop: "wc_to_delim (fdata s) (flen s) (fpos s) = fpos s"
    by (subst wc_to_delim.simps) simp
  have "wordcount_splitter s ncores = Inr (Some (fpos s, 0), s\<lparr>nsplits := wc_nsplits s ncores, fpos := fpos s\<rparr>)"
    using s by (subst wordcount_splitter_step) (auto simp: stop)
  with s show "\<exists>x s'. wordcount_splitter s ncores = Inr (Some x, s') \<and> fpos s' < flen s' \<and>
      flen s' < wc_nsplits s' ncores \<and> wc_delim (fdata s' ! fpos s')"
    by (auto simp: wc_nsplits_def)
qed (use assms in simp)

theorem wordcount_small_input_diverges_witness:
  "presplit_loop wordcount_splitter 1 \<lparr>fpos = 0, flen = 3, fdata = '' ab'', nsplits = 0\<rparr> [] = None"
  using wordcount_small_input_diverges [of "\<lparr>fpos = 0, flen = 3, fdata = '' ab'', nsplits = 0\<rparr>" 1]
  by (simp add: wc_nsplits_def def_nsplits_per_core_def wc_delim_def)

end
