(* ===== verification/Reduce.thy ===== *)
theory Reduce
  imports Kvs_Array Kv_Arrays App_Wc
begin

text \<open>
  Reducing or grouping (\<^verbatim>\<open>metis/lib/reduce.c\<close>): \<open>reduce_or_groupkvs\<close> merges the rows of
  a bucket, each a collection of grouped pairs in key order, and calls the reduce function (or
  emits the group) once per key; \<open>reduce_or_groupkv\<close> does it for rows of ungrouped pairs, by
  sorting. What goes to the reduce buckets is the list of emitted pairs, in order.
\<close>

section \<open>Emitting one group\<close>

datatype ('k, 'v) emit = Emit_kv 'k 'v | Emit_kvs_len 'k "'v vals_ptr" nat

text \<open>
  The end of an iteration: what is emitted for the accumulated \<^verbatim>\<open>dst\<close>, and what is left in
  it. The values of a reduce call are reused, those of a group are owned by the output.
\<close>

definition vals_list :: "'v vals_ptr \<Rightarrow> nat \<Rightarrow> 'v list res" where
  "vals_list p n =
     (case p of
        VArr xs \<Rightarrow> if n \<le> length xs then Inr (take n xs) else Inl Out_of_bounds
      | _ \<Rightarrow> if n = 0 then Inr [] else Inl Null_deref)"

definition reduce_emit :: "('k, 'v) env \<Rightarrow> ('k, 'v) keyvals
    \<Rightarrow> (('k, 'v) emit list \<times> ('k, 'v) keyvals) res" where
  "reduce_emit e dst =
     (if atype e = Atype_mapreduce then
        (case vm e of
           Some f \<Rightarrow>
             (case vm_old (kvs_vals dst) of
                Some v \<Rightarrow> Inr ([Emit_kv (kvs_key dst) v], fresh_kvs (null_key e) 0)
              | None \<Rightarrow> Inl Null_deref)
         | None \<Rightarrow>
             (case reduce_func e of
                None \<Rightarrow> Inl Null_deref
              | Some rf \<Rightarrow>
                  res_bind (vals_list (kvs_vals dst) (kvs_len dst)) (\<lambda>vs.
                  Inr (map (\<lambda>(k, v). Emit_kv k v) (rf (kvs_key dst) vs), dst\<lparr>kvs_len := 0\<rparr>))))
      else Inr ([Emit_kvs_len (kvs_key dst) (kvs_vals dst) (kvs_len dst)], fresh_kvs (null_key e) 0))"

section \<open>Merging grouped rows\<close>

text \<open>
  A row is a collection with its iterator and the pair last delivered, \<open>None\<close> once
  \<^verbatim>\<open>ended\<close> is set. The scan for the minimum keeps the index and key of the best row, counts
  the improvements in \<open>m\<close> and marks each row that has the best key so far with the count.
\<close>

type_synonym ('c, 'i, 'k, 'v) row = "('c \<times> 'i \<times> ('k, 'v) keyvals) option"

fun find_min :: "('k \<Rightarrow> 'k \<Rightarrow> int) \<Rightarrow> 'k option list \<Rightarrow> nat \<Rightarrow> (nat \<times> 'k) option \<Rightarrow> nat \<Rightarrow> nat list
    \<Rightarrow> (nat \<times> 'k) option \<times> nat \<times> nat list" where
  "find_min cmp [] i best m marks = (best, m, marks)"
| "find_min cmp (None # ks) i best m marks = find_min cmp ks (i + 1) best m (marks @ [0])"
| "find_min cmp (Some k # ks) i best m marks =
     (let res = (case best of None \<Rightarrow> 0 | Some (_, k0) \<Rightarrow> cmp k0 k) in
      if best = None \<or> 0 < res then find_min cmp ks (i + 1) (Some (i, k)) (m + 1) (marks @ [m + 1])
      else if res = 0 then find_min cmp ks (i + 1) best m (marks @ [m])
      else find_min cmp ks (i + 1) best m (marks @ [0]))"

definition row_next :: "('c \<Rightarrow> 'i \<Rightarrow> bool \<Rightarrow> (('k, 'v) keyvals \<times> 'c \<times> 'i) option res) \<Rightarrow> 'c \<Rightarrow> 'i
    \<Rightarrow> ('c, 'i, 'k, 'v) row res" where
  "row_next it_next c i = res_bind (it_next c i True) (\<lambda>r.
     Inr (case r of None \<Rightarrow> None | Some (x, c', i') \<Rightarrow> Some (c', i', x)))"

definition row_start :: "('c \<Rightarrow> 'i option res) \<Rightarrow> ('c \<Rightarrow> 'i \<Rightarrow> bool \<Rightarrow> (('k, 'v) keyvals \<times> 'c \<times> 'i) option res)
    \<Rightarrow> 'c \<Rightarrow> ('c, 'i, 'k, 'v) row res" where
  "row_start it_begin it_next c =
     res_bind (it_begin c) (\<lambda>r.
     case r of None \<Rightarrow> Inr None | Some i \<Rightarrow> row_next it_next c i)"

fun res_map :: "('a \<Rightarrow> 'b res) \<Rightarrow> 'a list \<Rightarrow> 'b list res" where
  "res_map f [] = Inr []"
| "res_map f (x # xs) = res_bind (f x) (\<lambda>y. res_bind (res_map f xs) (\<lambda>ys. Inr (y # ys)))"

text \<open>The length needed for all the values of the marked rows.\<close>

definition needed_len :: "('c, 'i, 'k, 'v) row list \<Rightarrow> nat list \<Rightarrow> nat \<Rightarrow> nat" where
  "needed_len rows marks m =
     sum_list (map (\<lambda>(r, mk). if mk = m then (case r of None \<Rightarrow> 0 | Some (_, _, x) \<Rightarrow> kvs_len x) else 0)
       (zip rows marks))"

definition dst_reserve :: "('k, 'v) keyvals \<Rightarrow> nat \<Rightarrow> ('k, 'v) keyvals" where
  "dst_reserve dst n =
     (if kvs_alloc_len dst < n then dst\<lparr>kvs_vals := VArr [], kvs_alloc_len := n\<rparr> else dst)"

text \<open>Eating up the pairs of the marked rows.\<close>

fun eat_rows :: "('k, 'v) env \<Rightarrow> ('c \<Rightarrow> 'i \<Rightarrow> bool \<Rightarrow> (('k, 'v) keyvals \<times> 'c \<times> 'i) option res)
    \<Rightarrow> nat \<Rightarrow> nat list \<Rightarrow> ('c, 'i, 'k, 'v) row list \<Rightarrow> ('k, 'v) keyvals
    \<Rightarrow> (('k, 'v) keyvals \<times> ('c, 'i, 'k, 'v) row list) option res" where
  "eat_rows e nx m (mk # marks) (r # rows) dst =
     (if mk \<noteq> m then
        run_bind (eat_rows e nx m marks rows dst) (\<lambda>(dst', rows'). ret (dst', r # rows'))
      else case r of
        None \<Rightarrow> Inl Null_deref
      | Some (c, i, x) \<Rightarrow>
          run_bind (values_mv e dst x) (\<lambda>(dst1, _).
          run_bind (lift_res (row_next nx c i)) (\<lambda>r'.
          run_bind (eat_rows e nx m marks rows dst1) (\<lambda>(dst', rows'). ret (dst', r' # rows')))))"
| "eat_rows e nx m _ _ dst = ret (dst, [])"

text \<open>
  The loop. Each iteration takes at least one pair off the rows; the fuel bounds the number of
  iterations, and running out of it is a loop that does not end.
\<close>

fun reduce_rows :: "('k, 'v) env \<Rightarrow> ('c \<Rightarrow> 'i \<Rightarrow> bool \<Rightarrow> (('k, 'v) keyvals \<times> 'c \<times> 'i) option res)
    \<Rightarrow> nat \<Rightarrow> ('c, 'i, 'k, 'v) row list \<Rightarrow> ('k, 'v) keyvals \<Rightarrow> ('k, 'v) emit list option res" where
  "reduce_rows e nx 0 rows dst = Inr None"
| "reduce_rows e nx (Suc fuel) rows dst =
     (case find_min (keycmp e) (map (map_option (\<lambda>(c, i, x). kvs_key x)) rows) 0 None 0 [] of
        (None, m, marks) \<Rightarrow> ret []
      | (Some (min_idx, key), m, marks) \<Rightarrow>
          let dst1 = dst_reserve (dst\<lparr>kvs_key := key\<rparr>) (needed_len rows marks m) in
          run_bind (eat_rows e nx m marks rows dst1) (\<lambda>(dst2, rows').
          run_bind (lift_res (reduce_emit e dst2)) (\<lambda>(out, dst3).
          run_bind (reduce_rows e nx fuel rows' dst3) (\<lambda>outs. ret (out @ outs)))))"

definition reduce_or_groupkvs :: "('k, 'v) env \<Rightarrow> ('c \<Rightarrow> 'i option res)
    \<Rightarrow> ('c \<Rightarrow> 'i \<Rightarrow> bool \<Rightarrow> (('k, 'v) keyvals \<times> 'c \<times> 'i) option res) \<Rightarrow> nat \<Rightarrow> 'c list
    \<Rightarrow> ('k, 'v) emit list option res" where
  "reduce_or_groupkvs e it_begin it_next fuel nodes =
     run_bind (lift_res (res_map (row_start it_begin it_next) nodes)) (\<lambda>rows.
     reduce_rows e it_next fuel rows (fresh_kvs (null_key e) 0))"

section \<open>Sorting and grouping ungrouped rows\<close>

definition keyval_cmp :: "('k, 'v) env \<Rightarrow> ('k, 'v) keyval \<Rightarrow> ('k, 'v) keyval \<Rightarrow> int" where
  "keyval_cmp e kv1 kv2 = keycmp e (kv_key kv1) (kv_key kv2)"

fun insert_all :: "('k, 'v) env \<Rightarrow> ('k, 'v) keyvals \<Rightarrow> 'v list \<Rightarrow> ('k, 'v) keyvals res" where
  "insert_all e kvs [] = Inr kvs"
| "insert_all e kvs (v # vs) = res_bind (values_insert e kvs v) (\<lambda>kvs'. insert_all e kvs' vs)"

text \<open>
  The runs of equal keys in the sorted array: the first pair gives the key, the run extends while
  the keys compare equal to it. \<open>meth\<close> says whether the group goes to the callback
  \<^verbatim>\<open>meth\<close> (the result then lists the groups handed over) or to the reduce function.
\<close>

datatype ('k, 'v) gout = Out_group "('k, 'v) keyvals" | Out_emit "('k, 'v) emit"

function group_runs :: "('k, 'v) env \<Rightarrow> bool \<Rightarrow> ('k, 'v) keyvals \<Rightarrow> ('k, 'v) keyval list
    \<Rightarrow> ('k, 'v) gout list res" where
  "group_runs e meth kvs [] = Inr []"
| "group_runs e meth kvs (p # ps) =
     (let run = takeWhile (\<lambda>q. keycmp e (kv_key p) (kv_key q) = 0) ps;
          others = dropWhile (\<lambda>q. keycmp e (kv_key p) (kv_key q) = 0) ps in
      res_bind (insert_all e (kvs\<lparr>kvs_key := kv_key p\<rparr>) (map kv_val (p # run))) (\<lambda>kvs1.
      if meth then
        res_bind (group_runs e meth (fresh_kvs (null_key e) 0) others) (\<lambda>outs. Inr (Out_group kvs1 # outs))
      else
        c_assert (uses_vm e \<longrightarrow> kvs_len kvs1 = 1)
          (res_bind (reduce_emit e kvs1) (\<lambda>(out, kvs2).
           res_bind (group_runs e meth kvs2 others) (\<lambda>outs. Inr (map Out_emit out @ outs))))))"
  by pat_completeness auto
termination
  by (relation "measure (\<lambda>(e, meth, kvs, ps). length ps)") (auto simp: length_dropWhile_le le_imp_less_Suc)

text \<open>With one row its own array is sorted, with several the pairs are copied together first.\<close>

definition reduce_or_groupkv :: "('k, 'v) env \<Rightarrow>
    ((('k, 'v) keyval \<Rightarrow> ('k, 'v) keyval \<Rightarrow> int) \<Rightarrow> ('k, 'v) keyval list \<Rightarrow> ('k, 'v) keyval list)
    \<Rightarrow> bool \<Rightarrow> ('k, 'v) keyval parr list \<Rightarrow> ('k, 'v) gout list res" where
  "reduce_or_groupkv e qs meth nodes =
     res_bind (case nodes of [] \<Rightarrow> Inl Out_of_bounds | [a] \<Rightarrow> Inr (parr_elems a)
               | _ \<Rightarrow> Inr (concat (map (fst \<circ> kva_copy_kv) nodes))) (\<lambda>arr.
     group_runs e meth (fresh_kvs (null_key e) 0) (qs (keyval_cmp e) arr))"

section \<open>The scan for the minimum\<close>

text \<open>
  What the scan knows after some rows: without a row in play, nothing is marked; otherwise the best
  key is the key of its row, no row has a smaller one, and the mark \<open>m\<close> is on exactly the
  rows whose key compares equal to it.
\<close>

definition min_inv :: "('k \<Rightarrow> 'k \<Rightarrow> int) \<Rightarrow> 'k option list \<Rightarrow> (nat \<times> 'k) option \<Rightarrow> nat \<Rightarrow> nat list \<Rightarrow> bool" where
  "min_inv cmp ks best m marks \<longleftrightarrow> length marks = length ks \<and> (\<forall>j < length ks. marks ! j \<le> m) \<and>
     (case best of
        None \<Rightarrow> m = 0 \<and> (\<forall>j < length ks. ks ! j = None)
      | Some (i, k) \<Rightarrow> 0 < m \<and> i < length ks \<and> ks ! i = Some k \<and>
          (\<forall>j < length ks. \<forall>k'. ks ! j = Some k' \<longrightarrow> cmp k k' \<le> 0) \<and>
          (\<forall>j < length ks. marks ! j = m \<longleftrightarrow> (\<exists>k'. ks ! j = Some k' \<and> cmp k k' = 0)))"

lemma all_less_Suc_append:
  "(\<forall>j < length (xs @ [x]). P ((xs @ [x]) ! j) j) \<longleftrightarrow> (\<forall>j < length xs. P (xs ! j) j) \<and> P x (length xs)"
  by (auto simp: nth_append less_Suc_eq)

context comparator
begin

lemma min_inv_new:
  assumes inv: "min_inv cmp pre best m marks"
    and new: "best = None \<or> 0 < (case best of None \<Rightarrow> 0 | Some (_, k0) \<Rightarrow> cmp k0 k)"
  shows "min_inv cmp (pre @ [Some k]) (Some (length pre, k)) (m + 1) (marks @ [m + 1])"
proof -
  have less: "cmp k k' < 0" if "j < length pre" "pre ! j = Some k'" for j k'
  proof (cases best)
    case None
    with inv that show ?thesis by (simp add: min_inv_def)
  next
    case (Some b)
    then obtain i k0 where b: "best = Some (i, k0)" by (cases b) auto
    with inv that have "cmp k0 k' \<le> 0" by (auto simp: min_inv_def)
    moreover have "cmp k k0 < 0" using b new cmp_sym' by auto
    ultimately show ?thesis using cmp_less_le_trans by blast
  qed
  have marks: "length marks = length pre" "\<forall>j < length pre. marks ! j \<le> m"
    using inv by (auto simp: min_inv_def)
  then have "marks ! j \<noteq> Suc m" if "j < length pre" for j using that by fastforce
  with marks less show ?thesis
    by (fastforce simp: min_inv_def nth_append less_Suc_eq le_Suc_eq)
qed

lemma find_min_inv:
  assumes "min_inv cmp pre best m marks"
  shows "case find_min cmp ks (length pre) best m marks of
    (best', m', marks') \<Rightarrow> min_inv cmp (pre @ ks) best' m' marks'"
  using assms
proof (induction ks arbitrary: pre best m marks)
  case (Cons o_k ks)
  show ?case
  proof (cases o_k)
    case None
    have "min_inv cmp (pre @ [None]) best m (marks @ [0])"
      using Cons.prems by (auto simp: min_inv_def nth_append less_Suc_eq split: option.splits)
    from Cons.IH [OF this] None show ?thesis by simp
  next
    case (Some k)
    let ?res = "case best of None \<Rightarrow> 0 | Some (_, k0) \<Rightarrow> cmp k0 k"
    consider (new) "best = None \<or> 0 < ?res" | (same) i k0 where "best = Some (i, k0)" "cmp k0 k = 0"
      | (above) i k0 where "best = Some (i, k0)" "cmp k0 k < 0"
      by (cases best) (auto, linarith)
    then show ?thesis
    proof cases
      case new
      have "min_inv cmp (pre @ [Some k]) (Some (length pre, k)) (m + 1) (marks @ [m + 1])"
        by (rule min_inv_new [OF Cons.prems new])
      from Cons.IH [OF this] new Some show ?thesis by (simp add: Let_def)
    next
      case same
      then have "min_inv cmp (pre @ [Some k]) best m (marks @ [m])"
        using Cons.prems by (auto simp: min_inv_def nth_append less_Suc_eq)
      from Cons.IH [OF this] same Some show ?thesis by (simp add: Let_def)
    next
      case above
      then have "min_inv cmp (pre @ [Some k]) best m (marks @ [0])"
        using Cons.prems by (auto simp: min_inv_def nth_append less_Suc_eq)
      from Cons.IH [OF this] above Some show ?thesis by (simp add: Let_def)
    qed
  qed
qed simp

end

section \<open>Rows and their abstraction\<close>

text \<open>
  The pairs a row has still to deliver, the rows whose next key is the minimum \<open>k\<close>, the rows
  after an iteration, and all the values of a key in a set of rows, row by row.
\<close>

definition row_abs :: "('c \<Rightarrow> 'i \<Rightarrow> ('k, 'v) keyvals list) \<Rightarrow> ('c, 'i, 'k, 'v) row \<Rightarrow> ('k, 'v) keyvals list" where
  "row_abs rest r = (case r of None \<Rightarrow> [] | Some (c, i, x) \<Rightarrow> x # rest c i)"

definition row_ok :: "('c \<Rightarrow> 'i \<Rightarrow> bool) \<Rightarrow> ('c, 'i, 'k, 'v) row \<Rightarrow> bool" where
  "row_ok it_ok r = (case r of None \<Rightarrow> True | Some (c, i, x) \<Rightarrow> it_ok c i)"

definition at_key :: "('k, 'v) env \<Rightarrow> 'k \<Rightarrow> ('k, 'v) keyvals \<Rightarrow> bool" where
  "at_key e k x \<longleftrightarrow> keycmp e k (kvs_key x) = 0"

definition marked :: "('k, 'v) env \<Rightarrow> 'k \<Rightarrow> ('k, 'v) keyvals list \<Rightarrow> bool" where
  "marked e k r \<longleftrightarrow> r \<noteq> [] \<and> at_key e k (hd r)"

definition rows_after :: "('k, 'v) env \<Rightarrow> 'k \<Rightarrow> ('k, 'v) keyvals list list \<Rightarrow> ('k, 'v) keyvals list list" where
  "rows_after e k R = map (\<lambda>r. if marked e k r then tl r else r) R"

definition heads_at :: "('k, 'v) env \<Rightarrow> 'k \<Rightarrow> ('k, 'v) keyvals list list \<Rightarrow> 'v list" where
  "heads_at e k R = concat (map (\<lambda>r. if marked e k r then kvs_content (hd r) else []) R)"

definition vals_at :: "('k, 'v) env \<Rightarrow> 'k \<Rightarrow> ('k, 'v) keyvals list list \<Rightarrow> 'v list" where
  "vals_at e k R = concat (map (\<lambda>r. concat (map kvs_content (filter (at_key e k) r))) R)"

definition rows_len :: "('k, 'v) keyvals list list \<Rightarrow> nat" where
  "rows_len R = sum_list (map (\<lambda>r. sum_list (map kvs_len r)) R)"

definition elem_ok :: "('k, 'v) env \<Rightarrow> ('k, 'v) keyvals \<Rightarrow> bool" where
  "elem_ok e x \<longleftrightarrow> kvs_ok e x \<and> 0 < kvs_len x"

lemma row_simps [simp]:
  "row_abs rest None = []" "row_abs rest (Some (c, i, x)) = x # rest c i"
  "row_ok it_ok None" "row_ok it_ok (Some (c, i, x)) = it_ok c i"
  by (simp_all add: row_abs_def row_ok_def)

lemma rows_len_simps [simp]:
  "rows_len [] = 0"
  "rows_len (r # R) = sum_list (map kvs_len r) + rows_len R"
  by (simp_all add: rows_len_def)

lemma rows_after_simps [simp]:
  "rows_after e k [] = []"
  "rows_after e k (r # R) = (if marked e k r then tl r else r) # rows_after e k R"
  by (simp_all add: rows_after_def)

lemma heads_at_simps [simp]:
  "heads_at e k [] = []"
  "heads_at e k (r # R) = (if marked e k r then kvs_content (hd r) else []) @ heads_at e k R"
  by (simp_all add: heads_at_def)

lemma rows_len_after: "rows_len (rows_after e k R) \<le> rows_len R"
proof (induction R)
  case (Cons r R)
  have "sum_list (map kvs_len (tl r)) \<le> sum_list (map kvs_len r)" by (cases r) auto
  with Cons show ?case by (auto intro: order_trans add_mono)
qed simp

text \<open>What may be emitted for the key \<open>k\<close> with the values \<open>vs\<close>, up to the summary.\<close>

definition red_out :: "('k, 'v) env \<Rightarrow> ('v list \<Rightarrow> 'm) \<Rightarrow> 'k \<Rightarrow> 'v list \<Rightarrow> ('k, 'v) emit list \<Rightarrow> bool" where
  "red_out e M k vs out \<longleftrightarrow>
     (if atype e = Atype_mapreduce then
        (case vm e of
           Some f \<Rightarrow> \<exists>v. out = [Emit_kv k v] \<and> M [v] = M vs
         | None \<Rightarrow> \<exists>rf vs'. reduce_func e = Some rf \<and> out = map (\<lambda>(k, v). Emit_kv k v) (rf k vs') \<and> M vs' = M vs)
      else \<exists>xs n. out = [Emit_kvs_len k (VArr xs) n] \<and> n \<le> length xs \<and> M (take n xs) = M vs)"

definition reduces_ok :: "('k, 'v) env \<Rightarrow> bool" where
  "reduces_ok e \<longleftrightarrow> (atype e = Atype_mapreduce \<longrightarrow> vm e \<noteq> None \<or> reduce_func e \<noteq> None)"

lemma reduce_emit_ok:
  assumes "reduces_ok e" "kvs_ok e dst" "0 < kvs_len dst"
  shows "succeeds (reduce_emit e dst) (\<lambda>(out, dst').
    red_out e M (kvs_key dst) (kvs_content dst) out \<and> kvs_ok e dst' \<and> kvs_len dst' = 0)"
proof -
  consider (vm) f v where "atype e = Atype_mapreduce" "vm e = Some f" "kvs_len dst = 1" "kvs_vals dst = VVm v"
    | (reduce) rf xs where "atype e = Atype_mapreduce" "vm e = None" "reduce_func e = Some rf"
        "kvs_vals dst = VArr xs" "kvs_len dst \<le> length xs"
    | (group) xs where "atype e \<noteq> Atype_mapreduce" "kvs_vals dst = VArr xs" "kvs_len dst \<le> length xs"
    using assms by (auto simp: reduces_ok_def kvs_ok_def uses_vm_def split: if_splits)
  then show ?thesis
  proof cases
    case vm
    then show ?thesis by (simp add: reduce_emit_def red_out_def kvs_content_def)
  next
    case reduce
    then have "kvs_ok e (dst\<lparr>kvs_len := 0\<rparr>)" using assms(2) by (auto simp: kvs_ok_def uses_vm_def)
    with reduce assms(3) show ?thesis
      by (auto simp: reduce_emit_def red_out_def kvs_content_def vals_list_def
          intro!: exI [of _ "take (kvs_len dst) xs"])
  next
    case group
    with assms(3) show ?thesis by (auto simp: reduce_emit_def red_out_def kvs_content_def)
  qed
qed

lemma kvs_ok_key: "kvs_ok e (kvs\<lparr>kvs_key := k\<rparr>) = kvs_ok e kvs"
  by (simp add: kvs_ok_def)

lemma kvs_content_empty: "kvs_len kvs = 0 \<Longrightarrow> kvs_content kvs = []"
  by (simp add: kvs_content_def)

lemma dst_reserve_ok:
  assumes "kvs_ok e dst" "kvs_len dst = 0" "n < 2 ^ 32"
  shows "kvs_ok e (dst_reserve dst n)" "kvs_len (dst_reserve dst n) = 0"
    "kvs_key (dst_reserve dst n) = kvs_key dst" "kvs_content (dst_reserve dst n) = []"
  using assms by (auto simp: dst_reserve_def kvs_ok_def kvs_content_def split: if_splits)

text \<open>
  What a run over the rows \<open>R\<close> emits: for each key, in order and once, what the key with all
  its values in all the rows gives.
\<close>

definition reduced :: "('k, 'v) env \<Rightarrow> ('v list \<Rightarrow> 'm) \<Rightarrow> ('k, 'v) keyvals list list \<Rightarrow> ('k, 'v) emit list \<Rightarrow> bool" where
  "reduced e M R out \<longleftrightarrow> (\<exists>ks outs. out = concat outs \<and>
     list_all2 (\<lambda>k. red_out e M k (vals_at e k R)) ks outs \<and> cstrict (keycmp e) ks \<and>
     (\<forall>k \<in> set ks. \<exists>r \<in> set R. \<exists>x \<in> set r. kvs_key x = k) \<and>
     (\<forall>r \<in> set R. \<forall>x \<in> set r. \<exists>k \<in> set ks. keycmp e k (kvs_key x) = 0))"

definition rows_sorted :: "('k, 'v) env \<Rightarrow> ('k, 'v) keyvals list list \<Rightarrow> bool" where
  "rows_sorted e R \<longleftrightarrow> (\<forall>r \<in> set R. cstrict (keyvals_cmp e) r)"

definition min_key :: "('k, 'v) env \<Rightarrow> 'k \<Rightarrow> ('k, 'v) keyvals list list \<Rightarrow> bool" where
  "min_key e k R \<longleftrightarrow> (\<forall>r \<in> set R. r \<noteq> [] \<longrightarrow> keycmp e k (kvs_key (hd r)) \<le> 0) \<and>
     (\<exists>r \<in> set R. r \<noteq> [] \<and> kvs_key (hd r) = k)"

text \<open>With \<open>k\<close> minimal, what is left after taking it is above it, and the heads taken are all
  that a strictly sorted row has of it.\<close>

context mr_env
begin

lemma row_above:
  assumes "cstrict (keyvals_cmp e) r" "r \<noteq> [] \<Longrightarrow> keycmp e k (kvs_key (hd r)) \<le> 0"
  shows "\<forall>x \<in> set (if marked e k r then tl r else r). keycmp e k (kvs_key x) < 0"
proof (cases r)
  case (Cons y ys)
  then have "keycmp e k (kvs_key y) \<le> 0" "\<forall>x \<in> set ys. keycmp e (kvs_key y) (kvs_key x) < 0"
    using assms by (auto simp: keyvals_cmp_def)
  then have "\<forall>x \<in> set ys. keycmp e k (kvs_key x) < 0" using kc.cmp_le_less_trans by blast
  with Cons assms(2) show ?thesis by (auto simp: marked_def at_key_def)
qed simp

lemma row_filter:
  assumes "cstrict (keyvals_cmp e) r" "r \<noteq> [] \<Longrightarrow> keycmp e k (kvs_key (hd r)) \<le> 0"
  shows "filter (at_key e k) r = (if marked e k r then [hd r] else [])"
proof -
  have none: "filter (at_key e k) (if marked e k r then tl r else r) = []"
    using row_above [OF assms] by (fastforce simp: filter_empty_conv at_key_def)
  then show ?thesis by (cases r) (auto simp: marked_def split: if_splits)
qed

lemma heads_vals:
  assumes "\<forall>r \<in> set R. cstrict (keyvals_cmp e) r \<and> (r \<noteq> [] \<longrightarrow> keycmp e k (kvs_key (hd r)) \<le> 0)"
  shows "heads_at e k R = vals_at e k R"
  using assms by (induction R) (auto simp: vals_at_def row_filter)

lemma vals_after:
  assumes "keycmp e k k' < 0"
  shows "vals_at e k' (rows_after e k R) = vals_at e k' R"
proof (induction R)
  case (Cons r R)
  have "filter (at_key e k') (tl r) = filter (at_key e k') r" if "marked e k r"
  proof (cases r)
    case (Cons y ys)
    with that have "keycmp e k (kvs_key y) = 0" by (simp add: marked_def at_key_def)
    then have "keycmp e k' (kvs_key y) \<noteq> 0"
      using assms kc.cmp_less_le_trans [of k k' "kvs_key y"] by auto
    with Cons show ?thesis by (simp add: at_key_def)
  qed simp
  with Cons show ?case by (simp add: vals_at_def)
qed (simp add: vals_at_def)

end

context mr_env
begin

lemma rows_sorted_after: "rows_sorted e R \<Longrightarrow> rows_sorted e (rows_after e k R)"
  by (auto simp: rows_sorted_def rows_after_def)

lemma min_key_above:
  assumes "rows_sorted e R" "min_key e k R" "r \<in> set (rows_after e k R)" "x \<in> set r"
  shows "keycmp e k (kvs_key x) < 0"
proof -
  from assms(3) obtain r0 where "r0 \<in> set R" "r = (if marked e k r0 then tl r0 else r0)"
    by (auto simp: rows_after_def)
  with assms(1,2,4) row_above [of r0 k] show ?thesis by (auto simp: rows_sorted_def min_key_def)
qed

lemma min_key_or_after:
  assumes "r \<in> set R" "x \<in> set r"
  shows "keycmp e k (kvs_key x) = 0 \<or> (\<exists>r' \<in> set (rows_after e k R). x \<in> set r')"
proof -
  have r: "(if marked e k r then tl r else r) \<in> set (rows_after e k R)"
    using assms(1) by (simp add: rows_after_def)
  from assms(2) have "x = hd r \<or> x \<in> set (tl r)" by (cases r) auto
  with r assms(2) show ?thesis by (cases "marked e k r") (auto simp: marked_def at_key_def)
qed

lemma after_subset:
  assumes "r \<in> set (rows_after e k R)" "x \<in> set r"
  shows "\<exists>r' \<in> set R. x \<in> set r'"
proof -
  from assms(1) obtain r0 where "r0 \<in> set R" "r = (if marked e k r0 then tl r0 else r0)"
    by (auto simp: rows_after_def)
  moreover from this assms(2) have "x \<in> set r0" by (cases "r0 = []") (auto split: if_splits intro: list.set_sel(2))
  ultimately show ?thesis by blast
qed

lemma reduced_step:
  assumes R: "rows_sorted e R" and k: "min_key e k R"
    and out: "red_out e M k (vals_at e k R) out" and outs: "reduced e M (rows_after e k R) outs"
  shows "reduced e M R (out @ outs)"
proof -
  let ?R = "rows_after e k R"
  from outs obtain ks os where os: "outs = concat os"
    "list_all2 (\<lambda>k. red_out e M k (vals_at e k ?R)) ks os" "cstrict (keycmp e) ks"
    "\<forall>k \<in> set ks. \<exists>r \<in> set ?R. \<exists>x \<in> set r. kvs_key x = k"
    "\<forall>r \<in> set ?R. \<forall>x \<in> set r. \<exists>k \<in> set ks. keycmp e k (kvs_key x) = 0"
    by (auto simp: reduced_def)
  have above: "\<forall>k' \<in> set ks. keycmp e k k' < 0"
  proof
    fix k' assume "k' \<in> set ks"
    with os(4) obtain r x where "r \<in> set ?R" "x \<in> set r" "kvs_key x = k'" by blast
    with min_key_above [OF R k this(1,2)] show "keycmp e k k' < 0" by simp
  qed
  then have "list_all2 (\<lambda>k. red_out e M k (vals_at e k R)) ks os"
    using os(2) vals_after by (auto simp: list_all2_conv_all_nth)
  moreover have "\<exists>r \<in> set R. \<exists>x \<in> set r. kvs_key x = k"
    using k unfolding min_key_def by (blast intro: list.set_sel(1))
  moreover have "\<forall>k \<in> set ks. \<exists>r \<in> set R. \<exists>x \<in> set r. kvs_key x = k"
    using os(4) after_subset by blast
  moreover have "\<forall>r \<in> set R. \<forall>x \<in> set r. \<exists>k' \<in> set (k # ks). keycmp e k' (kvs_key x) = 0"
    using min_key_or_after [of _ R _ k] os(5) by fastforce
  ultimately show ?thesis
    unfolding reduced_def using os(1,3) out above
    by (intro exI [of _ "k # ks"] exI [of _ "out # os"]) auto
qed

end

section \<open>One iteration\<close>

locale kvs_reduce =
  kvs_coll e init ins ins_kvs len it_begin it_next inv elems it_ok rest + mr_env e + value_summary e M
  for e :: "('k, 'v) env" and init :: 'c and ins and ins_kvs and len and it_begin
    and it_next :: "'c \<Rightarrow> 'i \<Rightarrow> bool \<Rightarrow> (('k, 'v) keyvals \<times> 'c \<times> 'i) option res"
    and inv and elems and it_ok and rest and M :: "'v list \<Rightarrow> 'm"
begin

lemma row_next_ok:
  assumes "it_ok c i"
  shows "succeeds (row_next it_next c i) (\<lambda>r. row_ok it_ok r \<and> row_abs rest r = rest c i)"
proof (cases "rest c i")
  case Nil
  then show ?thesis using next_nil [OF assms Nil] by (simp add: row_next_def row_ok_def row_abs_def)
next
  case (Cons x xs)
  have "succeeds (it_next c i True)
      (\<lambda>r. case r of None \<Rightarrow> False | Some (y, c', i') \<Rightarrow> y = x \<and> it_ok c' i' \<and> rest c' i' = xs)"
    by (rule next_cons [OF assms Cons])
  with Cons show ?thesis
    by (auto simp: row_next_def row_ok_def row_abs_def elim!: succeeds_mono split: option.splits)
qed

lemma row_start_ok:
  assumes "inv c"
  shows "succeeds (row_start it_begin it_next c) (\<lambda>r. row_ok it_ok r \<and> row_abs rest r = elems c)"
  unfolding row_start_def succeeds_bind
proof (rule succeeds_mono [OF begin_elems [OF assms]])
  fix r assume "case r of None \<Rightarrow> elems c = [] | Some i \<Rightarrow> it_ok c i \<and> rest c i = elems c"
  then show "succeeds (case r of None \<Rightarrow> Inr None | Some i \<Rightarrow> row_next it_next c i)
      (\<lambda>r. row_ok it_ok r \<and> row_abs rest r = elems c)"
  proof (cases r)
    case (Some i)
    with \<open>case r of None \<Rightarrow> _ | Some i \<Rightarrow> _\<close> row_next_ok [of c i] show ?thesis by simp
  qed (simp add: row_ok_def row_abs_def)
qed

lemma rows_start_ok:
  assumes "\<forall>c \<in> set nodes. inv c"
  shows "succeeds (res_map (row_start it_begin it_next) nodes) (\<lambda>rows.
    (\<forall>r \<in> set rows. row_ok it_ok r) \<and> map (row_abs rest) rows = map elems nodes)"
  using assms
proof (induction nodes)
  case (Cons c nodes)
  then show ?case using row_start_ok [of c] by (auto elim!: succeeds_mono)
qed simp

lemma eat_rows_ok:
  assumes "list_all2 (\<lambda>mk r. mk = m \<longleftrightarrow> marked e k (row_abs rest r)) marks rows"
    and "\<forall>r \<in> set rows. row_ok it_ok r \<and> (\<forall>x \<in> set (row_abs rest r). elem_ok e x)"
    and "kvs_ok e dst" "kvs_len dst + rows_len (map (row_abs rest) rows) \<le> 2 ^ 31"
  shows "completes (eat_rows e it_next m marks rows dst) (\<lambda>(dst', rows').
    kvs_ok e dst' \<and> kvs_key dst' = kvs_key dst \<and>
    (0 < kvs_len dst \<or> (\<exists>r \<in> set rows. marked e k (row_abs rest r)) \<longrightarrow> 0 < kvs_len dst') \<and>
    M (kvs_content dst') = M (kvs_content dst @ heads_at e k (map (row_abs rest) rows)) \<and>
    map (row_abs rest) rows' = rows_after e k (map (row_abs rest) rows) \<and>
    (\<forall>r \<in> set rows'. row_ok it_ok r))"
  using assms
proof (induction marks rows arbitrary: dst rule: list_all2_induct)
  case (Cons mk marks r rows)
  show ?case
  proof (cases "mk = m")
    case False
    with Cons.hyps(1) have "\<not> marked e k (row_abs rest r)" by simp
    with False Cons.IH [of dst] Cons.prems show ?thesis by (auto elim!: completes_mono)
  next
    case True
    with Cons.hyps(1) obtain c i x where r: "r = Some (c, i, x)" "at_key e k x"
      by (auto simp: marked_def row_abs_def split: option.splits)
    have x: "kvs_ok e x" "0 < kvs_len x" "it_ok c i" "kvs_len dst + kvs_len x \<le> 2 ^ 31"
      using Cons.prems r by (auto simp: row_abs_def row_ok_def elem_ok_def)
    let ?R = "map (row_abs rest) rows"
    have "completes (values_mv e dst x) (\<lambda>(dst1, _). kvs_ok e dst1 \<and> kvs_key dst1 = kvs_key dst \<and>
        0 < kvs_len dst1 \<and> kvs_len dst1 \<le> kvs_len dst + kvs_len x \<and>
        M (kvs_content dst1) = M (kvs_content dst @ kvs_content x))"
      using values_mv_ok [OF Cons.prems(2) x(1,2,4)] by (auto simp: completes_def elim!: succeeds_mono split: option.splits)
    then obtain dst1 y where mv: "values_mv e dst x = Inr (Some (dst1, y))" "kvs_ok e dst1"
      "kvs_key dst1 = kvs_key dst" "0 < kvs_len dst1" "kvs_len dst1 \<le> kvs_len dst + kvs_len x"
      "M (kvs_content dst1) = M (kvs_content dst @ kvs_content x)"
      by (auto elim!: completesE)
    from row_next_ok [OF x(3)] obtain r' where nx: "row_next it_next c i = Inr r'" "row_ok it_ok r'"
      "row_abs rest r' = rest c i" by (auto elim!: succeedsE)
    have "kvs_len dst1 + rows_len ?R \<le> 2 ^ 31" using Cons.prems(3) r mv(5) by simp
    from Cons.IH [OF _ mv(2) this] Cons.prems(1) obtain dst2 rows' where IH:
      "eat_rows e it_next m marks rows dst1 = Inr (Some (dst2, rows'))" "kvs_ok e dst2"
      "kvs_key dst2 = kvs_key dst1" "0 < kvs_len dst2"
      "M (kvs_content dst2) = M (kvs_content dst1 @ heads_at e k ?R)"
      "map (row_abs rest) rows' = rows_after e k ?R" "\<forall>r \<in> set rows'. row_ok it_ok r"
      using mv(4) by (auto elim!: completesE)
    have "M (kvs_content dst2) = M (kvs_content dst @ kvs_content x @ heads_at e k ?R)"
      using IH(5) M_append [OF mv(6) refl, of "heads_at e k ?R"] by simp
    with True r mv nx IH show ?thesis by (simp add: lift_res_def marked_def)
  qed
qed simp

lemma min_rows:
  assumes "find_min (keycmp e) (map (map_option (\<lambda>(c, i, x). kvs_key x)) rows) 0 None 0 [] = (best, m, marks)"
  defines "R \<equiv> map (row_abs rest) rows"
  shows "best = None \<Longrightarrow> \<forall>r \<in> set R. r = []"
    and "best = Some (i, k) \<Longrightarrow>
      list_all2 (\<lambda>mk r. mk = m \<longleftrightarrow> marked e k (row_abs rest r)) marks rows \<and>
      min_key e k R"
proof -
  let ?ks = "map (map_option (\<lambda>(c, i, x). kvs_key x)) rows"
  have inv: "min_inv (keycmp e) ?ks best m marks"
    using kc.find_min_inv [of "[]" None 0 "[]" ?ks] assms(1) by (simp add: min_inv_def)
  have key: "map_option (\<lambda>(c, i, x). kvs_key x) r =
      (if row_abs rest r = [] then None else Some (kvs_key (hd (row_abs rest r))))" for r
    by (cases r) auto
  show "\<forall>r \<in> set R. r = []" if "best = None"
    using inv that by (auto simp: min_inv_def R_def in_set_conv_nth key split: if_splits)
  show "list_all2 (\<lambda>mk r. mk = m \<longleftrightarrow> marked e k (row_abs rest r)) marks rows \<and>
      min_key e k R" if best: "best = Some (i, k)"
    unfolding min_key_def
  proof (intro conjI)
    show "list_all2 (\<lambda>mk r. mk = m \<longleftrightarrow> marked e k (row_abs rest r)) marks rows"
      using inv best by (auto simp: list_all2_conv_all_nth min_inv_def key marked_def at_key_def)
    show "\<forall>r \<in> set R. r \<noteq> [] \<longrightarrow> keycmp e k (kvs_key (hd r)) \<le> 0"
      using inv best by (auto simp: min_inv_def R_def in_set_conv_nth key)
    show "\<exists>r \<in> set R. r \<noteq> [] \<and> kvs_key (hd r) = k"
      using inv best by (auto simp: min_inv_def R_def key split: if_splits)
  qed
qed

lemma needed_len_le: "needed_len rows marks m \<le> rows_len (map (row_abs rest) rows)"
proof (induction rows marks rule: list_induct2')
  case (4 r rows mk marks)
  then show ?case by (cases r) (auto simp: needed_len_def)
qed (simp_all add: needed_len_def)

lemma length_rows_after:
  assumes "r \<in> set R" "marked e k r"
  shows "sum_list (map length (rows_after e k R)) < sum_list (map length R)"
proof -
  have le: "sum_list (map length (rows_after e k R)) \<le> sum_list (map length R)" for R
    by (induction R) (auto intro: order_trans add_mono)
  show ?thesis using assms
  proof (induction R)
    case (Cons a R)
    show ?case
    proof (cases "marked e k a")
      case True
      then have "length (tl a) < length a" by (cases a) (auto simp: marked_def)
      with le [of R] True show ?thesis by simp
    next
      case False
      with Cons show ?thesis by auto
    qed
  qed simp
qed

section \<open>The whole merge\<close>

lemma min_key_vals:
  assumes "rows_sorted e R" "min_key e k R"
  shows "heads_at e k R = vals_at e k R"
  using assms by (intro heads_vals) (auto simp: rows_sorted_def min_key_def)

lemma reduce_rows_ok:
  assumes "\<forall>r \<in> set rows. row_ok it_ok r" "\<forall>r \<in> set (map (row_abs rest) rows). \<forall>x \<in> set r. elem_ok e x"
    and "rows_sorted e (map (row_abs rest) rows)" "rows_len (map (row_abs rest) rows) \<le> 2 ^ 31"
    and "sum_list (map length (map (row_abs rest) rows)) < fuel" "reduces_ok e"
    and "kvs_ok e dst" "kvs_len dst = 0"
  shows "completes (reduce_rows e it_next fuel rows dst) (reduced e M (map (row_abs rest) rows))"
  using assms(1-5,7,8)
proof (induction fuel arbitrary: rows dst)
  case (Suc fuel)
  let ?R = "map (row_abs rest) rows"
  obtain best m marks where fm:
    "find_min (keycmp e) (map (map_option (\<lambda>(c, i, x). kvs_key x)) rows) 0 None 0 [] = (best, m, marks)"
    using prod_cases3 by blast
  show ?case
  proof (cases best)
    case None
    with fm min_rows(1) [OF fm] show ?thesis by (auto simp: reduced_def)
  next
    case (Some b)
    then obtain i k where best: "best = Some (i, k)" by (cases b) auto
    note mr = min_rows(2) [OF fm best]
    define dst1 where "dst1 = dst_reserve (dst\<lparr>kvs_key := k\<rparr>) (needed_len rows marks m)"
    have "needed_len rows marks m < 2 ^ 32"
      using needed_len_le [of rows marks m] Suc.prems(4) by simp
    moreover have "kvs_ok e (dst\<lparr>kvs_key := k\<rparr>)" "kvs_len (dst\<lparr>kvs_key := k\<rparr>) = 0"
      using Suc.prems(6,7) by (simp_all add: kvs_ok_key)
    ultimately have dst1: "kvs_ok e dst1" "kvs_len dst1 = 0" "kvs_key dst1 = k" "kvs_content dst1 = []"
      using dst_reserve_ok [of e "dst\<lparr>kvs_key := k\<rparr>"] by (simp_all add: dst1_def)
    have "\<exists>r \<in> set rows. marked e k (row_abs rest r)"
      using mr by (auto simp: min_key_def marked_def at_key_def)
    then obtain dst2 rows' where eat: "eat_rows e it_next m marks rows dst1 = Inr (Some (dst2, rows'))"
      "kvs_ok e dst2" "kvs_key dst2 = k" "0 < kvs_len dst2" "M (kvs_content dst2) = M (heads_at e k ?R)"
      "map (row_abs rest) rows' = rows_after e k ?R" "\<forall>r \<in> set rows'. row_ok it_ok r"
      using eat_rows_ok [of m k marks rows dst1] mr dst1 Suc.prems(1,2,4) by (auto elim!: completesE)
    obtain out dst3 where emit: "reduce_emit e dst2 = Inr (out, dst3)"
      "red_out e M k (kvs_content dst2) out" "kvs_ok e dst3" "kvs_len dst3 = 0"
      using reduce_emit_ok [OF assms(6) eat(2,4), of M] eat(3) by (auto elim!: succeedsE)
    have red: "red_out e M k (vals_at e k ?R) out"
      using emit(2) eat(5) min_key_vals [OF Suc.prems(3)] mr
      by (auto simp: red_out_def split: option.splits)
    from mr obtain r where "r \<in> set ?R" "r \<noteq> []" "kvs_key (hd r) = k" unfolding min_key_def by blast
    then have "r \<in> set ?R" "marked e k r" by (auto simp: marked_def at_key_def)
    then have shorter: "sum_list (map length (rows_after e k ?R)) < sum_list (map length ?R)"
      by (rule length_rows_after)
    have "completes (reduce_rows e it_next fuel rows' dst3) (reduced e M (map (row_abs rest) rows'))"
    proof (rule Suc.IH)
      show "\<forall>r \<in> set rows'. row_ok it_ok r" "kvs_ok e dst3" "kvs_len dst3 = 0" by fact+
      show "\<forall>r \<in> set (map (row_abs rest) rows'). \<forall>x \<in> set r. elem_ok e x"
        unfolding eat(6) using after_subset [of _ k ?R] Suc.prems(2) by blast
      show "rows_sorted e (map (row_abs rest) rows')"
        unfolding eat(6) by (rule rows_sorted_after [OF Suc.prems(3)])
      show "rows_len (map (row_abs rest) rows') \<le> 2 ^ 31"
        unfolding eat(6) using rows_len_after [of e k ?R] Suc.prems(4) by linarith
      show "sum_list (map length (map (row_abs rest) rows')) < fuel"
        unfolding eat(6) using shorter Suc.prems(5) by linarith
    qed
    then show ?thesis
      using fm best eat emit(1) red reduced_step [OF Suc.prems(3)] mr
      by (auto simp: dst1_def [symmetric] Let_def lift_res_def elim!: completes_mono)
  qed
qed simp

lemma reduce_or_groupkvs_ok:
  assumes "\<forall>c \<in> set nodes. inv c \<and> (\<forall>x \<in> set (elems c). elem_ok e x)" "reduces_ok e"
    and "rows_len (map elems nodes) \<le> 2 ^ 31" "sum_list (map (length \<circ> elems) nodes) < fuel"
  shows "completes (reduce_or_groupkvs e it_begin it_next fuel nodes) (reduced e M (map elems nodes))"
proof -
  obtain rows where rows: "res_map (row_start it_begin it_next) nodes = Inr rows"
    "\<forall>r \<in> set rows. row_ok it_ok r" "map (row_abs rest) rows = map elems nodes"
    using rows_start_ok [of nodes] assms(1) by (auto elim!: succeedsE)
  have "completes (reduce_rows e it_next fuel rows (fresh_kvs (null_key e) 0))
      (reduced e M (map (row_abs rest) rows))"
    using rows(2) assms by (intro reduce_rows_ok) (simp_all add: rows(3) rows_sorted_def inv_sorted)
  with rows show ?thesis by (simp add: reduce_or_groupkvs_def lift_res_def)
qed

end

section \<open>Groups of a sorted array\<close>

text \<open>What the pairs \<open>ps\<close> give, key by key; \<open>Out_group\<close> hands over the collected values.\<close>

definition kv_vals_at :: "('k, 'v) env \<Rightarrow> 'k \<Rightarrow> ('k, 'v) keyval list \<Rightarrow> 'v list" where
  "kv_vals_at e k ps = map kv_val (filter (\<lambda>p. keycmp e k (kv_key p) = 0) ps)"

definition grp_out :: "('k, 'v) env \<Rightarrow> ('v list \<Rightarrow> 'm) \<Rightarrow> bool \<Rightarrow> 'k \<Rightarrow> 'v list \<Rightarrow> ('k, 'v) gout list \<Rightarrow> bool" where
  "grp_out e M meth k vs out \<longleftrightarrow>
     (if meth then \<exists>kvs. out = [Out_group kvs] \<and> kvs_key kvs = k \<and> elem_ok e kvs \<and> M (kvs_content kvs) = M vs
      else \<exists>os. out = map Out_emit os \<and> red_out e M k vs os)"

definition kv_grouped :: "('k, 'v) env \<Rightarrow> ('v list \<Rightarrow> 'm) \<Rightarrow> bool \<Rightarrow> ('k, 'v) keyval list \<Rightarrow> ('k, 'v) gout list \<Rightarrow> bool" where
  "kv_grouped e M meth ps out \<longleftrightarrow> (\<exists>ks outs. out = concat outs \<and>
     list_all2 (\<lambda>k. grp_out e M meth k (kv_vals_at e k ps)) ks outs \<and> cstrict (keycmp e) ks \<and>
     set ks \<subseteq> kv_key ` set ps \<and> (\<forall>p \<in> set ps. \<exists>k \<in> set ks. keycmp e k (kv_key p) = 0))"

context mr_env
begin

lemma keyval_comparator: "comparator (keyval_cmp e)"
  unfolding keyval_cmp_def by (rule comparator_on [OF keycmp_comparator])

text \<open>After the run of a key in a sorted array come only greater keys.\<close>

lemma run_above:
  assumes "csorted (keyval_cmp e) (p # ps)"
    and "q \<in> set (dropWhile (\<lambda>q. keycmp e (kv_key p) (kv_key q) = 0) ps)"
  shows "keycmp e (kv_key p) (kv_key q) < 0"
proof -
  let ?eq = "\<lambda>q. keycmp e (kv_key p) (kv_key q) = 0"
  obtain d ds where d: "dropWhile ?eq ps = d # ds" using assms(2) by (cases "dropWhile ?eq ps") auto
  then have "\<not> ?eq d" using hd_dropWhile [of ?eq ps] by simp
  moreover have "csorted (keyval_cmp e) (d # ds)"
    using assms(1) d by (metis csorted_drop csorted_simps(2) dropWhile_eq_drop)
  moreover have "d \<in> set ps" using d by (metis list.set_intros(1) set_dropWhileD)
  ultimately have "keycmp e (kv_key p) (kv_key d) < 0" "q = d \<or> keycmp e (kv_key d) (kv_key q) \<le> 0"
    using assms d by (auto simp: keyval_cmp_def less_le)
  then show ?thesis using kc.cmp_less_le_trans by blast
qed

lemma run_filter:
  assumes "csorted (keyval_cmp e) (p # ps)"
  shows "filter (\<lambda>q. keycmp e (kv_key p) (kv_key q) = 0) ps = takeWhile (\<lambda>q. keycmp e (kv_key p) (kv_key q) = 0) ps"
proof -
  let ?eq = "\<lambda>q. keycmp e (kv_key p) (kv_key q) = 0"
  have "filter ?eq (dropWhile ?eq ps) = []"
    using run_above [OF assms] by (fastforce simp: filter_empty_conv)
  moreover have "filter ?eq (takeWhile ?eq ps) = takeWhile ?eq ps"
    by (rule filter_True) (blast dest: set_takeWhileD)
  ultimately show ?thesis using filter_append [of ?eq "takeWhile ?eq ps" "dropWhile ?eq ps"] by simp
qed

end

context value_summary
begin

lemma insert_all_ok:
  assumes "kvs_ok e kvs" "kvs_len kvs + length vs \<le> 2 ^ 31"
  shows "succeeds (insert_all e kvs vs) (\<lambda>kvs'. kvs_ok e kvs' \<and> kvs_key kvs' = kvs_key kvs \<and>
    (0 < kvs_len kvs \<or> vs \<noteq> [] \<longrightarrow> 0 < kvs_len kvs') \<and> M (kvs_content kvs') = M (kvs_content kvs @ vs))"
  using assms
proof (induction vs arbitrary: kvs)
  case (Cons v vs)
  then have "kvs_len kvs < 2 ^ 31" by simp
  from values_insert_ok [OF Cons.prems(1) this, of v] obtain kvs1 where ins: "values_insert e kvs v = Inr kvs1"
    "kvs_ok e kvs1" "kvs_key kvs1 = kvs_key kvs" "0 < kvs_len kvs1" "kvs_len kvs1 \<le> kvs_len kvs + 1"
    "M (kvs_content kvs1) = M (kvs_content kvs @ [v])" by (auto elim!: succeedsE)
  have "M (kvs_content kvs1 @ vs) = M (kvs_content kvs @ v # vs)"
    using M_append [OF ins(6) refl, of vs] by simp
  with Cons.IH [OF ins(2)] Cons.prems ins show ?case by (auto elim!: succeeds_mono)
qed simp

end

locale kv_reduce = mr_env e + value_summary e M
  for e :: "('k, 'v) env" and M :: "'v list \<Rightarrow> 'm"
begin

lemma vals_others:
  assumes "keycmp e (kv_key p) k < 0"
  shows "kv_vals_at e k (dropWhile (\<lambda>q. keycmp e (kv_key p) (kv_key q) = 0) ps) = kv_vals_at e k (p # ps)"
proof -
  let ?eq = "\<lambda>q. keycmp e (kv_key p) (kv_key q) = 0"
  have no: "keycmp e k (kv_key q) \<noteq> 0" if "?eq q" for q
    using that assms kc.cmp_less_le_trans [of "kv_key p" k "kv_key q"] by auto
  then have "filter (\<lambda>q. keycmp e k (kv_key q) = 0) (takeWhile ?eq ps) = []"
    by (auto simp: filter_empty_conv dest: set_takeWhileD)
  then have "filter (\<lambda>q. keycmp e k (kv_key q) = 0) ps = filter (\<lambda>q. keycmp e k (kv_key q) = 0) (dropWhile ?eq ps)"
    by (metis append.left_neutral filter_append takeWhile_dropWhile_id)
  with no [of p] show ?thesis by (simp add: kv_vals_at_def)
qed

lemma kv_grouped_step:
  assumes "csorted (keyval_cmp e) (p # ps)" "grp_out e M meth (kv_key p) (kv_vals_at e (kv_key p) (p # ps)) out"
    and "kv_grouped e M meth (dropWhile (\<lambda>q. keycmp e (kv_key p) (kv_key q) = 0) ps) outs"
  shows "kv_grouped e M meth (p # ps) (out @ outs)"
proof -
  let ?eq = "\<lambda>q. keycmp e (kv_key p) (kv_key q) = 0"
  let ?ds = "dropWhile ?eq ps"
  from assms(3) obtain ks os where os: "outs = concat os"
    "list_all2 (\<lambda>k. grp_out e M meth k (kv_vals_at e k ?ds)) ks os" "cstrict (keycmp e) ks"
    "set ks \<subseteq> kv_key ` set ?ds" "\<forall>p \<in> set ?ds. \<exists>k \<in> set ks. keycmp e k (kv_key p) = 0"
    by (auto simp: kv_grouped_def)
  have above: "\<forall>k \<in> set ks. keycmp e (kv_key p) k < 0" using os(4) run_above [OF assms(1)] by blast
  then have "list_all2 (\<lambda>k. grp_out e M meth k (kv_vals_at e k (p # ps))) ks os"
    using os(2) vals_others by (auto simp: list_all2_conv_all_nth)
  moreover have "set ks \<subseteq> kv_key ` set (p # ps)" using os(4) by (auto dest: set_dropWhileD)
  moreover have "\<exists>k \<in> set (kv_key p # ks). keycmp e k (kv_key q) = 0" if q: "q \<in> set (p # ps)" for q
  proof (cases "?eq q")
    case False
    with q have "q \<in> set ps" by auto
    then have "q \<in> set (takeWhile ?eq ps) \<union> set ?ds" by (metis set_append takeWhile_dropWhile_id)
    with False have "q \<in> set ?ds" by (auto dest: set_takeWhileD)
    with os(5) show ?thesis by auto
  qed auto
  ultimately show ?thesis
    unfolding kv_grouped_def using os(1,3) assms(2) above
    by (intro exI [of _ "kv_key p # ks"] exI [of _ "out # os"]) auto
qed

lemma group_runs_ok:
  assumes "csorted (keyval_cmp e) ps" "length ps \<le> 2 ^ 31" "meth \<or> reduces_ok e"
    and "kvs_ok e kvs" "kvs_len kvs = 0"
  shows "succeeds (group_runs e meth kvs ps) (kv_grouped e M meth ps)"
  using assms
proof (induction "length ps" arbitrary: ps kvs rule: less_induct)
  case less
  show ?case
  proof (cases ps)
    case Nil
    then show ?thesis by (auto simp: kv_grouped_def)
  next
    case (Cons p qs)
    let ?eq = "\<lambda>q. keycmp e (kv_key p) (kv_key q) = 0"
    let ?run = "takeWhile ?eq qs" and ?others = "dropWhile ?eq qs"
    have vals: "map kv_val (p # ?run) = kv_vals_at e (kv_key p) ps"
      using less.prems(1) Cons by (simp add: kv_vals_at_def run_filter)
    have len: "length ?run \<le> length qs" "length ?others \<le> length qs"
      by (rule length_takeWhile_le, rule length_dropWhile_le)
    obtain kvs1 where ins: "insert_all e (kvs\<lparr>kvs_key := kv_key p\<rparr>) (map kv_val (p # ?run)) = Inr kvs1"
      "kvs_ok e kvs1" "kvs_key kvs1 = kv_key p" "0 < kvs_len kvs1"
      "M (kvs_content kvs1) = M (kv_vals_at e (kv_key p) ps)"
      using insert_all_ok [of "kvs\<lparr>kvs_key := kv_key p\<rparr>" "map kv_val (p # ?run)"] less.prems(2,4,5) Cons len
      by (auto simp: kvs_ok_key kvs_content_empty vals [unfolded Cons, symmetric] simp del: list.map elim!: succeedsE)
    have "csorted (keyval_cmp e) ?others"
      using less.prems(1) Cons by (simp add: dropWhile_eq_drop)
    then have IH: "succeeds (group_runs e meth kvs' ?others) (kv_grouped e M meth ?others)"
      if "kvs_ok e kvs'" "kvs_len kvs' = 0" for kvs'
      using less.hyps [of ?others kvs'] less.prems(2,3) that Cons len by simp
    note step = kv_grouped_step [OF less.prems(1) [unfolded Cons]]
    show ?thesis
    proof (cases meth)
      case True
      with ins have "grp_out e M meth (kv_key p) (kv_vals_at e (kv_key p) (p # qs)) [Out_group kvs1]"
        using Cons by (auto simp: grp_out_def elem_ok_def)
      from step [OF this] IH [of "fresh_kvs (null_key e) 0"] True ins(1) Cons show ?thesis
        by (auto elim!: succeeds_mono)
    next
      case False
      with less.prems(3) have "reduces_ok e" by simp
      from reduce_emit_ok [OF this ins(2,4), of M] obtain out kvs2 where emit: "reduce_emit e kvs1 = Inr (out, kvs2)"
        "red_out e M (kv_key p) (kvs_content kvs1) out" "kvs_ok e kvs2" "kvs_len kvs2 = 0"
        using ins(3) by (auto elim!: succeedsE)
      have "red_out e M (kv_key p) (kv_vals_at e (kv_key p) (p # qs)) out"
        using emit(2) ins(5) Cons by (auto simp: red_out_def split: option.splits)
      with False have "grp_out e M meth (kv_key p) (kv_vals_at e (kv_key p) (p # qs)) (map Out_emit out)"
        by (auto simp: grp_out_def)
      moreover have "uses_vm e \<Longrightarrow> kvs_len kvs1 = 1" using ins(2,4) by (auto simp: kvs_ok_def)
      ultimately show ?thesis
        using step IH [OF emit(3,4)] False ins(1) emit(1) Cons by (auto elim!: succeeds_mono)
    qed
  qed
qed

end

section \<open>Main results\<close>

lemma kvs_reduce_array:
  assumes "mr_env e" "value_summary e M"
  shows "kvs_reduce e kvsa_init (kvsa_insert_kv e) (kvsa_insert_kvs e) kvsa_get_len
    (\<lambda>c. Inr (kvsa_iter_begin (Some c))) (kvsa_iter_next_kvs e) (kvsa_inv e) parr_elems kvsa_it_ok
    (\<lambda>c i. drop i (parr_elems c)) M"
  by (intro kvs_reduce.intro mr_env.kvsa_coll assms)

interpretation wc_red: kv_reduce "wc_env b" sum_list for b
  by (rule kv_reduce.intro) (rule wc.mr_env_axioms wc_sum.value_summary_axioms)+

interpretation wc_rows: kvs_reduce "wc_env b" kvsa_init "kvsa_insert_kv (wc_env b)" "kvsa_insert_kvs (wc_env b)"
    kvsa_get_len "\<lambda>c. Inr (kvsa_iter_begin (Some c))" "kvsa_iter_next_kvs (wc_env b)" "kvsa_inv (wc_env b)"
    parr_elems kvsa_it_ok "\<lambda>c i. drop i (parr_elems c)" sum_list for b
  by (rule kvs_reduce_array [OF wc.mr_env_axioms wc_sum.value_summary_axioms])

text \<open>C13. Reducing the rows of a bucket held in sorted arrays ends without a fault, and emits for
  every key, in key order and exactly once, what its values in all the rows, row after row, give:
  the value of the value modifier, the output of the reduce function, or the group.\<close>

theorem reduce_or_groupkvs_arrays:
  assumes "mr_env e" "value_summary e M" "reduces_ok e"
    and "\<forall>c \<in> set nodes. kvsa_inv e c \<and> (\<forall>x \<in> set (parr_elems c). elem_ok e x)"
    and "rows_len (map parr_elems nodes) \<le> 2 ^ 31" "sum_list (map (length \<circ> parr_elems) nodes) < fuel"
  shows "completes (reduce_or_groupkvs e (\<lambda>c. Inr (kvsa_iter_begin (Some c))) (kvsa_iter_next_kvs e) fuel nodes)
    (reduced e M (map parr_elems nodes))"
  using kvs_reduce.reduce_or_groupkvs_ok [OF kvs_reduce_array [OF assms(1,2)]] assms(3-6) by simp

theorem reduce_or_groupkvs_arrays_witness:
  "completes (reduce_or_groupkvs (wc_env True) (\<lambda>c. Inr (kvsa_iter_begin (Some c))) (kvsa_iter_next_kvs (wc_env True)) 4
     [\<lparr>pa_len = 1, pa_alloc = 8, pa_arr = Some [\<lparr>kvs_key = ''A'', kvs_vals = VVm 2, kvs_len = 1,
         kvs_alloc_len = 0, kvs_hash = 0\<rparr>]\<rparr>,
      \<lparr>pa_len = 2, pa_alloc = 8, pa_arr = Some [\<lparr>kvs_key = ''A'', kvs_vals = VVm 3, kvs_len = 1,
         kvs_alloc_len = 0, kvs_hash = 0\<rparr>, \<lparr>kvs_key = ''B'', kvs_vals = VVm 1, kvs_len = 1,
         kvs_alloc_len = 0, kvs_hash = 0\<rparr>]\<rparr>])
   (reduced (wc_env True) sum_list
     [[\<lparr>kvs_key = ''A'', kvs_vals = VVm 2, kvs_len = 1, kvs_alloc_len = 0, kvs_hash = 0\<rparr>],
      [\<lparr>kvs_key = ''A'', kvs_vals = VVm 3, kvs_len = 1, kvs_alloc_len = 0, kvs_hash = 0\<rparr>,
       \<lparr>kvs_key = ''B'', kvs_vals = VVm 1, kvs_len = 1, kvs_alloc_len = 0, kvs_hash = 0\<rparr>]])"
  using reduce_or_groupkvs_arrays [OF wc.mr_env_axioms [of True] wc_sum.value_summary_axioms,
      of "[\<lparr>pa_len = 1, pa_alloc = 8, pa_arr = Some [\<lparr>kvs_key = ''A'', kvs_vals = VVm 2, kvs_len = 1,
         kvs_alloc_len = 0, kvs_hash = 0\<rparr>]\<rparr>,
      \<lparr>pa_len = 2, pa_alloc = 8, pa_arr = Some [\<lparr>kvs_key = ''A'', kvs_vals = VVm 3, kvs_len = 1,
         kvs_alloc_len = 0, kvs_hash = 0\<rparr>, \<lparr>kvs_key = ''B'', kvs_vals = VVm 1, kvs_len = 1,
         kvs_alloc_len = 0, kvs_hash = 0\<rparr>]\<rparr>]" 4]
  by (simp add: reduces_ok_def kvsa_inv_def parr_inv_def parr_elems_def elem_ok_def kvs_ok_def uses_vm_def
      rows_len_def keyvals_cmp_def mystrcmp_def c_strcmp_def c_str_def)

text \<open>C25. Grouping rows of ungrouped pairs by sorting ends without a fault, whatever order the C
  library's sort gives to equal keys, and yields for every key, in key order and exactly once, the
  summary of all the values stored with it.\<close>

theorem reduce_or_groupkv_groups:
  assumes "mr_env e" "value_summary e M" "qsort_impl qs" "meth \<or> reduces_ok e"
    and "nodes \<noteq> []" "\<forall>a \<in> set nodes. parr_inv a" "sum_list (map pa_len nodes) \<le> 2 ^ 31"
  shows "succeeds (reduce_or_groupkv e qs meth nodes)
    (kv_grouped e M meth (qs (keyval_cmp e) (concat (map parr_elems nodes))))"
proof -
  let ?ps = "qs (keyval_cmp e) (concat (map parr_elems nodes))"
  have "length ?ps = sum_list (map pa_len nodes)"
    using assms(6) by (simp add: qsort_impl.qsort_length [OF assms(3)] length_concat comp_def parr_inv_len cong: map_cong)
  moreover have "csorted (keyval_cmp e) ?ps"
    by (rule qsort_impl.qsort_sorted [OF assms(3) mr_env.keyval_comparator [OF assms(1)]])
  ultimately have "succeeds (group_runs e meth (fresh_kvs (null_key e) 0) ?ps) (kv_grouped e M meth ?ps)"
    using kv_reduce.group_runs_ok [OF kv_reduce.intro [OF assms(1,2)]] assms(4,7) by simp
  moreover have "reduce_or_groupkv e qs meth nodes = group_runs e meth (fresh_kvs (null_key e) 0) ?ps"
    using assms(5) by (auto simp: reduce_or_groupkv_def kva_copy_kv_def comp_def split: list.splits)
  ultimately show ?thesis by simp
qed

theorem reduce_or_groupkv_groups_witness:
  "succeeds (reduce_or_groupkv (wc_env False) c_isort False
     [\<lparr>pa_len = 2, pa_alloc = 8, pa_arr = Some [\<lparr>kv_key = ''B'', kv_val = 1, kv_hash = 0\<rparr>,
        \<lparr>kv_key = ''A'', kv_val = 1, kv_hash = 0\<rparr>]\<rparr>])
   (kv_grouped (wc_env False) sum_list False (c_isort (keyval_cmp (wc_env False))
     [\<lparr>kv_key = ''B'', kv_val = 1, kv_hash = 0\<rparr>, \<lparr>kv_key = ''A'', kv_val = 1, kv_hash = 0\<rparr>]))"
  using reduce_or_groupkv_groups [OF wc.mr_env_axioms [of False] wc_sum.value_summary_axioms
      isort.qsort_impl_axioms, of False "[\<lparr>pa_len = 2, pa_alloc = 8, pa_arr = Some
        [\<lparr>kv_key = ''B'', kv_val = 1, kv_hash = 0\<rparr>, \<lparr>kv_key = ''A'', kv_val = 1, kv_hash = 0\<rparr>]\<rparr>]"]
  by (simp add: reduces_ok_def parr_inv_def parr_elems_def del: c_isort.simps)

end
