(* ===== verification/Mergesort.thy ===== *)
theory Mergesort
  imports Mr_Types
begin

text \<open>
  The k-way merge that both sorters of the library use (the loops of \<^verbatim>\<open>mergesort\<close> in
  \<^verbatim>\<open>metis/lib/mergesort.c\<close> and in \<^verbatim>\<open>metis/lib/psrs.c\<close>), and the merge of the reduce
  buckets of one worker.
\<close>

section \<open>The merge loop\<close>

text \<open>
  An input of the merge is an array with the position of the next pair and the end of its range.
  The scan takes the first input with a smallest next pair.
\<close>

type_synonym 'e merge_in = "'e list \<times> nat \<times> nat"

fun pick_min :: "('e \<Rightarrow> 'e \<Rightarrow> int) \<Rightarrow> (nat \<times> 'e) option \<Rightarrow> nat \<Rightarrow> 'e merge_in list
    \<Rightarrow> (nat \<times> 'e) option res" where
  "pick_min pcmp best i [] = Inr best"
| "pick_min pcmp best i ((parray, task_pos, stop) # ins) =
     (if stop \<le> task_pos then pick_min pcmp best (i + 1) ins
      else res_bind (rd parray (int task_pos)) (\<lambda>x.
        case best of
          None \<Rightarrow> pick_min pcmp (Some (i, x)) (i + 1) ins
        | Some (j, y) \<Rightarrow>
            if 0 < pcmp y x then pick_min pcmp (Some (i, x)) (i + 1) ins
            else pick_min pcmp best (i + 1) ins))"

definition advance :: "'e merge_in list \<Rightarrow> nat \<Rightarrow> 'e merge_in list" where
  "advance ins i = ins[i := (case ins ! i of (parray, task_pos, stop) \<Rightarrow> (parray, task_pos + 1, stop))]"

text \<open>Copying from the null pointer, when no input has a pair left, is a fault.\<close>

fun merge_loop :: "('e \<Rightarrow> 'e \<Rightarrow> int) \<Rightarrow> nat \<Rightarrow> 'e merge_in list \<Rightarrow> 'e list res" where
  "merge_loop pcmp 0 ins = Inr []"
| "merge_loop pcmp (Suc n) ins =
     res_bind (pick_min pcmp None 0 ins) (\<lambda>best.
       case best of
         None \<Rightarrow> Inl Null_deref
       | Some (i, x) \<Rightarrow> res_bind (merge_loop pcmp n (advance ins i)) (\<lambda>out. Inr (x # out)))"

section \<open>Merging the buckets of one worker\<close>

text \<open>
  Worker \<open>lcpu\<close> of \<open>ncpus\<close> merges the collections \<open>lcpu\<close>, \<open>lcpu + ncpus\<close>, ... and
  leaves the result in the first of them.
\<close>

definition my_colls :: "nat \<Rightarrow> nat \<Rightarrow> nat \<Rightarrow> nat list" where
  "my_colls ncolls ncpus lcpu =
     map (\<lambda>i. lcpu + i * ncpus) [0..<ncolls div ncpus + (if lcpu < ncolls mod ncpus then 1 else 0)]"

definition mergesort :: "('e \<Rightarrow> 'e \<Rightarrow> int) \<Rightarrow> 'e parr list \<Rightarrow> nat \<Rightarrow> nat \<Rightarrow> 'e parr list res" where
  "mergesort pcmp acolls ncpus lcpu =
     (if ncpus = 0 then Inl Div_by_zero
      else
        let mine = my_colls (length acolls) ncpus lcpu;
            npairs = sum_list (map (\<lambda>j. pa_len (acolls ! j)) mine)
        in if npairs = 0 then Inr acolls
           else res_bind (merge_loop pcmp npairs
                  (map (\<lambda>j. (parr_buf (acolls ! j), 0, pa_len (acolls ! j))) mine))
                (\<lambda>out.
                  let freed = fold (\<lambda>j cs. cs[j := parr_shallow_free (cs ! j)]) mine acolls
                  in Inr (freed[lcpu := parr_set_elems (freed ! lcpu) out npairs])))"

section \<open>The merge loop sorts\<close>

text \<open>What an input has left, and inputs whose ranges lie inside their arrays.\<close>

definition left_over :: "'e merge_in \<Rightarrow> 'e list" where
  "left_over inp = (case inp of (xs, p, q) \<Rightarrow> take (q - p) (drop p xs))"

definition in_range :: "'e merge_in \<Rightarrow> bool" where
  "in_range inp \<longleftrightarrow> (case inp of (xs, p, q) \<Rightarrow> q \<le> length xs)"

lemma left_over_step:
  assumes "in_range (xs, p, q)" "p < q"
  shows "left_over (xs, p, q) = xs ! p # left_over (xs, p + 1, q)"
  using assms by (simp add: left_over_def in_range_def Cons_nth_drop_Suc [symmetric] take_Suc_conv_app_nth
      Suc_diff_Suc [symmetric] del: Suc_diff_Suc)

lemma left_over_empty: "in_range (xs, p, q) \<Longrightarrow> left_over (xs, p, q) = [] \<longleftrightarrow> q \<le> p"
  by (auto simp: left_over_def in_range_def)

context comparator
begin

text \<open>The scan finds an input whose next pair is not greater than any other next pair.\<close>

definition pick_post :: "'a merge_in list \<Rightarrow> (nat \<times> 'a) option \<Rightarrow> bool" where
  "pick_post ins best \<longleftrightarrow>
     (case best of
        None \<Rightarrow> \<forall>inp \<in> set ins. left_over inp = []
      | Some (i, x) \<Rightarrow> i < length ins \<and> left_over (ins ! i) \<noteq> [] \<and> hd (left_over (ins ! i)) = x \<and>
          (\<forall>inp \<in> set ins. left_over inp \<noteq> [] \<longrightarrow> cmp x (hd (left_over inp)) \<le> 0))"

lemma pick_min_ok:
  assumes "\<forall>inp \<in> set (pre @ ins). in_range inp" "pick_post pre best"
  shows "succeeds (pick_min cmp best (length pre) ins) (pick_post (pre @ ins))"
  using assms
proof (induction ins arbitrary: pre best)
  case (Cons inp ins)
  obtain xs p q where inp: "inp = (xs, p, q)" by (cases inp)
  have r: "in_range (xs, p, q)" using Cons.prems(1) inp by simp
  show ?case
  proof (cases "q \<le> p")
    case True
    then have "left_over inp = []" using left_over_empty [OF r] inp by simp
    then have "pick_post (pre @ [inp]) best"
      using Cons.prems(2) by (auto simp: pick_post_def nth_append split: option.splits)
    from Cons.IH [OF _ this] Cons.prems(1) True inp show ?thesis by simp
  next
    case False
    then have lo: "left_over inp = xs ! p # left_over (xs, p + 1, q)" and p: "p < length xs"
      using left_over_step [OF r] r inp by (auto simp: in_range_def)
    consider (new) "best = None \<or> (\<exists>j y. best = Some (j, y) \<and> 0 < cmp y (xs ! p))"
      | (old) j y where "best = Some (j, y)" "cmp y (xs ! p) \<le> 0"
      by (cases best) (auto simp: not_less [symmetric])
    then show ?thesis
    proof cases
      case new
      have "cmp (xs ! p) (hd (left_over i')) \<le> 0" if "i' \<in> set pre" "left_over i' \<noteq> []" for i'
      proof (cases best)
        case None
        with Cons.prems(2) that show ?thesis by (simp add: pick_post_def)
      next
        case (Some b)
        with new obtain j y where y: "best = Some (j, y)" "cmp (xs ! p) y < 0" by (auto simp: cmp_sym')
        with Cons.prems(2) that have "cmp y (hd (left_over i')) \<le> 0" by (auto simp: pick_post_def)
        with y(2) show ?thesis using cmp_less_le_trans less_imp_le by blast
      qed
      then have "pick_post (pre @ [inp]) (Some (length pre, xs ! p))"
        using lo by (auto simp: pick_post_def nth_append)
      from Cons.IH [OF _ this] Cons.prems(1) new False inp p show ?thesis
        by (auto split: option.splits)
    next
      case old
      then have "pick_post (pre @ [inp]) best"
        using Cons.prems(2) lo by (auto simp: pick_post_def nth_append)
      from Cons.IH [OF _ this] Cons.prems(1) old False inp p show ?thesis by simp
    qed
  qed
qed simp

lemma advance_left:
  assumes "i < length ins" "in_range (ins ! i)" "left_over (ins ! i) \<noteq> []"
  shows "map left_over (advance ins i) = (map left_over ins)[i := tl (left_over (ins ! i))]"
    and "in_range (advance ins i ! i)"
proof -
  obtain xs p q where inp: "ins ! i = (xs, p, q)" by (cases "ins ! i")
  then have "left_over (xs, p, q) = xs ! p # left_over (xs, p + 1, q)"
    using assms(2,3) left_over_empty [of xs p q] by (intro left_over_step) auto
  with inp show "map left_over (advance ins i) = (map left_over ins)[i := tl (left_over (ins ! i))]"
    by (simp add: advance_def map_update)
  show "in_range (advance ins i ! i)"
    using inp assms(1,2) by (simp add: advance_def in_range_def)
qed

lemma mset_concat_update:
  assumes "i < length xss" "xss ! i = x # xs"
  shows "mset (concat xss) = add_mset x (mset (concat (xss[i := xs])))"
  using assms
proof (induction xss arbitrary: i)
  case (Cons ys xss)
  then show ?case by (cases i) auto
qed simp

lemma merge_loop_ok:
  assumes "\<forall>inp \<in> set ins. in_range inp" "length (concat (map left_over ins)) = n"
  shows "succeeds (merge_loop cmp n ins) (\<lambda>out. mset out = mset (concat (map left_over ins)) \<and>
    ((\<forall>inp \<in> set ins. csorted cmp (left_over inp)) \<longrightarrow> csorted cmp out))"
  using assms
proof (induction n arbitrary: ins)
  case (Suc n)
  obtain best where best: "pick_min cmp None 0 ins = Inr best" "pick_post ins best"
    using pick_min_ok [of "[]" ins None] Suc.prems(1) by (auto simp: pick_post_def elim!: succeedsE)
  have "best \<noteq> None"
  proof
    assume "best = None"
    with best(2) have "concat (map left_over ins) = []" by (auto simp: pick_post_def concat_eq_Nil_conv)
    with Suc.prems(2) show False by simp
  qed
  then obtain i x where x: "best = Some (i, x)" by auto
  from best(2) x have i: "i < length ins" "left_over (ins ! i) = x # tl (left_over (ins ! i))"
    "\<forall>inp \<in> set ins. left_over inp \<noteq> [] \<longrightarrow> cmp x (hd (left_over inp)) \<le> 0"
    by (auto simp: pick_post_def neq_Nil_conv)
  let ?ins = "advance ins i" and ?L = "map left_over ins"
  have "in_range (ins ! i)" "left_over (ins ! i) \<noteq> []" using Suc.prems(1) i(1,2) by auto
  note adv = advance_left [OF i(1) this]
  have perm: "mset (concat ?L) = add_mset x (mset (concat (map left_over ?ins)))"
    unfolding adv(1) by (rule mset_concat_update) (use i in auto)
  have "\<forall>inp \<in> set ?ins. in_range inp"
    using Suc.prems(1) adv(2) i(1) by (auto simp: advance_def in_set_conv_nth nth_list_update split: if_splits)
  moreover have "length (concat (map left_over ?ins)) = n"
    using Suc.prems(2) perm by (metis add_diff_cancel_left' plus_1_eq_Suc size_add_mset size_mset)
  ultimately obtain out where out: "merge_loop cmp n ?ins = Inr out"
    "mset out = mset (concat (map left_over ?ins))"
    "(\<forall>inp \<in> set ?ins. csorted cmp (left_over inp)) \<longrightarrow> csorted cmp out"
    using Suc.IH [of ?ins] by (auto elim!: succeedsE)
  have "csorted cmp (x # out)" if sorted: "\<forall>inp \<in> set ins. csorted cmp (left_over inp)"
  proof -
    have "\<forall>l \<in> set (map left_over ?ins). csorted cmp l"
      unfolding adv(1) using sorted i(1) by (auto dest!: subsetD [OF set_update_subset_insert])
    moreover have "cmp x y \<le> 0" if "y \<in> set out" for y
    proof -
      have "y \<in># mset (concat ?L)" using that perm out(2) by (metis insertCI set_mset_add_mset_insert set_mset_mset)
      then obtain inp where inp: "inp \<in> set ins" "y \<in> set (left_over inp)" by auto
      then obtain z zs where z: "left_over inp = z # zs" by (cases "left_over inp") auto
      with inp sorted i(3) have "cmp x z \<le> 0" "y = z \<or> cmp z y \<le> 0" by fastforce+
      then show ?thesis using cmp_trans by blast
    qed
    ultimately show ?thesis using out(3) by simp
  qed
  with best(1) x out perm show ?case by simp
qed simp

end

section \<open>The merge of a worker's buckets\<close>

lemma my_colls_bound:
  assumes "l < (c::nat)"
  shows "l + i * c < n \<longleftrightarrow> i < n div c + (if l < n mod c then 1 else 0)"
proof -
  define r where "r = n mod c"
  define q where "q = n div c"
  have n: "n = q * c + r" by (simp add: q_def r_def)
  have c: "0 < c" using assms by simp
  have r: "r < c" using mod_less_divisor [OF c, of n] by (simp add: r_def)
  consider "i < q" | "i = q" | "q < i" by linarith
  then have "l + i * c < n \<longleftrightarrow> i < q + (if l < r then 1 else 0)"
  proof cases
    case 1
    then have "(i + 1) * c \<le> q * c" by (intro mult_le_mono1) simp
    with n assms 1 show ?thesis by simp
  next
    case 2
    with n show ?thesis by auto
  next
    case 3
    then have "(q + 1) * c \<le> i * c" by (intro mult_le_mono1) simp
    with n r 3 show ?thesis by simp
  qed
  then show ?thesis by (simp add: q_def r_def)
qed

lemma my_colls_filter:
  assumes "lcpu < ncpus"
  shows "my_colls n ncpus lcpu = filter (\<lambda>j. j mod ncpus = lcpu) [0..<n]"
proof (rule sorted_distinct_set_unique)
  have "inj_on (\<lambda>i. lcpu + i * ncpus) A" for A using assms by (auto simp: inj_on_def)
  then show "distinct (my_colls n ncpus lcpu)" by (simp add: my_colls_def distinct_map)
  show "sorted (my_colls n ncpus lcpu)"
    unfolding my_colls_def sorted_map by (rule sorted_wrt_mono_rel [OF _ sorted_upt]) simp
  show "set (my_colls n ncpus lcpu) = set (filter (\<lambda>j. j mod ncpus = lcpu) [0..<n])"
  proof (intro set_eqI iffI)
    fix j assume "j \<in> set (my_colls n ncpus lcpu)"
    then have "j \<in> (\<lambda>i. lcpu + i * ncpus) ` {0..<n div ncpus + (if lcpu < n mod ncpus then 1 else 0)}"
      by (simp only: my_colls_def set_map set_upt)
    then obtain i where i: "j = lcpu + i * ncpus" "i < n div ncpus + (if lcpu < n mod ncpus then 1 else 0)"
      by (rule imageE) (simp only: atLeastLessThan_iff)
    then have "j < n" using my_colls_bound [OF assms] by blast
    with i assms show "j \<in> set (filter (\<lambda>j. j mod ncpus = lcpu) [0..<n])" by simp
  next
    fix j assume "j \<in> set (filter (\<lambda>j. j mod ncpus = lcpu) [0..<n])"
    then have "j < n" "j = lcpu + j div ncpus * ncpus" using mod_div_mult_eq [of j ncpus] by auto
    with my_colls_bound [OF assms, of "j div ncpus" n] show "j \<in> set (my_colls n ncpus lcpu)"
      by (auto simp: my_colls_def)
  qed
qed (simp_all add: sorted_wrt_filter)

lemma fold_free:
  assumes "distinct js" "\<forall>j \<in> set js. j < length cs"
  shows "length (fold (\<lambda>j cs. cs[j := parr_shallow_free (cs ! j)]) js cs) = length cs \<and>
    (\<forall>i < length cs. fold (\<lambda>j cs. cs[j := parr_shallow_free (cs ! j)]) js cs ! i =
       (if i \<in> set js then parr_shallow_free (cs ! i) else cs ! i))"
  using assms
proof (induction js arbitrary: cs)
  case (Cons j js)
  then show ?case by (auto simp: nth_list_update)
qed simp



end
