(* ===== verification/Psrs.thy ===== *)
theory Psrs
  imports Mergesort Bsearch
begin

text \<open>
  Parallel sorting by regular sampling (\<^verbatim>\<open>metis/lib/psrs.c\<close>). Between two barriers each
  worker writes only its own slots of the shared arrays, so a phase is a map over the workers; the
  state the phases hand on is the list of locally sorted arrays, the pivots, and for each worker
  the row of \<^verbatim>\<open>subsize\<close> with the cut positions of its array.
\<close>

section \<open>Copying a range of the collections\<close>

text \<open>
  The pairs of all collections are numbered globally; the range from \<open>dst_start\<close> to
  \<open>dst_end\<close> (inclusive) is copied out. The loop carries the global index of the first pair of
  the current collection.
\<close>

fun copy_loop :: "'e parr list \<Rightarrow> int \<Rightarrow> int \<Rightarrow> int \<Rightarrow> 'e list res" where
  "copy_loop [] dst_start dst_end glb_start = Inr []"
| "copy_loop (a # acolls) dst_start dst_end glb_start =
     (if pa_len a = 0 then copy_loop acolls dst_start dst_end glb_start
      else
        let glb_end = glb_start + int (pa_len a) - 1 in
        if glb_start \<le> dst_end \<and> dst_start \<le> glb_end then
          let loc_start = max dst_start glb_start - glb_start;
              loc_end = min dst_end glb_end - glb_start
          in if int (length (parr_buf a)) \<le> loc_end then Inl Out_of_bounds
             else res_bind (copy_loop acolls dst_start dst_end (glb_end + 1)) (\<lambda>rest.
               Inr (take (nat (loc_end - loc_start + 1)) (drop (nat loc_start) (parr_buf a)) @ rest))
        else copy_loop acolls dst_start dst_end (glb_end + 1))"

definition copy_elems :: "'e parr list \<Rightarrow> int \<Rightarrow> int \<Rightarrow> 'e list res" where
  "copy_elems acolls dst_start dst_end =
     res_bind (copy_loop acolls dst_start dst_end 0) (\<lambda>dest.
     c_assert (int (length dest) = dst_end - dst_start + 1) (Inr dest))"

section \<open>Pivots and sublists\<close>

definition psrs_range :: "nat \<Rightarrow> nat \<Rightarrow> nat \<Rightarrow> int \<times> int" where
  "psrs_range total_len ncpus lcpu =
     (let w = (total_len + ncpus - 1) div ncpus;
          stop = int (w * (lcpu + 1)) - 1
      in (int (w * lcpu), if int total_len \<le> stop then int total_len - 1 else stop))"

text \<open>The local pivots a worker sends: the starts of its ranges, or its last pair.\<close>

definition local_pivots :: "nat \<Rightarrow> 'e list \<Rightarrow> 'e list res" where
  "local_pivots ncpus localpairs =
     (let copied = length localpairs; rsize = (copied + ncpus - 1) div ncpus in
      foldr (\<lambda>i acc. res_bind (rd localpairs (if (i + 1) * rsize < copied then int ((i + 1) * rsize)
                                              else int copied - 1)) (\<lambda>x.
               res_bind acc (\<lambda>xs. Inr (x # xs))))
        [0..<ncpus - 1] (Inr []))"

text \<open>The main worker selects the pivots in place, into positions 1 to \<^verbatim>\<open>ncpus - 1\<close>.\<close>

definition select_pivots :: "nat \<Rightarrow> 'e list \<Rightarrow> 'e list res" where
  "select_pivots ncpus pivots =
     fold (\<lambda>i acc. res_bind acc (\<lambda>ps.
        res_bind (rd ps (int (i * ncpus + ncpus div 2))) (\<lambda>x. wr ps (int (i + 1)) x)))
       [0..<ncpus - 1] (Inr pivots)"

fun fill :: "int list \<Rightarrow> nat \<Rightarrow> int \<Rightarrow> int \<Rightarrow> int list res" where
  "fill row 0 i v = Inr row"
| "fill row (Suc n) i v = res_bind (wr row i v) (\<lambda>row'. fill row' n (i + 1) v)"

text \<open>
  The cut positions of a sorted array at the pivots \<open>fp\<close> to \<open>lp\<close>, by halving the range of
  pivots. As in the source, \<open>stop\<close> is the last index of the range and the search gets
  \<^verbatim>\<open>end - start - 1\<close> elements.
\<close>

function sublists :: "('e \<Rightarrow> 'e \<Rightarrow> int) \<Rightarrow> 'e list \<Rightarrow> 'e list \<Rightarrow> int \<Rightarrow> int \<Rightarrow> int list \<Rightarrow> int \<Rightarrow> int
    \<Rightarrow> int list res" where
  "sublists pcmp base pivots start stop row fp lp =
     (let mid = (fp + lp) div 2 in
      res_bind (rd pivots mid) (\<lambda>pv.
      res_bind (bsearch_lar pcmp pv base start (stop - start - 1)) (\<lambda>p.
      let pos = p + start in
      res_bind (wr row mid pos) (\<lambda>row1.
      res_bind (if fp < mid then
                  (if start < pos then sublists pcmp base pivots start (pos - 1) row1 fp (mid - 1)
                   else fill row1 (nat (mid - fp)) fp start)
                else Inr row1) (\<lambda>row2.
      if mid < lp then
        (if pos \<le> stop then sublists pcmp base pivots pos stop row2 (mid + 1) lp
         else fill row2 (nat (lp - mid)) (mid + 1) (stop + 1))
      else Inr row2)))))"
  by pat_completeness auto
termination
  by (relation "measure (\<lambda>(pcmp, base, pivots, start, stop, row, fp, lp). nat (lp - fp + 1))") auto

declare sublists.simps [simp del]

definition psrs_row :: "('e \<Rightarrow> 'e \<Rightarrow> int) \<Rightarrow> nat \<Rightarrow> 'e list \<Rightarrow> 'e list \<Rightarrow> int list res" where
  "psrs_row pcmp ncpus pivots localpairs =
     (let copied = int (length localpairs) in
      sublists pcmp localpairs pivots 0 (copied - 1) ((replicate (ncpus + 1) 0)[ncpus := copied])
        1 (int ncpus - 1))"

section \<open>Merging a partition\<close>

text \<open>
  The positions are unsigned in the merge, so a negative size or position makes it run out of the
  arrays.
\<close>

definition part_inputs :: "'e list list \<Rightarrow> int list list \<Rightarrow> nat \<Rightarrow> 'e merge_in list" where
  "part_inputs lpairs rows lcpu =
     map (\<lambda>(l, row). (l, nat (row ! lcpu mod 2 ^ 32), nat (row ! (lcpu + 1) mod 2 ^ 32))) (zip lpairs rows)"

definition part_size :: "int list list \<Rightarrow> nat \<Rightarrow> int" where
  "part_size rows lcpu = sum_list (map (\<lambda>row. row ! (lcpu + 1) - row ! lcpu) rows)"

definition psrs_mergesort :: "('e \<Rightarrow> 'e \<Rightarrow> int) \<Rightarrow> 'e list list \<Rightarrow> int list list \<Rightarrow> nat \<Rightarrow> 'e list res" where
  "psrs_mergesort pcmp lpairs rows lcpu =
     (if part_size rows lcpu < 0 then Inl Out_of_bounds
      else merge_loop pcmp (nat (part_size rows lcpu)) (part_inputs lpairs rows lcpu))"

text \<open>The segments of a partition, handed to \<^verbatim>\<open>reduce_or_group\<close> as one array per worker.\<close>

definition part_segment :: "'e list \<Rightarrow> int list \<Rightarrow> nat \<Rightarrow> 'e parr res" where
  "part_segment l row lcpu =
     (let a = row ! lcpu; b = row ! (lcpu + 1) in
      if 0 \<le> a \<and> a \<le> b \<and> b \<le> int (length l)
      then Inr \<lparr>pa_len = nat (b - a), pa_alloc = nat (b - a),
                pa_arr = Some (take (nat (b - a)) (drop (nat a) l))\<rparr>
      else Inl Out_of_bounds)"

section \<open>The sort\<close>

fun list_res :: "'a res list \<Rightarrow> 'a list res" where
  "list_res [] = Inr []"
| "list_res (m # ms) = res_bind m (\<lambda>x. res_bind (list_res ms) (\<lambda>xs. Inr (x # xs)))"

definition psrs_total :: "'e parr list \<Rightarrow> nat" where
  "psrs_total acolls = sum_list (map pa_len acolls)"

text \<open>Up to the fourth barrier: the sorted local arrays and the rows of cut positions.\<close>

definition psrs_split :: "(('e \<Rightarrow> 'e \<Rightarrow> int) \<Rightarrow> 'e list \<Rightarrow> 'e list) \<Rightarrow> ('e \<Rightarrow> 'e \<Rightarrow> int) \<Rightarrow> 'e parr list
    \<Rightarrow> nat \<Rightarrow> ('e list list \<times> int list list) res" where
  "psrs_split qs pcmp acolls ncpus =
     (let total_len = psrs_total acolls in
      res_bind (list_res (map (\<lambda>lcpu. case psrs_range total_len ncpus lcpu of (start, stop) \<Rightarrow>
                   res_bind (copy_elems acolls start stop) (\<lambda>l. Inr (qs pcmp l))) [0..<ncpus])) (\<lambda>lpairs.
      res_bind (list_res (map (local_pivots ncpus) lpairs)) (\<lambda>pvs.
      res_bind (select_pivots ncpus (qs pcmp (concat pvs))) (\<lambda>pivots.
      res_bind (list_res (map (psrs_row pcmp ncpus pivots) lpairs)) (\<lambda>rows.
      Inr (lpairs, rows))))))"

definition psrs_single :: "nat \<Rightarrow> nat \<Rightarrow> bool" where
  "psrs_single total_len ncpus \<longleftrightarrow> ncpus = 1 \<or> total_len < ncpus * ncpus * ncpus"

text \<open>
  The whole sort. The partitions are written one after the other into an output of
  \<^verbatim>\<open>total_len\<close> pairs; the collections are emptied and the output becomes the first of them.
\<close>

definition psrs :: "(('e \<Rightarrow> 'e \<Rightarrow> int) \<Rightarrow> 'e list \<Rightarrow> 'e list) \<Rightarrow> ('e \<Rightarrow> 'e \<Rightarrow> int) \<Rightarrow> 'e parr list
    \<Rightarrow> nat \<Rightarrow> 'e parr list res" where
  "psrs qs pcmp acolls ncpus =
     (if ncpus = 0 then Inl Div_by_zero
      else if acolls = [] then Inl Out_of_bounds
      else
        let total_len = psrs_total acolls;
            store = (\<lambda>out. let freed = map parr_shallow_free acolls
                           in freed[0 := parr_set_elems (freed ! 0) out total_len])
        in if psrs_single total_len ncpus then
             res_bind (copy_elems acolls 0 (int total_len - 1)) (\<lambda>l. Inr (store (qs pcmp l)))
           else
             res_bind (psrs_split qs pcmp acolls ncpus) (\<lambda>(lpairs, rows).
             res_bind (list_res (map (psrs_mergesort pcmp lpairs rows) [0..<ncpus])) (\<lambda>outs.
             if length (concat outs) \<le> total_len then Inr (store (concat outs)) else Inl Out_of_bounds)))"

text \<open>
  With reduction: each worker reduces its partition; \<open>red\<close> is the reduction of the segments of
  one partition, and the result lists what each worker emits.
\<close>

definition psrs_reduce :: "(('e \<Rightarrow> 'e \<Rightarrow> int) \<Rightarrow> 'e list \<Rightarrow> 'e list) \<Rightarrow> ('e \<Rightarrow> 'e \<Rightarrow> int)
    \<Rightarrow> ('e parr list \<Rightarrow> 'o option res) \<Rightarrow> 'e parr list \<Rightarrow> nat \<Rightarrow> 'o list option res" where
  "psrs_reduce qs pcmp red acolls ncpus =
     (if ncpus = 0 then Inl Div_by_zero
      else
        let total_len = psrs_total acolls;
            run = (\<lambda>lpairs rows lcpu.
              run_bind (lift_res (list_res (map (\<lambda>(l, row). part_segment l row lcpu) (zip lpairs rows)))) red)
        in if psrs_single total_len ncpus then
             run_bind (lift_res (copy_elems acolls 0 (int total_len - 1))) (\<lambda>l.
             run_bind (run [qs pcmp l] [[0, int total_len]] 0) (\<lambda>out. ret [out]))
           else
             run_bind (lift_res (psrs_split qs pcmp acolls ncpus)) (\<lambda>(lpairs, rows).
             foldr (\<lambda>lcpu acc. run_bind (run lpairs rows lcpu) (\<lambda>out.
               run_bind acc (\<lambda>outs. ret (out # outs)))) [0..<ncpus] (ret [])))"

section \<open>Copying\<close>

lemma copy_count:
  fixes ds de g :: int
  assumes "g \<le> de" "ds \<le> g + int n - 1"
  shows "nat (min de (g + int n - 1) - g - (max ds g - g) + 1) = min (nat (de - g + 1)) n - nat (ds - g)"
proof (cases "ds \<le> g")
  case True
  then show ?thesis using assms by (cases "de \<le> g + int n - 1") (simp_all add: max_def min_def, linarith+)
next
  case False
  then show ?thesis using assms by (cases "de \<le> g + int n - 1") (simp_all add: max_def min_def, linarith+)
qed

lemma copy_loop_ok:
  assumes "\<forall>a \<in> set acolls. parr_inv a"
  shows "copy_loop acolls ds de g =
    Inr (drop (nat (ds - g)) (take (nat (de - g + 1)) (concat (map parr_elems acolls))))"
  using assms
proof (induction acolls arbitrary: g)
  case (Cons a acolls)
  let ?n = "pa_len a" and ?m = "nat (de - g + 1)" and ?d = "nat (ds - g)"
  let ?xs = "parr_elems a" and ?A = "concat (map parr_elems acolls)"
  have len: "length ?xs = ?n" using Cons.prems by (simp add: parr_inv_len)
  have shift: "nat (ds - (g + int ?n)) = ?d - ?n" "nat (de - (g + int ?n) + 1) = ?m - ?n" by arith+
  have IH: "copy_loop acolls ds de (g + int ?n) = Inr (drop (?d - ?n) (take (?m - ?n) ?A))"
    using Cons.IH [of "g + int ?n"] Cons.prems unfolding shift by simp
  have split: "drop ?d (take ?m (?xs @ ?A)) = drop ?d (take ?m ?xs) @ drop (?d - ?n) (take (?m - ?n) ?A)"
    using len by (cases "?m \<le> ?n") (auto simp: min_def)
  show ?case
  proof (cases "?n = 0")
    case True
    with IH split len show ?thesis by simp
  next
    case False
    then have buf: "parr_buf a = ?xs" using Cons.prems by (intro parr_buf_full) (auto simp: parr_inv_def)
    let ?ge = "g + int ?n - 1"
    show ?thesis
    proof (cases "g \<le> de \<and> ds \<le> ?ge")
      case True
      have ls: "nat (max ds g - g) = ?d" by (simp add: max_def)
      have cnt: "nat (min de ?ge - g - (max ds g - g) + 1) = min ?m ?n - ?d"
        using True by (intro copy_count) simp_all
      have le: "\<not> int (length ?xs) \<le> min de ?ge - g" using len by (simp add: min_def)
      have ge: "?ge + 1 = g + int ?n" by simp
      have tk: "take (min ?m ?n - ?d) (drop ?d ?xs) = drop ?d (take ?m ?xs)"
        using len by (simp add: drop_take min_def)
      have "copy_loop (a # acolls) ds de g = res_bind (copy_loop acolls ds de (g + int ?n))
          (\<lambda>rest. Inr (take (min ?m ?n - ?d) (drop ?d ?xs) @ rest))"
        unfolding copy_loop.simps Let_def buf ls cnt ge using True False le by (simp only: if_False if_True simp_thms)
      then show ?thesis unfolding IH tk using split by (simp only: res_bind_simps concat.simps list.map)
    next
      case no: False
      then have "drop ?d (take ?m ?xs) = []" using len by auto
      moreover have "copy_loop (a # acolls) ds de g = copy_loop acolls ds de (g + int ?n)"
        using no False by (auto simp: Let_def)
      ultimately show ?thesis unfolding IH using split by (simp only: append_Nil concat.simps list.map)
    qed
  qed
qed simp

lemma copy_elems_ok:
  assumes "\<forall>a \<in> set acolls. parr_inv a" "0 \<le> ds" "ds \<le> de + 1" "de < int (psrs_total acolls)"
  shows "copy_elems acolls ds de =
    Inr (drop (nat ds) (take (nat (de + 1)) (concat (map parr_elems acolls))))"
proof -
  have "length (concat (map parr_elems acolls)) = psrs_total acolls"
    using assms(1) unfolding psrs_total_def by (induction acolls) (auto simp: parr_inv_len)
  moreover have "int (min (psrs_total acolls) (nat (de + 1)) - nat ds) = de - ds + 1"
    using assms(2-4) by (simp add: min_def) linarith
  ultimately show ?thesis by (simp add: copy_elems_def copy_loop_ok [OF assms(1)])
qed

section \<open>Cuts of a sorted array\<close>

text \<open>
  The positions \<^verbatim>\<open>sublists\<close> is meant to deliver: for each pivot, the index of the first
  element greater than it, between 0 and the length.
\<close>

definition cut_at :: "('e \<Rightarrow> 'e \<Rightarrow> int) \<Rightarrow> 'e list \<Rightarrow> 'e \<Rightarrow> nat" where
  "cut_at pcmp l pv = length (takeWhile (\<lambda>x. pcmp x pv \<le> 0) l)"

definition cuts :: "('e \<Rightarrow> 'e \<Rightarrow> int) \<Rightarrow> 'e list \<Rightarrow> 'e list \<Rightarrow> nat list" where
  "cuts pcmp pvs l = 0 # map (cut_at pcmp l) pvs @ [length l]"

definition piece :: "('e \<Rightarrow> 'e \<Rightarrow> int) \<Rightarrow> 'e list \<Rightarrow> 'e list \<Rightarrow> nat \<Rightarrow> 'e list" where
  "piece pcmp pvs l k = drop (cuts pcmp pvs l ! k) (take (cuts pcmp pvs l ! (k + 1)) l)"

lemma length_cuts [simp]: "length (cuts pcmp pvs l) = length pvs + 2"
  by (simp add: cuts_def)

lemma cuts_0 [simp]: "cuts pcmp pvs l ! 0 = 0"
  by (simp add: cuts_def)

lemma cuts_last [simp]: "cuts pcmp pvs l ! (Suc (length pvs)) = length l"
  by (simp add: cuts_def nth_append)

lemma cuts_mid: "k < length pvs \<Longrightarrow> cuts pcmp pvs l ! (Suc k) = cut_at pcmp l (pvs ! k)"
  by (simp add: cuts_def nth_append)

lemma cut_at_le: "cut_at pcmp l pv \<le> length l"
  by (simp add: cut_at_def length_takeWhile_le)

lemma cuts_le: "k < length pvs + 2 \<Longrightarrow> cuts pcmp pvs l ! k \<le> length l"
  by (cases k) (auto simp: cuts_def nth_append cut_at_le not_less less_Suc_eq)

text \<open>Consecutive slices along rising positions make up the whole.\<close>

lemma slices_concat:
  assumes "\<And>k. k < n \<Longrightarrow> c k \<le> c (Suc k)" "c n \<le> length l"
  shows "concat (map (\<lambda>k. drop (c k) (take (c (Suc k)) l)) [0..<n]) = drop (c 0) (take (c n) l)"
  using assms
proof (induction n)
  case (Suc n)
  have c0: "c 0 \<le> c n" using Suc.prems(1) by (induction n) (auto intro: order_trans)
  have cn: "c n \<le> c (Suc n)" "c (Suc n) \<le> length l" using Suc.prems by auto
  have "take (c (Suc n)) l = take (c n) l @ drop (c n) (take (c (Suc n)) l)"
    using cn append_take_drop_id [of "c n" "take (c (Suc n)) l"] by (simp add: min_def)
  then have "drop (c 0) (take (c (Suc n)) l) = drop (c 0) (take (c n) l @ drop (c n) (take (c (Suc n)) l))" by simp
  also have "\<dots> = drop (c 0) (take (c n) l) @ drop (c n) (take (c (Suc n)) l)" using c0 cn by simp
  finally have "drop (c 0) (take (c (Suc n)) l) = drop (c 0) (take (c n) l) @ drop (c n) (take (c (Suc n)) l)" .
  with Suc cn show ?case by simp
qed simp

context comparator
begin

lemma cut_at_mono:
  assumes "cmp p q \<le> 0"
  shows "cut_at cmp l p \<le> cut_at cmp l q"
  using assms by (induction l) (auto simp: cut_at_def intro: cmp_trans)

lemma cuts_rise:
  assumes "csorted cmp pvs" "k \<le> length pvs"
  shows "cuts cmp pvs l ! k \<le> cuts cmp pvs l ! (Suc k)"
proof (cases k)
  case (Suc j)
  show ?thesis
  proof (cases "k < length pvs")
    case True
    with Suc assms(1) have "cmp (pvs ! j) (pvs ! k) \<le> 0" by (intro csorted_nth) auto
    with Suc True show ?thesis by (simp add: cuts_mid cut_at_mono)
  next
    case False
    with assms(2) have "Suc k = Suc (length pvs)" by simp
    then show ?thesis using cuts_le [of k pvs] assms(2) by (simp del: cuts_0)
  qed
qed simp

lemma pieces_concat:
  assumes "csorted cmp pvs"
  shows "concat (map (piece cmp pvs l) [0..<Suc (length pvs)]) = l"
proof -
  have "concat (map (\<lambda>k. drop (cuts cmp pvs l ! k) (take (cuts cmp pvs l ! Suc k) l)) [0..<Suc (length pvs)]) =
      drop (cuts cmp pvs l ! 0) (take (cuts cmp pvs l ! Suc (length pvs)) l)"
    by (rule slices_concat) (simp_all add: cuts_rise [OF assms])
  then show ?thesis unfolding piece_def Suc_eq_plus1 [symmetric] by (simp only: cuts_0 cuts_last) simp
qed

text \<open>A piece holds what lies between its pivots.\<close>

lemma piece_upper:
  assumes "x \<in> set (piece cmp pvs l k)" "k < length pvs"
  shows "cmp x (pvs ! k) \<le> 0"
proof -
  have "x \<in> set (take (cut_at cmp l (pvs ! k)) l)"
    using assms by (auto simp: piece_def cuts_mid dest: in_set_dropD)
  then have "x \<in> set (takeWhile (\<lambda>x. cmp x (pvs ! k) \<le> 0) l)"
    unfolding cut_at_def takeWhile_eq_take [symmetric] .
  then show ?thesis by (auto dest: set_takeWhileD)
qed

lemma piece_lower:
  assumes "csorted cmp l" "x \<in> set (piece cmp pvs l (Suc k))" "k < length pvs"
  shows "cmp (pvs ! k) x < 0"
proof -
  let ?P = "\<lambda>x. cmp x (pvs ! k) \<le> 0"
  have "x \<in> set (drop (cut_at cmp l (pvs ! k)) l)"
    using assms by (auto simp: piece_def cuts_mid drop_take dest: in_set_takeD)
  then have "x \<in> set (dropWhile ?P l)" unfolding cut_at_def dropWhile_eq_drop [symmetric] .
  then obtain y ys where y: "dropWhile ?P l = y # ys" "x = y \<or> x \<in> set ys"
    by (cases "dropWhile ?P l") auto
  have "\<not> ?P y" using y(1) hd_dropWhile [of ?P l] by simp
  moreover have "csorted cmp (y # ys)" using assms(1) y(1) by (metis csorted_drop dropWhile_eq_drop)
  ultimately have "0 < cmp y (pvs ! k)" "cmp y x \<le> 0" using y(2) by auto
  then show ?thesis using cmp_less_le_trans cmp_sym' by blast
qed

end

section \<open>The phases\<close>

lemma list_res_map: "(\<And>x. x \<in> set xs \<Longrightarrow> f x = Inr (g x)) \<Longrightarrow> list_res (map f xs) = Inr (map g xs)"
  by (induction xs) auto

lemma mset_concat_app:
  "mset (concat (map (\<lambda>l. g l @ h l) ls)) = mset (concat (map g ls)) + mset (concat (map h ls))"
  by (induction ls) auto

lemma mset_concat_swap:
  "mset (concat (map (\<lambda>k. concat (map (\<lambda>l. f l k) ls)) ks)) = mset (concat (map (\<lambda>l. concat (map (f l) ks)) ls))"
proof (induction ks)
  case Nil
  then show ?case by (induction ls) auto
next
  case (Cons k ks)
  then show ?case by (simp add: mset_concat_app)
qed

lemma psrs_range_start:
  assumes "0 < (n::nat)" "n * n * n \<le> t" "k < n"
  shows "(t + n - 1) div n * k \<le> t"
proof -
  let ?w = "(t + n - 1) div n"
  obtain m where m: "n = Suc m" using assms(1) by (cases n) auto
  have "m * m \<le> n * n * n" using m by simp
  then have mm: "m * m \<le> t" using assms(2) by linarith
  have "?w * n \<le> t + m" using m div_times_less_eq_dividend [of "t + n - 1" n] by simp
  then have "?w * n * m \<le> (t + m) * m" by (rule mult_le_mono1)
  also have "\<dots> \<le> t * n" using mm m by (simp add: algebra_simps)
  finally have "?w * m * n \<le> t * n" by (simp add: algebra_simps)
  then have "?w * m \<le> t" using assms(1) by simp
  moreover have "?w * k \<le> ?w * m" using assms(3) m by simp
  ultimately show ?thesis by linarith
qed

lemma psrs_locals:
  assumes "\<forall>a \<in> set acolls. parr_inv a" "0 < n" "n * n * n \<le> psrs_total acolls"
  defines "A \<equiv> concat (map parr_elems acolls)"
  shows "\<exists>ls. concat ls = A \<and> length ls = n \<and>
    list_res (map (\<lambda>lcpu. case psrs_range (psrs_total acolls) n lcpu of (start, stop) \<Rightarrow>
      res_bind (copy_elems acolls start stop) (\<lambda>l. Inr (qs pcmp l))) [0..<n]) = Inr (map (qs pcmp) ls)"
proof -
  let ?t = "psrs_total acolls"
  let ?w = "(?t + n - 1) div n"
  define c where "c k = min (?w * k) ?t" for k
  have lenA: "length A = ?t"
    using assms(1) unfolding psrs_total_def A_def by (induction acolls) (auto simp: parr_inv_len)
  have "?t \<le> ?w * n"
    using div_mult_mod_eq [of "?t + n - 1" n] mod_less_divisor [OF assms(2), of "?t + n - 1"] by linarith
  then have cn: "c n = ?t" by (simp add: c_def)
  define ls where "ls = map (\<lambda>k. drop (c k) (take (c (Suc k)) A)) [0..<n]"
  have "concat ls = drop (c 0) (take (c n) A)"
    unfolding ls_def by (rule slices_concat) (auto simp: c_def lenA min_def)
  then have "concat ls = A" using lenA cn by (simp add: c_def)
  moreover have "(case psrs_range ?t n k of (start, stop) \<Rightarrow>
      res_bind (copy_elems acolls start stop) (\<lambda>l. Inr (qs pcmp l))) = Inr (qs pcmp (ls ! k))" if k: "k < n" for k
  proof -
    have "?w * k \<le> ?t" by (rule psrs_range_start [OF assms(2,3) k])
    then have c: "c k = ?w * k" "c k \<le> c (Suc k)" "c (Suc k) \<le> ?t" by (simp_all add: c_def min_def)
    have "psrs_range ?t n k = (int (c k), int (c (Suc k)) - 1)"
      unfolding c(1) psrs_range_def Let_def
      by (auto simp: c_def min_def simp del: of_nat_mult of_nat_add of_nat_Suc mult_Suc_right)
    moreover have "copy_elems acolls (int (c k)) (int (c (Suc k)) - 1) = Inr (ls ! k)"
      using copy_elems_ok [OF assms(1), of "int (c k)" "int (c (Suc k)) - 1"] c(2,3) k
      by (simp add: ls_def A_def)
    ultimately show ?thesis by simp
  qed
  then have "list_res (map (\<lambda>lcpu. case psrs_range ?t n lcpu of (start, stop) \<Rightarrow>
      res_bind (copy_elems acolls start stop) (\<lambda>l. Inr (qs pcmp l))) [0..<n]) = Inr (map (\<lambda>k. qs pcmp (ls ! k)) [0..<n])"
    by (intro list_res_map) simp
  moreover have "map (\<lambda>k. qs pcmp (ls ! k)) [0..<n] = map (qs pcmp) ls"
    by (simp add: ls_def)
  moreover have "length ls = n" by (simp add: ls_def)
  ultimately show ?thesis by metis
qed

text \<open>One partition, when the rows are the intended cuts.\<close>

context comparator
begin

lemma part_merge:
  fixes pvs :: "'a list" and ls :: "'a list list"
  assumes "csorted cmp pvs" "k \<le> length pvs" "\<forall>l \<in> set ls. length l < 2 ^ 32 \<and> csorted cmp l"
  defines "rows \<equiv> map (\<lambda>l. map int (cuts cmp pvs l)) ls"
  shows "succeeds (psrs_mergesort cmp ls rows k) (\<lambda>out.
    mset out = mset (concat (map (\<lambda>l. piece cmp pvs l k) ls)) \<and> csorted cmp out)"
proof -
  have row: "map int (cuts cmp pvs l) ! k = int (cuts cmp pvs l ! k)"
    "map int (cuts cmp pvs l) ! Suc k = int (cuts cmp pvs l ! Suc k)" for l
    using assms(2) by simp_all
  define ins where "ins = map (\<lambda>l. (l, cuts cmp pvs l ! k, cuts cmp pvs l ! (k + 1))) ls"
  have small: "cuts cmp pvs l ! k < 2 ^ 32" "cuts cmp pvs l ! (k + 1) < 2 ^ 32" if "l \<in> set ls" for l
    using cuts_le [of k pvs cmp l] cuts_le [of "k + 1" pvs cmp l] assms(2,3) that by fastforce+
  have inputs: "part_inputs ls rows k = ins"
    using small by (auto simp: part_inputs_def rows_def ins_def zip_map2 zip_same_conv_map row)
  have left: "map left_over ins = map (\<lambda>l. piece cmp pvs l k) ls"
    by (simp add: ins_def left_over_def piece_def drop_take)
  have size: "part_size rows k = int (length (concat (map left_over ins)))"
  proof -
    have "int (length (piece cmp pvs l k)) = int (cuts cmp pvs l ! (k + 1)) - int (cuts cmp pvs l ! k)" for l
      using cuts_rise [OF assms(1,2), of l] cuts_le [of "k + 1" pvs cmp l] assms(2)
      by (simp add: piece_def min_def of_nat_diff)
    then show ?thesis unfolding left part_size_def rows_def
      by (induction ls) (simp_all add: row)
  qed
  have "\<forall>inp \<in> set ins. in_range inp"
    using cuts_le [of "k + 1" pvs cmp] assms(2) by (auto simp: ins_def in_range_def)
  moreover have "\<forall>inp \<in> set ins. csorted cmp (left_over inp)"
    using assms(3) by (auto simp: ins_def left_over_def)
  ultimately show ?thesis
    using merge_loop_ok [of ins "length (concat (map left_over ins))"]
    by (auto simp: psrs_mergesort_def size inputs left elim!: succeeds_mono)
qed

lemma csorted_concat:
  assumes "\<And>k. k < n \<Longrightarrow> csorted cmp (f k)"
    and "\<And>i j x y. i < j \<Longrightarrow> j < n \<Longrightarrow> x \<in> set (f i) \<Longrightarrow> y \<in> set (f j) \<Longrightarrow> cmp x y \<le> 0"
  shows "csorted cmp (concat (map f [0..<n]))"
  using assms by (induction n) (auto simp: csorted_append)

lemma parts_merge:
  assumes "csorted cmp pvs" "\<forall>l \<in> set ls. length l < 2 ^ 32 \<and> csorted cmp l"
  defines "rows \<equiv> map (\<lambda>l. map int (cuts cmp pvs l)) ls"
  shows "succeeds (list_res (map (psrs_mergesort cmp ls rows) [0..<Suc (length pvs)])) (\<lambda>outs.
    csorted cmp (concat outs) \<and> mset (concat outs) = mset (concat ls))"
proof -
  let ?n = "Suc (length pvs)"
  have "\<forall>k. \<exists>out. k < ?n \<longrightarrow> psrs_mergesort cmp ls rows k = Inr out \<and>
      mset out = mset (concat (map (\<lambda>l. piece cmp pvs l k) ls)) \<and> csorted cmp out"
    using part_merge [OF assms(1) _ assms(2)] unfolding rows_def by (auto simp: less_Suc_eq_le elim!: succeedsE)
  then obtain f where f: "\<And>k. k < ?n \<Longrightarrow> psrs_mergesort cmp ls rows k = Inr (f k) \<and>
      mset (f k) = mset (concat (map (\<lambda>l. piece cmp pvs l k) ls)) \<and> csorted cmp (f k)" by metis
  have run: "list_res (map (psrs_mergesort cmp ls rows) [0..<?n]) = Inr (map f [0..<?n])"
    by (intro list_res_map) (use f in \<open>auto simp only: set_upt atLeastLessThan_iff\<close>)
  have mem: "\<exists>l \<in> set ls. x \<in> set (piece cmp pvs l k)" if "x \<in> set (f k)" "k < ?n" for x k
  proof -
    have "set (f k) = set (concat (map (\<lambda>l. piece cmp pvs l k) ls))" using f [OF that(2)] by (metis set_mset_mset)
    with that(1) show ?thesis by auto
  qed
  have "csorted cmp (concat (map f [0..<?n]))"
  proof (rule csorted_concat)
    fix i j x y assume ij: "i < j" "j < ?n" and "x \<in> set (f i)" "y \<in> set (f j)"
    with mem [of x i] mem [of y j] obtain l l' where x: "x \<in> set (piece cmp pvs l i)"
      and y: "l' \<in> set ls" "y \<in> set (piece cmp pvs l' j)" by auto
    obtain j' where j': "j = Suc j'" using ij(1) by (cases j) auto
    have "cmp x (pvs ! i) \<le> 0" using piece_upper [OF x] ij by simp
    moreover have "cmp (pvs ! i) (pvs ! j') \<le> 0"
      using csorted_nth [OF assms(1), of i j'] ij j' by (cases "i = j'") auto
    moreover have "cmp (pvs ! j') y < 0" using piece_lower [of l' y pvs j'] y ij j' assms(2) by simp
    ultimately show "cmp x y \<le> 0" using cmp_trans [OF cmp_trans] by fastforce
  qed (use f in simp)
  moreover have "mset (concat (map f [0..<?n])) = mset (concat ls)"
  proof -
    have "mset (concat (map f [0..<?n])) = mset (concat (map (\<lambda>k. concat (map (\<lambda>l. piece cmp pvs l k) ls)) [0..<?n]))"
      unfolding mset_concat map_map comp_def
      by (intro arg_cong [where f = sum_list] map_cong refl) (use f in \<open>auto simp only: set_upt atLeastLessThan_iff mset_concat map_map comp_def\<close>)
    also have "\<dots> = mset (concat (map (\<lambda>l. concat (map (piece cmp pvs l) [0..<?n])) ls))"
      by (rule mset_concat_swap)
    also have "\<dots> = mset (concat ls)" by (simp only: pieces_concat [OF assms(1)] list.map_ident)
    finally show ?thesis .
  qed
  ultimately show ?thesis by (simp only: run succeeds_simps)
qed

end

section \<open>Main results\<close>

lemma psrs_total_length:
  "\<forall>a \<in> set acolls. parr_inv a \<Longrightarrow> length (concat (map parr_elems acolls)) = psrs_total acolls"
  unfolding psrs_total_def by (induction acolls) (auto simp: parr_inv_len)

lemma psrs_single_ok:
  assumes "comparator pcmp" "qsort_impl qs" "\<forall>a \<in> set acolls. parr_inv a" "acolls \<noteq> []"
    and "0 < ncpus" "psrs_single (psrs_total acolls) ncpus"
  shows "succeeds (psrs qs pcmp acolls ncpus) (\<lambda>cs. csorted pcmp (parr_elems (cs ! 0)) \<and>
    mset (parr_elems (cs ! 0)) = mset (concat (map parr_elems acolls)) \<and>
    (\<forall>a \<in> set (tl cs). parr_elems a = []) \<and> cs \<noteq> [])"
proof -
  let ?A = "concat (map parr_elems acolls)"
  note len = psrs_total_length [OF assms(3)]
  have copy: "copy_elems acolls 0 (int (psrs_total acolls) - 1) = Inr ?A"
    using copy_elems_ok [OF assms(3), of 0 "int (psrs_total acolls) - 1"] len by simp
  obtain a as where acolls: "acolls = a # as" using assms(4) by (cases acolls) auto
  have "length (qs pcmp ?A) = psrs_total acolls" using len qsort_impl.qsort_length [OF assms(2)] by simp
  then show ?thesis
    using copy assms(5,6) qsort_impl.qsort_perm [OF assms(2)] qsort_impl.qsort_sorted [OF assms(2,1)]
    by (simp add: psrs_def Let_def acolls parr_set_elems_inv(2))
qed

text \<open>With one worker, or with fewer pairs than the cube of the number of workers, the main worker
  sorts everything by itself: the first collection ends up with all the pairs in order, the others
  end up empty.\<close>

theorem psrs_single_sorts:
  assumes "comparator pcmp" "qsort_impl qs" "\<forall>a \<in> set acolls. parr_inv a" "acolls \<noteq> []"
    and "0 < ncpus" "psrs_single (psrs_total acolls) ncpus"
  shows "succeeds (psrs qs pcmp acolls ncpus) (\<lambda>cs. csorted pcmp (parr_elems (cs ! 0)) \<and>
    mset (parr_elems (cs ! 0)) = mset (concat (map parr_elems acolls)) \<and>
    (\<forall>a \<in> set (tl cs). parr_elems a = []))"
  by (rule succeeds_mono [OF psrs_single_ok [OF assms]]) simp

theorem psrs_single_sorts_witness:
  "succeeds (psrs c_isort (\<lambda>x y :: int. x - y) [\<lparr>pa_len = 2, pa_alloc = 8, pa_arr = Some [7, 1]\<rparr>,
      \<lparr>pa_len = 1, pa_alloc = 8, pa_arr = Some [4]\<rparr>] 4)
    (\<lambda>cs. csorted (\<lambda>x y :: int. x - y) (parr_elems (cs ! 0)) \<and> mset (parr_elems (cs ! 0)) = {#7, 1, 4#} \<and>
      (\<forall>a \<in> set (tl cs). parr_elems a = []))"
  using psrs_single_sorts [OF int_cmp.comparator_axioms isort.qsort_impl_axioms,
      of "[\<lparr>pa_len = 2, pa_alloc = 8, pa_arr = Some [7, 1]\<rparr>, \<lparr>pa_len = 1, pa_alloc = 8, pa_arr = Some [4]\<rparr>]" 4]
  by (simp add: parr_inv_def parr_elems_def psrs_single_def psrs_total_def)





end
