(* ===== verification/Barrier.thy ===== *)
theory Barrier
  imports Metis_Prelude
begin

text \<open>
  The barrier between the phases of the parallel sort (\<^verbatim>\<open>psrs_barrier\<close> in
  \<^verbatim>\<open>metis/lib/psrs.c\<close>): the main worker raises \<^verbatim>\<open>status\<close>, waits until every other
  worker has set its \<^verbatim>\<open>ready\<close> flag, lowers \<^verbatim>\<open>status\<close>, and waits until every flag is
  cleared. Each access to shared memory is one step; a worker that spins on a flag has no step
  until the flag changes. The counters \<open>arrived\<close> and \<open>departed\<close> are not in the program:
  they count how often a worker has entered and left the barrier.
\<close>

section \<open>The step relation\<close>

datatype bstatus = STOP | START

text \<open>Where a worker is: outside, or at one of the accesses of the barrier's code.\<close>

datatype bpc =
    Outside
  | Main_wait_ready nat
  | Main_wait_clear nat
  | Wait_start
  | Set_ready
  | Wait_stop
  | Clear_ready

record bstate =
  status :: bstatus
  ready :: "nat \<Rightarrow> bool"
  pc :: "nat \<Rightarrow> bpc"
  arrived :: "nat \<Rightarrow> nat"
  departed :: "nat \<Rightarrow> nat"

definition main_lcpu :: nat where
  "main_lcpu = 0"

definition bar_init :: bstate where
  "bar_init = \<lparr>status = STOP, ready = \<lambda>_. False, pc = \<lambda>_. Outside, arrived = \<lambda>_. 0, departed = \<lambda>_. 0\<rparr>"

inductive bar_step :: "nat \<Rightarrow> nat \<Rightarrow> bstate \<Rightarrow> bstate \<Rightarrow> bool" for ncpus :: nat where
  main_enter: "pc s main_lcpu = Outside \<Longrightarrow>
    bar_step ncpus main_lcpu s (s\<lparr>status := START, pc := (pc s)(main_lcpu := Main_wait_ready 0),
      arrived := (arrived s)(main_lcpu := Suc (arrived s main_lcpu))\<rparr>)"
| main_ready: "pc s main_lcpu = Main_wait_ready i \<Longrightarrow> i < ncpus \<Longrightarrow> i = main_lcpu \<or> ready s i \<Longrightarrow>
    bar_step ncpus main_lcpu s (s\<lparr>pc := (pc s)(main_lcpu := Main_wait_ready (Suc i))\<rparr>)"
| main_stop: "pc s main_lcpu = Main_wait_ready i \<Longrightarrow> ncpus \<le> i \<Longrightarrow>
    bar_step ncpus main_lcpu s (s\<lparr>status := STOP, pc := (pc s)(main_lcpu := Main_wait_clear 0)\<rparr>)"
| main_clear: "pc s main_lcpu = Main_wait_clear i \<Longrightarrow> i < ncpus \<Longrightarrow> i = main_lcpu \<or> \<not> ready s i \<Longrightarrow>
    bar_step ncpus main_lcpu s (s\<lparr>pc := (pc s)(main_lcpu := Main_wait_clear (Suc i))\<rparr>)"
| main_leave: "pc s main_lcpu = Main_wait_clear i \<Longrightarrow> ncpus \<le> i \<Longrightarrow>
    bar_step ncpus main_lcpu s (s\<lparr>pc := (pc s)(main_lcpu := Outside),
      departed := (departed s)(main_lcpu := Suc (departed s main_lcpu))\<rparr>)"
| enter: "lcpu < ncpus \<Longrightarrow> lcpu \<noteq> main_lcpu \<Longrightarrow> pc s lcpu = Outside \<Longrightarrow>
    bar_step ncpus lcpu s (s\<lparr>pc := (pc s)(lcpu := Wait_start),
      arrived := (arrived s)(lcpu := Suc (arrived s lcpu))\<rparr>)"
| started: "lcpu < ncpus \<Longrightarrow> lcpu \<noteq> main_lcpu \<Longrightarrow> pc s lcpu = Wait_start \<Longrightarrow> status s = START \<Longrightarrow>
    bar_step ncpus lcpu s (s\<lparr>pc := (pc s)(lcpu := Set_ready)\<rparr>)"
| set_ready: "lcpu < ncpus \<Longrightarrow> lcpu \<noteq> main_lcpu \<Longrightarrow> pc s lcpu = Set_ready \<Longrightarrow>
    bar_step ncpus lcpu s (s\<lparr>pc := (pc s)(lcpu := Wait_stop), ready := (ready s)(lcpu := True)\<rparr>)"
| stopped: "lcpu < ncpus \<Longrightarrow> lcpu \<noteq> main_lcpu \<Longrightarrow> pc s lcpu = Wait_stop \<Longrightarrow> status s = STOP \<Longrightarrow>
    bar_step ncpus lcpu s (s\<lparr>pc := (pc s)(lcpu := Clear_ready)\<rparr>)"
| leave: "lcpu < ncpus \<Longrightarrow> lcpu \<noteq> main_lcpu \<Longrightarrow> pc s lcpu = Clear_ready \<Longrightarrow>
    bar_step ncpus lcpu s (s\<lparr>pc := (pc s)(lcpu := Outside), ready := (ready s)(lcpu := False),
      departed := (departed s)(lcpu := Suc (departed s lcpu))\<rparr>)"

inductive_cases bar_stepE: "bar_step ncpus lcpu s s'"

inductive bar_reach :: "nat \<Rightarrow> bstate \<Rightarrow> bool" for ncpus :: nat where
  reach_init: "bar_reach ncpus bar_init"
| reach_step: "bar_reach ncpus s \<Longrightarrow> bar_step ncpus lcpu s s' \<Longrightarrow> bar_reach ncpus s'"

section \<open>The invariant\<close>

text \<open>
  What holds of the other workers in each phase of the main worker's round \<open>k\<close>: before the
  round all flags are down; while \<^verbatim>\<open>status\<close> is up a worker is on its way to set its flag,
  and those already seen have set it; after that a worker still has its flag up or has left.
\<close>

definition idle_at :: "bstate \<Rightarrow> nat \<Rightarrow> nat \<Rightarrow> bool" where
  "idle_at s k i \<longleftrightarrow> \<not> ready s i \<and> departed s i = k \<and>
     (pc s i = Outside \<and> arrived s i = k \<or> pc s i = Wait_start \<and> arrived s i = Suc k)"

definition rising_at :: "bstate \<Rightarrow> nat \<Rightarrow> nat \<Rightarrow> bool" where
  "rising_at s k i \<longleftrightarrow> idle_at s k i \<or>
     departed s i = k \<and> arrived s i = Suc k \<and> (pc s i = Set_ready \<and> \<not> ready s i \<or> pc s i = Wait_stop \<and> ready s i)"

definition falling_at :: "bstate \<Rightarrow> nat \<Rightarrow> nat \<Rightarrow> bool" where
  "falling_at s k i \<longleftrightarrow> idle_at s (Suc k) i \<or>
     departed s i = k \<and> arrived s i = Suc k \<and> ready s i \<and> (pc s i = Wait_stop \<or> pc s i = Clear_ready)"

definition others :: "nat \<Rightarrow> nat set" where
  "others ncpus = {i. i < ncpus \<and> i \<noteq> main_lcpu}"

definition bar_inv :: "nat \<Rightarrow> bstate \<Rightarrow> bool" where
  "bar_inv ncpus s \<longleftrightarrow>
     (let k = departed s main_lcpu in
      case pc s main_lcpu of
        Outside \<Rightarrow> status s = STOP \<and> arrived s main_lcpu = k \<and> (\<forall>i \<in> others ncpus. idle_at s k i)
      | Main_wait_ready j \<Rightarrow> status s = START \<and> arrived s main_lcpu = Suc k \<and> j \<le> ncpus \<and>
          (\<forall>i \<in> others ncpus. rising_at s k i \<and> (i < j \<longrightarrow> ready s i))
      | Main_wait_clear j \<Rightarrow> status s = STOP \<and> arrived s main_lcpu = Suc k \<and> j \<le> ncpus \<and>
          (\<forall>i \<in> others ncpus. falling_at s k i \<and> (i < j \<longrightarrow> \<not> ready s i))
      | _ \<Rightarrow> False)"

lemma at_frame:
  assumes "ready s' i = ready s i" "pc s' i = pc s i" "arrived s' i = arrived s i" "departed s' i = departed s i"
  shows "idle_at s' k i = idle_at s k i" "rising_at s' k i = rising_at s k i" "falling_at s' k i = falling_at s k i"
  using assms by (simp_all add: idle_at_def rising_at_def falling_at_def)

lemma main_not_other [simp]: "main_lcpu \<notin> others ncpus"
  by (simp add: others_def)

text \<open>A step of another worker keeps what the main worker's phase says about that worker.\<close>

lemma worker_step_at:
  assumes "bar_step ncpus lcpu s s'" "lcpu \<noteq> main_lcpu"
  shows "idle_at s k lcpu \<Longrightarrow> status s = STOP \<Longrightarrow> idle_at s' k lcpu"
    and "rising_at s k lcpu \<Longrightarrow> status s = START \<Longrightarrow> rising_at s' k lcpu \<and> (ready s lcpu \<longrightarrow> ready s' lcpu)"
    and "falling_at s k lcpu \<Longrightarrow> status s = STOP \<Longrightarrow> falling_at s' k lcpu \<and> (\<not> ready s lcpu \<longrightarrow> \<not> ready s' lcpu)"
  using assms
  by (cases rule: bar_step.cases; auto simp: idle_at_def rising_at_def falling_at_def)+

lemma worker_step_frame:
  assumes "bar_step ncpus lcpu s s'" "lcpu \<noteq> main_lcpu" "i \<noteq> lcpu"
  shows "ready s' i = ready s i" "pc s' i = pc s i" "arrived s' i = arrived s i" "departed s' i = departed s i"
    "status s' = status s"
  using assms by (cases rule: bar_step.cases; simp)+

lemma bar_inv_worker:
  assumes step: "bar_step ncpus lcpu s s'" and lcpu: "lcpu \<noteq> main_lcpu" and inv: "bar_inv ncpus s"
  shows "bar_inv ncpus s'"
proof -
  note frame = worker_step_frame [OF step lcpu]
  note main = frame(2-4) [of main_lcpu] lcpu frame(5) [of main_lcpu]
  have at: "idle_at s' k i = idle_at s k i" "rising_at s' k i = rising_at s k i"
    "falling_at s' k i = falling_at s k i" "ready s' i = ready s i" if "i \<noteq> lcpu" for i k
    by (fact at_frame [OF frame(1-4) [OF that]] frame(1) [OF that])+
  note own = worker_step_at [OF step lcpu]
  show ?thesis
  proof (cases "pc s main_lcpu")
    case Outside
    with inv main at own(1) show ?thesis by (simp add: bar_inv_def Let_def) metis
  next
    case (Main_wait_ready j)
    with inv main at own(2) show ?thesis by (simp add: bar_inv_def Let_def) metis
  next
    case (Main_wait_clear j)
    with inv main at own(3) show ?thesis by (simp add: bar_inv_def Let_def) metis
  qed (use inv in \<open>simp_all add: bar_inv_def\<close>)
qed

lemma bar_inv_main:
  assumes "bar_step ncpus main_lcpu s s'" "bar_inv ncpus s"
  shows "bar_inv ncpus s'"
  using assms
proof (cases rule: bar_step.cases)
  case main_enter
  then have "idle_at s' k i = idle_at s k i" if "i \<in> others ncpus" for i k
    using that by (intro at_frame) (auto simp: others_def)
  with main_enter assms(2) show ?thesis by (auto simp: bar_inv_def Let_def rising_at_def)
next
  case (main_ready i)
  then have "rising_at s' k i = rising_at s k i" if "i \<in> others ncpus" for i k
    using that by (intro at_frame) (auto simp: others_def)
  with main_ready assms(2) show ?thesis by (auto simp: bar_inv_def Let_def less_Suc_eq)
next
  case (main_stop i)
  then have at: "falling_at s' k i = falling_at s k i" if "i \<in> others ncpus" for i k
    using that by (intro at_frame) (auto simp: others_def)
  have "falling_at s (departed s main_lcpu) j" if "j \<in> others ncpus" for j
    using assms(2) main_stop that
    by (auto simp: bar_inv_def Let_def others_def rising_at_def falling_at_def idle_at_def)
  with at main_stop assms(2) show ?thesis by (auto simp: bar_inv_def Let_def)
next
  case (main_clear i)
  then have "falling_at s' k i = falling_at s k i" if "i \<in> others ncpus" for i k
    using that by (intro at_frame) (auto simp: others_def)
  with main_clear assms(2) show ?thesis by (auto simp: bar_inv_def Let_def less_Suc_eq)
next
  case (main_leave i)
  then have at: "idle_at s' k i = idle_at s k i" if "i \<in> others ncpus" for i k
    using that by (intro at_frame) (auto simp: others_def)
  have "idle_at s (Suc (departed s main_lcpu)) j" if "j \<in> others ncpus" for j
    using assms(2) main_leave that by (auto simp: bar_inv_def Let_def others_def falling_at_def)
  with at main_leave assms(2) show ?thesis by (auto simp: bar_inv_def Let_def)
qed auto

lemma bar_inv_reach: "bar_reach ncpus s \<Longrightarrow> bar_inv ncpus s"
proof (induction rule: bar_reach.induct)
  case reach_init
  then show ?case by (simp add: bar_inv_def bar_init_def idle_at_def)
next
  case (reach_step s lcpu s')
  then show ?case by (cases "lcpu = main_lcpu") (auto intro: bar_inv_main bar_inv_worker)
qed

section \<open>Progress\<close>

text \<open>
  The work left inside the barrier: every step but entering takes some of it away, so once all
  workers are inside, the barrier is left after a bounded number of steps.
\<close>

fun pc_work :: "nat \<Rightarrow> bpc \<Rightarrow> nat" where
  "pc_work n Outside = 0"
| "pc_work n (Main_wait_ready i) = 2 * n + 3 - i"
| "pc_work n (Main_wait_clear i) = n + 1 - i"
| "pc_work n Wait_start = 4"
| "pc_work n Set_ready = 3"
| "pc_work n Wait_stop = 2"
| "pc_work n Clear_ready = 1"

definition bar_work :: "nat \<Rightarrow> bstate \<Rightarrow> nat" where
  "bar_work n s = (\<Sum>i < n. pc_work n (pc s i))"

lemma bar_work_step:
  assumes "lcpu < n" "pc_work n (pc s' lcpu) < pc_work n (pc s lcpu)" "\<And>i. i \<noteq> lcpu \<Longrightarrow> pc s' i = pc s i"
  shows "bar_work n s' < bar_work n s"
  unfolding bar_work_def
proof (rule sum_strict_mono_ex1)
  show "\<forall>i \<in> {..<n}. pc_work n (pc s' i) \<le> pc_work n (pc s i)"
    using assms(2,3) by (metis less_imp_le order_refl)
qed (use assms(1,2) in auto)

lemma bar_counts:
  assumes "bar_inv ncpus s"
  shows "\<exists>k b. b \<le> 1 \<and> (\<forall>i < ncpus. k \<le> departed s i \<and> departed s i \<le> k + b \<and>
    k + b \<le> arrived s i \<and> arrived s i \<le> k + b + 1)"
proof (cases "pc s main_lcpu")
  case (Main_wait_clear j)
  have "departed s main_lcpu \<le> departed s i \<and> departed s i \<le> departed s main_lcpu + 1 \<and>
      departed s main_lcpu + 1 \<le> arrived s i \<and> arrived s i \<le> departed s main_lcpu + 2" if "i < ncpus" for i
    using assms Main_wait_clear that
    by (cases "i = main_lcpu") (auto simp: bar_inv_def Let_def others_def falling_at_def idle_at_def)
  then show ?thesis by (intro exI [of _ "departed s main_lcpu"] exI [of _ 1]) auto
next
  case Outside
  have "departed s i = departed s main_lcpu \<and> departed s main_lcpu \<le> arrived s i \<and>
      arrived s i \<le> departed s main_lcpu + 1" if "i < ncpus" for i
    using assms Outside that by (cases "i = main_lcpu") (auto simp: bar_inv_def Let_def others_def idle_at_def)
  then show ?thesis by (intro exI [of _ "departed s main_lcpu"] exI [of _ 0]) auto
next
  case (Main_wait_ready j)
  have "departed s i = departed s main_lcpu \<and> departed s main_lcpu \<le> arrived s i \<and>
      arrived s i \<le> departed s main_lcpu + 1" if "i < ncpus" for i
    using assms Main_wait_ready that
    by (cases "i = main_lcpu") (auto simp: bar_inv_def Let_def others_def rising_at_def idle_at_def)
  then show ?thesis by (intro exI [of _ "departed s main_lcpu"] exI [of _ 0]) auto
qed (use assms in \<open>simp_all add: bar_inv_def\<close>)

section \<open>Main results\<close>

text \<open>C15. No worker leaves the barrier before every worker has entered it, in every reachable state and
  in every round: no worker has left more often than another has entered; and no worker is more than
  one round ahead of one that has not left yet.\<close>

theorem barrier_separates:
  assumes "bar_reach ncpus s" "i < ncpus" "j < ncpus"
  shows "departed s i \<le> arrived s j \<and> arrived s j \<le> departed s i + 2"
proof -
  obtain k b where "b \<le> 1" "\<forall>i < ncpus. k \<le> departed s i \<and> departed s i \<le> k + b \<and>
      k + b \<le> arrived s i \<and> arrived s i \<le> k + b + 1"
    using bar_counts [OF bar_inv_reach [OF assms(1)]] by blast
  with assms(2,3) have "departed s i \<le> k + b" "k \<le> departed s i" "k + b \<le> arrived s j" "arrived s j \<le> k + b + 1"
    by auto
  with \<open>b \<le> 1\<close> show ?thesis by linarith
qed

lemma bar_reach_enter1:
  "bar_reach 2 (bar_init\<lparr>pc := (\<lambda>_. Outside)(1 := Wait_start), arrived := (\<lambda>_. 0)(1 := 1)\<rparr>)"
  using reach_step [OF reach_init enter [of 1 2 bar_init]] by (simp add: bar_init_def main_lcpu_def)

theorem barrier_separates_witness:
  "departed (bar_init\<lparr>pc := (\<lambda>_. Outside)(1 := Wait_start), arrived := (\<lambda>_. 0)(1 := 1)\<rparr>) 1 \<le> (0 :: nat)"
  using barrier_separates [OF bar_reach_enter1, of 1 0] by (simp add: bar_init_def)

text \<open>C28. The barrier cannot deadlock: in every reachable state in which all workers are inside it, some
  worker has a step, and that step takes the barrier closer to its end.\<close>

theorem barrier_progress:
  assumes "bar_reach ncpus s" "0 < ncpus" "\<forall>i < ncpus. pc s i \<noteq> Outside"
  shows "\<exists>lcpu s'. lcpu < ncpus \<and> bar_step ncpus lcpu s s' \<and> bar_work ncpus s' < bar_work ncpus s"
proof -
  note inv = bar_inv_reach [OF assms(1)]
  have main: "main_lcpu < ncpus" using assms(2) by (simp add: main_lcpu_def)
  have go: ?thesis if "bar_step ncpus l s s'" "l < ncpus" "pc_work ncpus (pc s' l) < pc_work ncpus (pc s l)"
    "\<And>i. i \<noteq> l \<Longrightarrow> pc s' i = pc s i" for l s'
    using that bar_work_step [of l ncpus s' s] by blast
  show ?thesis
  proof (cases "pc s main_lcpu")
    case (Main_wait_ready j)
    then have j: "j \<le> ncpus" "status s = START" "\<forall>i \<in> others ncpus. rising_at s (departed s main_lcpu) i"
      using inv by (auto simp: bar_inv_def Let_def)
    consider "j = ncpus" | "j < ncpus" "j = main_lcpu \<or> ready s j" | "j \<in> others ncpus" "\<not> ready s j"
      using j(1) unfolding others_def by fastforce
    then show ?thesis
    proof cases
      case 1
      show ?thesis by (rule go [OF main_stop [OF Main_wait_ready] main]) (use 1 Main_wait_ready in simp_all)
    next
      case 2
      show ?thesis by (rule go [OF main_ready [OF Main_wait_ready 2] main]) (use 2 Main_wait_ready in simp_all)
    next
      case 3
      then have "j < ncpus" "j \<noteq> main_lcpu" by (auto simp: others_def)
      moreover have "pc s j = Wait_start \<or> pc s j = Set_ready"
        using 3 j(3) assms(3) by (auto simp: others_def rising_at_def idle_at_def)
      ultimately show ?thesis
        using go [OF started [of j ncpus s]] go [OF set_ready [of j ncpus s]] j(2) by auto
    qed
  next
    case (Main_wait_clear j)
    then have j: "j \<le> ncpus" "status s = STOP" "\<forall>i \<in> others ncpus. falling_at s (departed s main_lcpu) i"
      using inv by (auto simp: bar_inv_def Let_def)
    consider "j = ncpus" | "j < ncpus" "j = main_lcpu \<or> \<not> ready s j" | "j \<in> others ncpus" "ready s j"
      using j(1) unfolding others_def by fastforce
    then show ?thesis
    proof cases
      case 1
      show ?thesis by (rule go [OF main_leave [OF Main_wait_clear] main]) (use 1 Main_wait_clear in simp_all)
    next
      case 2
      show ?thesis by (rule go [OF main_clear [OF Main_wait_clear 2] main]) (use 2 Main_wait_clear in simp_all)
    next
      case 3
      then have "j < ncpus" "j \<noteq> main_lcpu" by (auto simp: others_def)
      moreover have "pc s j = Wait_stop \<or> pc s j = Clear_ready"
        using 3 j(3) by (auto simp: others_def falling_at_def idle_at_def)
      ultimately show ?thesis
        using go [OF stopped [of j ncpus s]] go [OF leave [of j ncpus s]] j(2) by auto
    qed
  qed (use inv main assms(3) in \<open>auto simp: bar_inv_def\<close>)
qed

theorem barrier_progress_witness:
  "\<exists>lcpu s'. lcpu < 1 \<and> bar_step 1 lcpu
      (bar_init\<lparr>status := START, pc := (\<lambda>_. Outside)(0 := Main_wait_ready 0), arrived := (\<lambda>_. 0)(0 := 1)\<rparr>) s'"
proof -
  have "bar_reach 1 (bar_init\<lparr>status := START, pc := (\<lambda>_. Outside)(0 := Main_wait_ready 0),
      arrived := (\<lambda>_. 0)(0 := 1)\<rparr>)"
    using reach_step [OF reach_init main_enter [of bar_init 1]] by (simp add: bar_init_def main_lcpu_def)
  from barrier_progress [OF this] show ?thesis by auto
qed

end
