(* ===== verification/Estimation.thy ===== *)
theory Estimation
  imports Metis_Prelude
begin

text \<open>
  Estimating the numbers of keys and pairs of a run from a sample (\<^verbatim>\<open>metis/lib/estimation.c\<close>).
  The counters are \<^verbatim>\<open>uint64_t\<close>, modelled as 64-bit words: arithmetic wraps and division is
  unsigned. Each map worker has its own row of counters.
\<close>

section \<open>The counters\<close>

record mstate =
  cur_nkeys :: "64 word"
  cur_npairs :: "64 word"
  last_nkeys :: "64 word"
  last_npairs :: "64 word"
  key_rate :: "64 word"
  pair_rate :: "64 word"
  nsampled :: "64 word"

definition est_interval :: "64 word" where
  "est_interval = 1000"

definition mstate0 :: mstate where
  "mstate0 = \<lparr>cur_nkeys = 0, cur_npairs = 0, last_nkeys = 0, last_npairs = 0, key_rate = 0,
     pair_rate = 0, nsampled = 0\<rparr>"

definition est_init :: "nat \<Rightarrow> mstate list" where
  "est_init ncpu = replicate ncpu mstate0"

definition est_interval_passed :: "mstate \<Rightarrow> mstate" where
  "est_interval_passed st =
     st\<lparr>key_rate := (if last_nkeys st = 0 then cur_nkeys st
                     else key_rate st div 2 + (cur_nkeys st - last_nkeys st) div 2),
        last_nkeys := cur_nkeys st\<rparr>"

definition est_task_finished :: "mstate \<Rightarrow> mstate" where
  "est_task_finished st =
     st\<lparr>pair_rate := (if last_npairs st = 0 then cur_npairs st
                      else pair_rate st div 2 + (cur_npairs st - last_npairs st) div 2),
        last_npairs := cur_npairs st, nsampled := nsampled st + 1\<rparr>"

text \<open>The estimates for a run of \<open>ntotal\<close> tasks: pairs, then keys.\<close>

definition est_estimate :: "mstate \<Rightarrow> int \<Rightarrow> 64 word \<times> 64 word" where
  "est_estimate st ntotal =
     (let npairs = pair_rate st * (word_of_int ntotal - nsampled st) + cur_npairs st;
          nkeys = key_rate st * (npairs - cur_npairs st) div est_interval + cur_nkeys st
      in (nkeys, npairs))"

definition est_get_finished :: "mstate \<Rightarrow> int" where
  "est_get_finished st = sint (ucast (nsampled st) :: 32 word)"

definition est_newpair :: "mstate \<Rightarrow> bool \<Rightarrow> mstate" where
  "est_newpair st newkey =
     (let st1 = (if newkey then st\<lparr>cur_nkeys := cur_nkeys st + 1\<rparr> else st);
          st2 = st1\<lparr>cur_npairs := cur_npairs st1 + 1\<rparr>
      in if cur_npairs st2 mod est_interval = 0 then est_interval_passed st2 else st2)"

text \<open>The operations on the row of a worker.\<close>

definition est_row :: "(mstate \<Rightarrow> mstate) \<Rightarrow> mstate list \<Rightarrow> nat \<Rightarrow> mstate list res" where
  "est_row f ms row = res_bind (rd ms (int row)) (\<lambda>st. wr ms (int row) (f st))"

section \<open>Properties\<close>

text \<open>
  The counters of a sample: keys never outnumber pairs, and the rates never exceed what has been
  counted, so that an estimate is at least the count.
\<close>

definition est_inv :: "mstate \<Rightarrow> bool" where
  "est_inv st \<longleftrightarrow> last_nkeys st \<le> cur_nkeys st \<and> cur_nkeys st \<le> cur_npairs st \<and>
     last_npairs st \<le> cur_npairs st \<and> key_rate st \<le> cur_nkeys st \<and> pair_rate st \<le> cur_npairs st"

lemma half_sum_le:
  fixes a b c :: "64 word"
  assumes "a \<le> c" "b \<le> c"
  shows "a div 2 + (c - b) div 2 \<le> c"
proof -
  have "unat (a div 2) + unat ((c - b) div 2) \<le> unat c"
    using assms by (simp add: unat_div word_le_nat_alt unat_sub_if_size)
  moreover have "unat c < 2 ^ 64" using unsigned_less [of c, where ?'a = nat] by simp
  ultimately have "unat (a div 2 + (c - b) div 2) = unat (a div 2) + unat ((c - b) div 2)"
    by (intro unat_add_lem [THEN iffD1]) simp
  with \<open>unat (a div 2) + unat ((c - b) div 2) \<le> unat c\<close> show ?thesis by (simp add: word_le_nat_alt)
qed

lemma est_inv_interval: "est_inv st \<Longrightarrow> est_inv (est_interval_passed st)"
  by (simp add: est_inv_def est_interval_passed_def half_sum_le)

lemma est_inv_finished: "est_inv st \<Longrightarrow> est_inv (est_task_finished st)"
  by (simp add: est_inv_def est_task_finished_def half_sum_le)

lemma est_inv_newpair:
  assumes "est_inv st" "unat (cur_npairs st) + 1 < 2 ^ 64"
  shows "est_inv (est_newpair st b)"
proof -
  let ?k = "cur_nkeys st" and ?n = "cur_npairs st"
  have le: "last_nkeys st \<le> ?k" "?k \<le> ?n" "last_npairs st \<le> ?n" "key_rate st \<le> ?k" "pair_rate st \<le> ?n"
    using assms(1) by (auto simp: est_inv_def)
  have n: "?n < ?n + 1" using assms(2) by (simp add: word_less_nat_alt unat_plus_if')
  then have k: "?k < ?k + 1" "?k + 1 \<le> ?n + 1"
    using le(2) by (simp_all add: word_less_nat_alt word_le_nat_alt unat_plus_if' split: if_splits)
  have "est_inv (st\<lparr>cur_nkeys := ?k + 1, cur_npairs := ?n + 1\<rparr>)" "est_inv (st\<lparr>cur_npairs := ?n + 1\<rparr>)"
    using le n k by (auto simp: est_inv_def)
  then show ?thesis by (cases b) (simp_all add: est_newpair_def Let_def est_inv_interval)
qed

text \<open>What a worker does while it samples: it emits pairs, some with a new key, and finishes tasks.\<close>

datatype est_event = Pair bool | Task_done

fun apply_event :: "est_event \<Rightarrow> mstate \<Rightarrow> mstate" where
  "apply_event (Pair b) st = est_newpair st b"
| "apply_event Task_done st = est_task_finished st"

definition n_pairs :: "est_event list \<Rightarrow> nat" where
  "n_pairs es = length (filter (\<lambda>e. e \<noteq> Task_done) es)"

definition n_keys :: "est_event list \<Rightarrow> nat" where
  "n_keys es = length (filter (\<lambda>e. e = Pair True) es)"

definition n_tasks :: "est_event list \<Rightarrow> nat" where
  "n_tasks es = length (filter (\<lambda>e. e = Task_done) es)"

definition est_run :: "est_event list \<Rightarrow> mstate" where
  "est_run es = foldl (\<lambda>st e. apply_event e st) mstate0 es"

lemma est_newpair_counts:
  "cur_npairs (est_newpair st b) = cur_npairs st + 1"
  "cur_nkeys (est_newpair st b) = (if b then cur_nkeys st + 1 else cur_nkeys st)"
  "nsampled (est_newpair st b) = nsampled st"
  by (simp_all add: est_newpair_def est_interval_passed_def Let_def)

lemma est_run_counts:
  "cur_npairs (est_run es) = of_nat (n_pairs es) \<and> cur_nkeys (est_run es) = of_nat (n_keys es) \<and>
   nsampled (est_run es) = of_nat (n_tasks es)"
proof (induction es rule: rev_induct)
  case Nil
  then show ?case by (simp add: est_run_def n_pairs_def n_keys_def n_tasks_def mstate0_def)
next
  case (snoc e es)
  then show ?case
    by (cases e) (auto simp: est_run_def n_pairs_def n_keys_def n_tasks_def est_newpair_counts est_task_finished_def)
qed

lemma est_run_inv: "n_pairs es < 2 ^ 64 \<Longrightarrow> est_inv (est_run es)"
proof (induction es rule: rev_induct)
  case Nil
  then show ?case by (simp add: est_run_def est_inv_def mstate0_def)
next
  case (snoc e es)
  show ?case
  proof (cases e)
    case (Pair b)
    with snoc.prems have n: "n_pairs es + 1 < 2 ^ 64" by (simp add: n_pairs_def)
    then have "unat (of_nat (n_pairs es) :: 64 word) = n_pairs es"
      by (simp add: unsigned_of_nat take_bit_nat_eq_self)
    with snoc n Pair est_run_counts [of es] show ?thesis by (auto simp: est_run_def intro!: est_inv_newpair)
  next
    case Task_done
    with snoc show ?thesis by (simp add: est_run_def n_pairs_def est_inv_finished)
  qed
qed

section \<open>Main results\<close>

text \<open>C29. After any sample of fewer than \<open>2 ^ 64\<close> pairs the counters are exact, keys do not
  outnumber pairs, the rates stay within the counts, and once all tasks have been sampled the
  estimate is the exact count.\<close>

theorem est_sample_exact:
  assumes "n_pairs es < 2 ^ 64" "n_tasks es < 2 ^ 31"
  shows "unat (cur_npairs (est_run es)) = n_pairs es \<and> unat (cur_nkeys (est_run es)) = n_keys es \<and>
    est_inv (est_run es) \<and> est_get_finished (est_run es) = int (n_tasks es) \<and>
    est_estimate (est_run es) (int (n_tasks es)) = (of_nat (n_keys es), of_nat (n_pairs es))"
proof -
  have "n_keys es \<le> n_pairs es" unfolding n_keys_def n_pairs_def by (induction es) auto
  then have "n_keys es < 2 ^ 64" using assms(1) by simp
  moreover have "sint (ucast (of_nat (n_tasks es) :: 64 word) :: 32 word) = int (n_tasks es)"
    using assms(2) by (simp add: unsigned_of_nat take_bit_nat_eq_self signed_of_nat signed_take_bit_int_eq_self)
  ultimately show ?thesis
    using est_run_counts [of es] est_run_inv [OF assms(1)] assms
    by (simp add: unsigned_of_nat take_bit_nat_eq_self est_estimate_def est_get_finished_def Let_def)
qed

theorem est_sample_exact_witness:
  "est_estimate (est_run [Pair True, Pair False, Task_done, Pair True]) 1 = (2, 3)"
  using est_sample_exact [of "[Pair True, Pair False, Task_done, Pair True]"]
  by (simp add: n_pairs_def n_keys_def n_tasks_def)

end
