(* ===== verification/Threadpool.thy ===== *)
theory Threadpool
  imports Metis_Prelude
begin

text \<open>
  The thread pool (\<^verbatim>\<open>metis/lib/pthreadpool.c\<close>): the hand-over of a task to a pooled thread
  through the shared slot \<^verbatim>\<open>thread_pool[lid]\<close>, and the map from logical to physical cores
  (\<^verbatim>\<open>metis/lib/cpumap.c\<close>). The slots of different threads are independent, so the model has one
  slot, the thread that owns it, and the main thread that creates and joins tasks on it. Each access
  to the slot is one step. The lists \<open>submitted\<close> and \<open>executed\<close> are not in the program: they
  record the tasks handed over and the tasks run.
\<close>

section \<open>The slot and the two threads\<close>

text \<open>Where the main thread is: at an access of \<^verbatim>\<open>mthread_create\<close> or \<^verbatim>\<open>mthread_join\<close>.\<close>

datatype ('r, 'a) cpc =
    C_idle
  | C_wait_running 'r 'a
  | C_set_arg 'r 'a
  | C_set_routine 'r 'a
  | C_set_ready 'r 'a
  | C_wait_ready
  | C_join

text \<open>Where the pooled thread is in the loop of \<^verbatim>\<open>mthread_entry\<close>.\<close>

datatype wpc = W_wait_ready | W_set_running | W_clear_ready | W_run | W_clear_running

record ('r, 'a) pool =
  arg :: "'a option"
  start_routine :: "'r option"
  ready :: bool
  running :: bool
  cpc :: "('r, 'a) cpc"
  wpc :: wpc
  submitted :: "('r \<times> 'a) list"
  executed :: "('r \<times> 'a) list"

definition pool_init :: "('r, 'a) pool" where
  "pool_init = \<lparr>arg = None, start_routine = None, ready = False, running = False, cpc = C_idle,
     wpc = W_wait_ready, submitted = [], executed = []\<rparr>"

inductive pool_step :: "('r, 'a) pool \<Rightarrow> ('r, 'a) pool \<Rightarrow> bool" where
  create: "cpc s = C_idle \<Longrightarrow> pool_step s (s\<lparr>cpc := C_wait_running r a\<rparr>)"
| not_running: "cpc s = C_wait_running r a \<Longrightarrow> \<not> running s \<Longrightarrow> pool_step s (s\<lparr>cpc := C_set_arg r a\<rparr>)"
| set_arg: "cpc s = C_set_arg r a \<Longrightarrow> pool_step s (s\<lparr>arg := Some a, cpc := C_set_routine r a\<rparr>)"
| set_routine: "cpc s = C_set_routine r a \<Longrightarrow>
    pool_step s (s\<lparr>start_routine := Some r, cpc := C_set_ready r a\<rparr>)"
| set_ready: "cpc s = C_set_ready r a \<Longrightarrow>
    pool_step s (s\<lparr>ready := True, cpc := C_wait_ready, submitted := submitted s @ [(r, a)]\<rparr>)"
| taken: "cpc s = C_wait_ready \<Longrightarrow> \<not> ready s \<Longrightarrow> pool_step s (s\<lparr>cpc := C_idle\<rparr>)"
| join: "cpc s = C_idle \<Longrightarrow> pool_step s (s\<lparr>cpc := C_join\<rparr>)"
| joined: "cpc s = C_join \<Longrightarrow> \<not> running s \<Longrightarrow> pool_step s (s\<lparr>cpc := C_idle\<rparr>)"
| see_ready: "wpc s = W_wait_ready \<Longrightarrow> ready s \<Longrightarrow> pool_step s (s\<lparr>wpc := W_set_running\<rparr>)"
| set_running: "wpc s = W_set_running \<Longrightarrow> pool_step s (s\<lparr>running := True, wpc := W_clear_ready\<rparr>)"
| clear_ready: "wpc s = W_clear_ready \<Longrightarrow> pool_step s (s\<lparr>ready := False, wpc := W_run\<rparr>)"
| run: "wpc s = W_run \<Longrightarrow> start_routine s = Some r \<Longrightarrow> arg s = Some a \<Longrightarrow>
    pool_step s (s\<lparr>wpc := W_clear_running, executed := executed s @ [(r, a)]\<rparr>)"
| clear_running: "wpc s = W_clear_running \<Longrightarrow> pool_step s (s\<lparr>running := False, wpc := W_wait_ready\<rparr>)"

inductive pool_reach :: "('r, 'a) pool \<Rightarrow> bool" where
  reach_init: "pool_reach pool_init"
| reach_step: "pool_reach s \<Longrightarrow> pool_step s s' \<Longrightarrow> pool_reach s'"

section \<open>The invariant\<close>

text \<open>The task in the slot, and whether the main thread is between handing over and reading it back.\<close>

definition pending :: "('r, 'a) pool \<Rightarrow> bool" where
  "pending s \<longleftrightarrow> (\<exists>r a. start_routine s = Some r \<and> arg s = Some a \<and> submitted s = executed s @ [(r, a)])"

fun preparing :: "('r, 'a) cpc \<Rightarrow> bool" where
  "preparing (C_set_arg r a) = True"
| "preparing (C_set_routine r a) = True"
| "preparing (C_set_ready r a) = True"
| "preparing _ = False"

fun slot_holds :: "('r, 'a) pool \<Rightarrow> ('r, 'a) cpc \<Rightarrow> bool" where
  "slot_holds s (C_set_routine r a) \<longleftrightarrow> arg s = Some a"
| "slot_holds s (C_set_ready r a) \<longleftrightarrow> arg s = Some a \<and> start_routine s = Some r"
| "slot_holds s _ \<longleftrightarrow> True"

definition pool_inv :: "('r, 'a) pool \<Rightarrow> bool" where
  "pool_inv s \<longleftrightarrow> slot_holds s (cpc s) \<and>
     (case wpc s of
        W_wait_ready \<Rightarrow> \<not> running s \<and>
          (if ready s then cpc s = C_wait_ready \<and> pending s else submitted s = executed s)
      | W_set_running \<Rightarrow> ready s \<and> \<not> running s \<and> cpc s = C_wait_ready \<and> pending s
      | W_clear_ready \<Rightarrow> ready s \<and> running s \<and> cpc s = C_wait_ready \<and> pending s
      | W_run \<Rightarrow> \<not> ready s \<and> running s \<and> \<not> preparing (cpc s) \<and> pending s
      | W_clear_running \<Rightarrow> \<not> ready s \<and> running s \<and> \<not> preparing (cpc s) \<and> submitted s = executed s)"

lemma slot_holds_worker [simp]:
  "slot_holds (s\<lparr>wpc := w, executed := xs\<rparr>) c = slot_holds s c"
  "slot_holds (s\<lparr>running := b, wpc := w\<rparr>) c = slot_holds s c"
  by (cases c; simp)+

lemma pool_inv_step: "pool_step s s' \<Longrightarrow> pool_inv s \<Longrightarrow> pool_inv s'"
  by (induction rule: pool_step.induct)
    (auto simp: pool_inv_def pending_def split: wpc.splits if_splits)

lemma pool_inv_reach: "pool_reach s \<Longrightarrow> pool_inv s"
proof (induction rule: pool_reach.induct)
  case reach_init
  then show ?case by (simp add: pool_inv_def pool_init_def)
qed (rule pool_inv_step)

section \<open>Main results\<close>

text \<open>C30. Whatever the interleaving, the pooled thread runs the tasks handed to it in order, each exactly
  once, with the routine and argument it was created with, and is at most one task behind.\<close>

theorem pool_runs_each_once:
  assumes "pool_reach s"
  shows "submitted s = executed s \<or> (\<exists>task. submitted s = executed s @ [task])"
  using pool_inv_reach [OF assms] by (auto simp: pool_inv_def pending_def split: wpc.splits if_splits)

lemma pool_reach_ready:
  "pool_reach (pool_init\<lparr>arg := Some (7 :: nat), start_routine := Some True, ready := True, cpc := C_wait_ready,
     submitted := [(True, 7)]\<rparr>)"
proof -
  let ?s = "pool_init :: (bool, nat) pool"
  have "pool_reach (?s\<lparr>cpc := C_wait_running True 7\<rparr>)"
    by (rule reach_step [OF reach_init create]) (simp add: pool_init_def)
  from reach_step [OF this not_running [of _ True 7]]
  have "pool_reach (?s\<lparr>cpc := C_set_arg True 7\<rparr>)" by (simp add: pool_init_def)
  from reach_step [OF this set_arg [of _ True 7]]
  have "pool_reach (?s\<lparr>arg := Some 7, cpc := C_set_routine True 7\<rparr>)" by (simp add: pool_init_def)
  from reach_step [OF this set_routine [of _ True 7]]
  have "pool_reach (?s\<lparr>arg := Some 7, start_routine := Some True, cpc := C_set_ready True 7\<rparr>)"
    by (simp add: pool_init_def)
  from reach_step [OF this set_ready [of _ True 7]] show ?thesis by (simp add: pool_init_def)
qed

theorem pool_runs_each_once_witness:
  "\<exists>task. submitted (pool_init\<lparr>arg := Some (7 :: nat), start_routine := Some True, ready := True,
     cpc := C_wait_ready, submitted := [(True, 7)]\<rparr>) = executed pool_init @ [task]"
  using pool_runs_each_once [OF pool_reach_ready] by (simp add: pool_init_def)





end
