(* ===== verification/Kvs_Btree.thy ===== *)
theory Kvs_Btree
  imports Kvs_Array
begin

text \<open>
  The B+tree of grouped pairs (\<^verbatim>\<open>metis/lib/keyvals_btree.c\<close>, \<open>hkvsbtree\<close>), the
  default container of the map phase. The nodes of a tree are cells of a heap and refer to each
  other by address: children downwards, \<^verbatim>\<open>parent\<close> upwards, \<^verbatim>\<open>next\<close> along the leaves.
  An address that was never allocated or has been freed cannot be read.

  The \<^verbatim>\<open>vals\<close> field of a slot holds the values in a leaf and the child pointer in an
  internal node; a node of the model keeps the two readings apart (\<open>bn_arr\<close>, \<open>bn_kids\<close>).
\<close>

section \<open>Nodes and trees\<close>

type_synonym addr = nat

record ('k, 'v) btnode =
  bn_nkeys :: nat
  bn_parent :: "addr option"
  bn_arr :: "('k, 'v) keyvals list"
  bn_kids :: "addr option list"
  bn_next :: "addr option"

type_synonym ('k, 'v) bheap = "('k, 'v) btnode option list"

record ('k, 'v) btree =
  bt_nkeys :: nat
  bt_nlevel :: nat
  bt_root :: "addr option"
  bt_heap :: "('k, 'v) bheap"

definition bt_order :: nat where
  "bt_order = 3"

definition bt_init :: "('k, 'v) btree" where
  "bt_init = \<lparr>bt_nkeys = 0, bt_nlevel = 0, bt_root = None, bt_heap = []\<rparr>"

definition bn_get :: "('k, 'v) bheap \<Rightarrow> addr option \<Rightarrow> ('k, 'v) btnode res" where
  "bn_get h p =
     (case p of
        None \<Rightarrow> Inl Null_deref
      | Some a \<Rightarrow> if a < length h then (case h ! a of None \<Rightarrow> Inl Null_deref | Some n \<Rightarrow> Inr n)
                  else Inl Null_deref)"

definition bn_set :: "('k, 'v) bheap \<Rightarrow> addr \<Rightarrow> ('k, 'v) btnode \<Rightarrow> ('k, 'v) bheap" where
  "bn_set h a n = h[a := Some n]"

definition create_node :: "('k, 'v) env \<Rightarrow> ('k, 'v) btnode" where
  "create_node e =
     \<lparr>bn_nkeys = 0, bn_parent = None, bn_arr = replicate (2 * bt_order + 2) (zero_kvs e),
      bn_kids = replicate (2 * bt_order + 2) None, bn_next = None\<rparr>"

definition set_parent :: "('k, 'v) bheap \<Rightarrow> addr option \<Rightarrow> addr option \<Rightarrow> ('k, 'v) bheap res" where
  "set_parent h p q =
     res_bind (bn_get h p) (\<lambda>n. Inr (bn_set h (the p) (n\<lparr>bn_parent := q\<rparr>)))"

section \<open>Splitting internal nodes\<close>

text \<open>The new sibling gets the last \<open>order + 1\<close> slots; the key before them is pushed up.\<close>

definition btree_split_internal :: "('k, 'v) env \<Rightarrow> ('k, 'v) bheap \<Rightarrow> addr \<Rightarrow> (addr \<times> ('k, 'v) bheap) res" where
  "btree_split_internal e h node =
     res_bind (bn_get h (Some node)) (\<lambda>n.
     let z = create_node e;
         newsib = z\<lparr>bn_nkeys := bt_order,
                    bn_arr := take (bt_order + 1) (drop (bt_order + 1) (bn_arr n))
                              @ drop (bt_order + 1) (bn_arr z),
                    bn_kids := take (bt_order + 1) (drop (bt_order + 1) (bn_kids n))
                               @ drop (bt_order + 1) (bn_kids z)\<rparr>
     in Inr (length h, bn_set h node (n\<lparr>bn_nkeys := bt_order\<rparr>) @ [Some newsib]))"

text \<open>
  The two downward loops of \<^verbatim>\<open>btree_insert_index\<close>: slot \<open>j\<close> is copied into slot
  \<open>j + 1\<close> for \<open>j = lo + n - 1, \<dots>, lo\<close>; \<open>cp\<close> says which field is copied.
\<close>

fun shift_up :: "('a \<Rightarrow> 'a \<Rightarrow> 'a) \<Rightarrow> nat \<Rightarrow> nat \<Rightarrow> 'a list \<Rightarrow> 'a list res" where
  "shift_up cp lo 0 xs = Inr xs"
| "shift_up cp lo (Suc n) xs =
     res_bind (rd xs (int (lo + n))) (\<lambda>s.
     res_bind (rd xs (int (lo + n + 1))) (\<lambda>d.
     res_bind (wr xs (int (lo + n + 1)) (cp d s)) (\<lambda>ys. shift_up cp lo n ys)))"

text \<open>Writing the new key and the new child into their parent.\<close>

definition index_slot :: "('k, 'v) env \<Rightarrow> ('k, 'v) btnode \<Rightarrow> 'k \<Rightarrow> addr \<Rightarrow> ('k, 'v) btnode res" where
  "index_slot e p key right =
     res_bind (bsearch_lar (keyvals_cmp e) (fresh_kvs key 0) (bn_arr p) 0 (int (bn_nkeys p))) (\<lambda>pos.
     let ikey = nat pos in
     res_bind (shift_up (\<lambda>d s. d\<lparr>kvs_key := kvs_key s\<rparr>) ikey (bn_nkeys p - ikey) (bn_arr p)) (\<lambda>arr.
     res_bind (shift_up (\<lambda>d s. s) (ikey + 1) (bn_nkeys p - ikey) (bn_kids p)) (\<lambda>kids.
     res_bind (rd arr (int ikey)) (\<lambda>s.
     res_bind (wr arr (int ikey) (s\<lparr>kvs_key := key\<rparr>)) (\<lambda>arr'.
     res_bind (wr kids (int (ikey + 1)) (Some right)) (\<lambda>kids'.
     Inr (p\<lparr>bn_arr := arr', bn_kids := kids', bn_nkeys := bn_nkeys p + 1\<rparr>)))))))"

text \<open>\<^verbatim>\<open>for (i = 0; i < n; i++) newparent->arr[i].vals->parent = newparent\<close>\<close>

fun fix_parents :: "('k, 'v) bheap \<Rightarrow> addr \<Rightarrow> addr option list \<Rightarrow> ('k, 'v) bheap res" where
  "fix_parents h p [] = Inr h"
| "fix_parents h p (c # cs) = res_bind (set_parent h c (Some p)) (\<lambda>h'. fix_parents h' p cs)"

text \<open>
  \<^verbatim>\<open>btree_insert_index\<close> recurses along the parent pointers, so at most once per level of
  the tree; the first argument bounds the recursion.
\<close>

fun btree_insert_index :: "nat \<Rightarrow> ('k, 'v) env \<Rightarrow> ('k, 'v) btree \<Rightarrow> 'k \<Rightarrow> addr \<Rightarrow> addr
    \<Rightarrow> ('k, 'v) btree res" where
  "btree_insert_index 0 e bt key left right = Inl Out_of_fuel"
| "btree_insert_index (Suc fuel) e bt key left right =
     res_bind (bn_get (bt_heap bt) (Some left)) (\<lambda>ln.
     case bn_parent ln of
       None \<Rightarrow>
         let z = create_node e;
             newroot = length (bt_heap bt);
             root = z\<lparr>bn_nkeys := 1, bn_arr := (bn_arr z)[0 := (zero_kvs e)\<lparr>kvs_key := key\<rparr>],
                      bn_kids := (bn_kids z)[0 := Some left, 1 := Some right]\<rparr>
         in res_bind (set_parent (bt_heap bt @ [Some root]) (Some left) (Some newroot)) (\<lambda>h1.
            res_bind (set_parent h1 (Some right) (Some newroot)) (\<lambda>h2.
            Inr (bt\<lparr>bt_heap := h2, bt_root := Some newroot, bt_nlevel := bt_nlevel bt + 1\<rparr>)))
     | Some parent \<Rightarrow>
         res_bind (bn_get (bt_heap bt) (Some parent)) (\<lambda>pn.
         res_bind (index_slot e pn key right) (\<lambda>pn'.
         res_bind (set_parent (bn_set (bt_heap bt) parent pn') (Some right) (Some parent)) (\<lambda>h1.
         if bn_nkeys pn' = 2 * bt_order + 1 then
           res_bind (rd (bn_arr pn') (int bt_order)) (\<lambda>slot.
           res_bind (btree_split_internal e h1 parent) (\<lambda>(newparent, h2).
           res_bind (btree_insert_index fuel e (bt\<lparr>bt_heap := h2\<rparr>) (kvs_key slot) parent newparent) (\<lambda>bt3.
           res_bind (bn_get (bt_heap bt3) (Some newparent)) (\<lambda>np.
           res_bind (fix_parents (bt_heap bt3) newparent (take (bn_nkeys np + 1) (bn_kids np))) (\<lambda>h4.
           Inr (bt3\<lparr>bt_heap := h4\<rparr>))))))
         else Inr (bt\<lparr>bt_heap := h1\<rparr>)))))"

section \<open>Finding and splitting leaves\<close>

fun descend :: "('k, 'v) env \<Rightarrow> ('k, 'v) bheap \<Rightarrow> 'k \<Rightarrow> nat \<Rightarrow> addr option \<Rightarrow> addr option res" where
  "descend e h key 0 node = Inr node"
| "descend e h key (Suc n) node =
     res_bind (bn_get h node) (\<lambda>nd.
     res_bind (bsearch_lar (keyvals_cmp e) (fresh_kvs key 0) (bn_arr nd) 0 (int (bn_nkeys nd))) (\<lambda>ipt.
     res_bind (rd (bn_kids nd) ipt) (\<lambda>child. descend e h key n child)))"

definition get_leaf :: "('k, 'v) env \<Rightarrow> ('k, 'v) btree \<Rightarrow> 'k \<Rightarrow> (addr option \<times> ('k, 'v) btree) res" where
  "get_leaf e bt key =
     (if bt_nlevel bt = 0 then
        let a = length (bt_heap bt)
        in Inr (Some a, bt\<lparr>bt_heap := bt_heap bt @ [Some (create_node e)], bt_root := Some a,
                         bt_nlevel := 1, bt_nkeys := 0\<rparr>)
      else res_bind (descend e (bt_heap bt) key (bt_nlevel bt - 1) (bt_root bt)) (\<lambda>leaf.
           Inr (leaf, bt)))"

text \<open>
  \<^verbatim>\<open>insert_key\<close> moves the slots from \<open>pos\<close> up and sets key and lengths of the slot;
  the other fields keep what was there. The copy of the key is made unless \<open>keylen\<close> is 0.
\<close>

definition insert_key :: "('k, 'v) env \<Rightarrow> ('k, 'v) btnode \<Rightarrow> 'k \<Rightarrow> nat \<Rightarrow> nat \<Rightarrow> ('k, 'v) btnode res" where
  "insert_key e leaf key pos keylen =
     (let kvs = bn_arr leaf; n = bn_nkeys leaf;
          moved = (if pos < n then take (pos + 1) kvs @ take (n - pos) (drop pos kvs) @ drop (n + 1) kvs
                   else kvs)
      in if n + 1 \<le> length kvs \<and> pos < length kvs
         then Inr (leaf\<lparr>bn_nkeys := n + 1,
                 bn_arr := moved[pos := (moved ! pos)\<lparr>kvs_key := copy_key e key keylen,
                                   kvs_alloc_len := 0, kvs_len := 0\<rparr>]\<rparr>)
         else Inl Out_of_bounds)"

definition split_leaf :: "('k, 'v) env \<Rightarrow> ('k, 'v) btree \<Rightarrow> addr \<Rightarrow> ('k, 'v) btree res" where
  "split_leaf e bt leaf =
     res_bind (bn_get (bt_heap bt) (Some leaf)) (\<lambda>ln.
     let z = create_node e;
         right = length (bt_heap bt);
         rn = z\<lparr>bn_nkeys := bt_order + 1,
                bn_arr := take (1 + bt_order) (drop (bt_order + 1) (bn_arr ln))
                          @ drop (1 + bt_order) (bn_arr z)\<rparr>;
         h1 = bn_set (bt_heap bt) leaf (ln\<lparr>bn_nkeys := bt_order + 1\<rparr>) @ [Some rn]
     in res_bind (rd (bn_arr rn) 0) (\<lambda>slot.
        res_bind (btree_insert_index (bt_nlevel bt) e (bt\<lparr>bt_heap := h1\<rparr>) (kvs_key slot) leaf right) (\<lambda>bt2.
        res_bind (bn_get (bt_heap bt2) (Some leaf)) (\<lambda>ln2.
        res_bind (bn_get (bt_heap bt2) (Some right)) (\<lambda>rn2.
        Inr (bt2\<lparr>bt_heap := bn_set (bn_set (bt_heap bt2) leaf (ln2\<lparr>bn_next := Some right\<rparr>))
                                 right (rn2\<lparr>bn_next := bn_next ln2\<rparr>)\<rparr>))))))"

section \<open>The container operations\<close>

definition leaf_split_if_full :: "('k, 'v) env \<Rightarrow> ('k, 'v) btree \<Rightarrow> addr \<Rightarrow> nat \<Rightarrow> ('k, 'v) btree res" where
  "leaf_split_if_full e bt leaf n = (if n = bt_order * 2 + 2 then split_leaf e bt leaf else Inr bt)"

definition bt_insert_kv :: "('k, 'v) env \<Rightarrow> ('k, 'v) btree \<Rightarrow> 'k \<Rightarrow> 'v \<Rightarrow> nat \<Rightarrow> nat
    \<Rightarrow> (('k, 'v) btree \<times> bool) res" where
  "bt_insert_kv e bt0 key v keylen hash =
     res_bind (get_leaf e bt0 key) (\<lambda>(leaf, bt).
     res_bind (bn_get (bt_heap bt) leaf) (\<lambda>ln.
     res_bind (bsearch_eq (keyvals_cmp e) (fresh_kvs key 0) (bn_arr ln) 0 (int (bn_nkeys ln))) (\<lambda>(dst, bfound).
     let pos = nat dst in
     res_bind (if bfound then Inr (ln, bt_nkeys bt)
               else res_bind (insert_key e ln key pos keylen) (\<lambda>l.
                    Inr (l\<lparr>bn_arr := (bn_arr l)[pos := (bn_arr l ! pos)\<lparr>kvs_hash := hash\<rparr>]\<rparr>,
                         u64 (bt_nkeys bt + 1)))) (\<lambda>(l1, nk).
     res_bind (rd (bn_arr l1) dst) (\<lambda>slot.
     res_bind (values_insert e slot v) (\<lambda>slot'.
     res_bind (wr (bn_arr l1) dst slot') (\<lambda>arr.
     res_bind (leaf_split_if_full e
                 (bt\<lparr>bt_nkeys := nk, bt_heap := bn_set (bt_heap bt) (the leaf) (l1\<lparr>bn_arr := arr\<rparr>)\<rparr>)
                 (the leaf) (bn_nkeys l1)) (\<lambda>bt'.
     Inr (bt', \<not> bfound)))))))))"

definition bt_insert_kvs :: "('k, 'v) env \<Rightarrow> ('k, 'v) btree \<Rightarrow> ('k, 'v) keyvals \<Rightarrow> ('k, 'v) btree res" where
  "bt_insert_kvs e bt0 k =
     res_bind (get_leaf e bt0 (kvs_key k)) (\<lambda>(leaf, bt).
     res_bind (bn_get (bt_heap bt) leaf) (\<lambda>ln.
     res_bind (bsearch_eq (keyvals_cmp e) k (bn_arr ln) 0 (int (bn_nkeys ln))) (\<lambda>(dst, bfound).
     c_assert (\<not> bfound)
       (res_bind (insert_key e ln (kvs_key k) (nat dst) 0) (\<lambda>l1.
        res_bind (wr (bn_arr l1) dst k) (\<lambda>arr.
        leaf_split_if_full e
          (bt\<lparr>bt_nkeys := u64 (bt_nkeys bt + 1),
             bt_heap := bn_set (bt_heap bt) (the leaf) (l1\<lparr>bn_arr := arr\<rparr>)\<rparr>)
          (the leaf) (bn_nkeys l1)))))))"

definition bt_get_len :: "('k, 'v) btree \<Rightarrow> nat" where
  "bt_get_len bt = bt_nkeys bt"

text \<open>
  Freeing visits the first \<^verbatim>\<open>nkeys\<close> children of an internal node, as the code does; the
  child after the last key is not visited.
\<close>

fun btree_delete_level :: "nat \<Rightarrow> ('k, 'v) bheap \<Rightarrow> addr option \<Rightarrow> ('k, 'v) bheap res"
  and btree_delete_kids :: "nat \<Rightarrow> ('k, 'v) bheap \<Rightarrow> addr option list \<Rightarrow> ('k, 'v) bheap res" where
  "btree_delete_level 0 h node = Inl Out_of_fuel"
| "btree_delete_level (Suc level) h node =
     res_bind (bn_get h node) (\<lambda>nd.
     res_bind (if level \<noteq> 0 then btree_delete_kids level h (take (bn_nkeys nd) (bn_kids nd)) else Inr h) (\<lambda>h'.
     Inr (h'[the node := None])))"
| "btree_delete_kids level h [] = Inr h"
| "btree_delete_kids level h (c # cs) =
     res_bind (btree_delete_level level h c) (\<lambda>h'. btree_delete_kids level h' cs)"

definition bt_shallow_free :: "('k, 'v) btree \<Rightarrow> ('k, 'v) btree res" where
  "bt_shallow_free bt =
     (if bt_nlevel bt \<noteq> 0 then
        res_bind (btree_delete_level (bt_nlevel bt) (bt_heap bt) (bt_root bt)) (\<lambda>h.
        Inr (bt\<lparr>bt_heap := h, bt_nlevel := 0\<rparr>))
      else Inr bt)"

section \<open>Iterating\<close>

fun leftmost :: "('k, 'v) bheap \<Rightarrow> nat \<Rightarrow> addr option \<Rightarrow> addr option res" where
  "leftmost h 0 node = Inr node"
| "leftmost h (Suc n) node =
     res_bind (bn_get h node) (\<lambda>nd. res_bind (rd (bn_kids nd) 0) (leftmost h n))"

type_synonym bt_iter = "nat \<times> addr option"

definition bt_iter_begin :: "('k, 'v) btree \<Rightarrow> bt_iter option res" where
  "bt_iter_begin bt =
     (if bt_nlevel bt = 0 then Inr None
      else res_bind (leftmost (bt_heap bt) (bt_nlevel bt - 1) (bt_root bt)) (\<lambda>node. Inr (Some (0, node))))"

definition bt_iter_next_kvs :: "('k, 'v) env \<Rightarrow> ('k, 'v) btree \<Rightarrow> bt_iter \<Rightarrow> bool
    \<Rightarrow> (('k, 'v) keyvals \<times> ('k, 'v) btree \<times> bt_iter) option res" where
  "bt_iter_next_kvs e bt iter bclear =
     (case iter of (nxt, node) \<Rightarrow>
      res_bind (bn_get (bt_heap bt) node) (\<lambda>nd.
      res_bind (if nxt = bn_nkeys nd
                then (case bn_next nd of None \<Rightarrow> Inr None | Some a \<Rightarrow> Inr (Some (0, Some a)))
                else Inr (Some (nxt, node))) (\<lambda>r.
      case r of
        None \<Rightarrow> Inr None
      | Some (nxt', node') \<Rightarrow>
          res_bind (bn_get (bt_heap bt) node') (\<lambda>nd'.
          res_bind (rd (bn_arr nd') (int nxt')) (\<lambda>src.
          let h = (if bclear
                   then bn_set (bt_heap bt) (the node') (nd'\<lparr>bn_arr := (bn_arr nd')[nxt' := zero_kvs e]\<rparr>)
                   else bt_heap bt)
          in Inr (Some (src, bt\<lparr>bt_heap := h\<rparr>, (nxt' + 1, node'))))))))"

text \<open>\<^verbatim>\<open>pch_copy_kvs\<close> follows the leaf chain; the number of heap cells bounds the walk.\<close>

fun copy_leaves :: "nat \<Rightarrow> ('k, 'v) bheap \<Rightarrow> addr option \<Rightarrow> ('k, 'v) keyvals list res" where
  "copy_leaves fuel h None = Inr []"
| "copy_leaves 0 h (Some a) = Inl Out_of_fuel"
| "copy_leaves (Suc fuel) h (Some a) =
     res_bind (bn_get h (Some a)) (\<lambda>nd.
     res_bind (copy_leaves fuel h (bn_next nd)) (\<lambda>xs.
     Inr (take (bn_nkeys nd) (bn_arr nd) @ xs)))"

definition bt_copy_kvs :: "('k, 'v) btree \<Rightarrow> ('k, 'v) keyvals list res" where
  "bt_copy_kvs bt =
     (if bt_nlevel bt = 0 then Inr []
      else res_bind (leftmost (bt_heap bt) (bt_nlevel bt - 1) (bt_root bt)) (\<lambda>node.
           res_bind (copy_leaves (length (bt_heap bt)) (bt_heap bt) node) (\<lambda>xs.
           c_assert (length xs = bt_nkeys bt) (Inr xs))))"

end
