(* ===== verification/Btree_Heap.thy ===== *)
theory Btree_Heap
  imports Kvs_Btree
begin

text \<open>
  The shape of a B+tree in the heap. Level by level the nodes of a tree form a list of addresses,
  and between two neighbours of a level stands a separating key; \<open>up h r m L B A\<close> says that
  \<open>m\<close> levels above the nodes \<open>L\<close>, separated by \<open>B\<close>, form a tree with root \<open>r\<close>
  whose inner nodes are \<open>A\<close>. A split replaces one address of a level by two and adds one
  separator, so \<^verbatim>\<open>btree_insert_index\<close> is a splice in these lists
  (\<open>btree_insert_index_ok\<close>).
\<close>

section \<open>Reading the heap\<close>

definition cell :: "('k, 'v) bheap \<Rightarrow> addr \<Rightarrow> ('k, 'v) btnode option" where
  "cell h a = (if a < length h then h ! a else None)"

lemma bn_get_cell [simp]: "bn_get h (Some a) = (case cell h a of None \<Rightarrow> Inl Null_deref | Some n \<Rightarrow> Inr n)"
  by (simp add: bn_get_def cell_def split: option.splits)

lemma cell_less: "cell h a = Some n \<Longrightarrow> a < length h"
  by (simp add: cell_def split: if_splits)

lemma cell_beyond [simp]: "length h \<le> a \<Longrightarrow> cell h a = None"
  by (simp add: cell_def)

lemma cell_set [simp]: "cell (bn_set h a n) b = (if b = a \<and> a < length h then Some n else cell h b)"
  by (auto simp: cell_def bn_set_def)

lemma length_bn_set [simp]: "length (bn_set h a n) = length h"
  by (simp add: bn_set_def)

lemma bn_set_set [simp]: "bn_set (bn_set h a n) a n' = bn_set h a n'"
  by (simp add: bn_set_def)

lemma cell_snoc [simp]: "cell (h @ [x]) b = (if b = length h then x else cell h b)"
  by (auto simp: cell_def nth_append)

definition par :: "('k, 'v) bheap \<Rightarrow> addr \<Rightarrow> addr option" where
  "par h a = (case cell h a of None \<Rightarrow> None | Some n \<Rightarrow> bn_parent n)"

definition node_keys :: "('k, 'v) btnode \<Rightarrow> 'k list" where
  "node_keys n = map kvs_key (take (bn_nkeys n) (bn_arr n))"

definition node_kids :: "('k, 'v) btnode \<Rightarrow> addr list" where
  "node_kids n = map the (take (bn_nkeys n + 1) (bn_kids n))"

definition keys :: "('k, 'v) bheap \<Rightarrow> addr \<Rightarrow> 'k list" where
  "keys h a = (case cell h a of None \<Rightarrow> [] | Some n \<Rightarrow> node_keys n)"

definition kids :: "('k, 'v) bheap \<Rightarrow> addr \<Rightarrow> addr list" where
  "kids h a = (case cell h a of None \<Rightarrow> [] | Some n \<Rightarrow> node_kids n)"

definition leaf_elems :: "('k, 'v) bheap \<Rightarrow> addr \<Rightarrow> ('k, 'v) keyvals list" where
  "leaf_elems h a = (case cell h a of None \<Rightarrow> [] | Some n \<Rightarrow> take (bn_nkeys n) (bn_arr n))"

lemmas heap_defs = par_def keys_def kids_def leaf_elems_def

lemma set_parent_ok:
  assumes "cell h a = Some n"
  shows "set_parent h (Some a) q = Inr (bn_set h a (n\<lparr>bn_parent := q\<rparr>))"
  using assms by (simp add: set_parent_def)

text \<open>The slots of a node: eight of each, and the children of an inner node are not null.\<close>

definition node_ok :: "('k, 'v) btnode \<Rightarrow> bool" where
  "node_ok n \<longleftrightarrow> length (bn_arr n) = 8 \<and> length (bn_kids n) = 8"

definition inner_node :: "nat \<Rightarrow> ('k, 'v) btnode \<Rightarrow> bool" where
  "inner_node k n \<longleftrightarrow> node_ok n \<and> 1 \<le> bn_nkeys n \<and> bn_nkeys n \<le> k \<and>
     None \<notin> set (take (bn_nkeys n + 1) (bn_kids n))"

definition inner_ok :: "('k, 'v) bheap \<Rightarrow> addr \<Rightarrow> bool" where
  "inner_ok h a \<longleftrightarrow> (\<exists>n. cell h a = Some n \<and> inner_node 6 n)"

lemma node_ok_create [simp]: "node_ok (create_node e)"
  by (simp add: node_ok_def create_node_def bt_order_def)

lemma inner_node_lengths:
  assumes "inner_node k n" "k \<le> 7"
  shows "length (node_keys n) = bn_nkeys n" "length (node_kids n) = bn_nkeys n + 1"
  using assms by (auto simp: inner_node_def node_ok_def node_keys_def node_kids_def)

lemma inner_node_kids:
  assumes "inner_node k n"
  shows "take (bn_nkeys n + 1) (bn_kids n) = map Some (node_kids n)"
proof -
  have "map (Some \<circ> the) (take (bn_nkeys n + 1) (bn_kids n)) = map id (take (bn_nkeys n + 1) (bn_kids n))"
    using assms by (intro map_cong refl) (metis comp_apply id_apply inner_node_def option.collapse)
  then show ?thesis by (simp add: node_kids_def)
qed

lemma inner_node_nth_kid:
  assumes "inner_node k n" "i < length (node_kids n)"
  shows "i < length (bn_kids n) \<and> bn_kids n ! i = Some (node_kids n ! i)"
proof -
  have "i < length (take (bn_nkeys n + 1) (bn_kids n))" using assms by (simp add: node_kids_def)
  then show ?thesis
    using inner_node_kids [OF assms(1)] by (metis assms(2) length_take min_less_iff_conj nth_map nth_take)
qed

section \<open>Weaving separators\<close>

text \<open>
  The separators of a level: the keys of the parents, with the separators of the parents' level
  between them.
\<close>

fun weave :: "'a list list \<Rightarrow> 'a list \<Rightarrow> 'a list" where
  "weave [] bs = []"
| "weave [ks] bs = ks"
| "weave (ks # kss) [] = ks"
| "weave (ks # kss) (b # bs) = ks @ b # weave kss bs"

definition wpre :: "'a list list \<Rightarrow> 'a list \<Rightarrow> 'a list" where
  "wpre kss bs = concat (map2 (\<lambda>ks b. ks @ [b]) kss bs)"

definition wpost :: "'a list \<Rightarrow> 'a list list \<Rightarrow> 'a list" where
  "wpost bs kss = concat (map2 (\<lambda>b ks. b # ks) bs kss)"

lemma wpre_simps [simp]: "wpre [] bs = []" "wpre (ks # kss) (b # bs) = ks @ b # wpre kss bs"
  by (simp_all add: wpre_def)

lemma wpost_simps [simp]: "wpost [] kss = []" "wpost (b # bs) (ks # kss) = b # ks @ wpost bs kss"
  by (simp_all add: wpost_def)

lemma weave_post: "length kss = length bs \<Longrightarrow> weave (ks # kss) bs = ks @ wpost bs kss"
proof (induction kss arbitrary: ks bs)
  case (Cons k kss)
  then show ?case by (cases bs) auto
qed simp

lemma weave_split:
  assumes "length kss1 = length bs1" "length kss2 = length bs2"
  shows "weave (kss1 @ ks # kss2) (bs1 @ bs2) = wpre kss1 bs1 @ ks @ wpost bs2 kss2"
  using assms(1)
proof (induction kss1 arbitrary: bs1)
  case Nil
  then show ?case using assms(2) by (simp add: weave_post)
next
  case (Cons k kss1)
  then obtain b bs where bs: "bs1 = b # bs" by (cases bs1) auto
  with Cons.prems Cons.IH [of bs] show ?case
    by (cases "kss1 @ ks # kss2") auto
qed

lemma weave_split2:
  assumes "length kss1 = length bs1" "length kss2 = length bs2"
  shows "weave (kss1 @ ks # ks' # kss2) (bs1 @ b # bs2) = wpre kss1 bs1 @ ks @ b # ks' @ wpost bs2 kss2"
  using weave_split [OF assms(1), of "ks' # kss2" "b # bs2" ks] assms(2) by simp

lemma length_wpre:
  "length kss = length bs \<Longrightarrow> length (wpre kss bs) = sum_list (map (\<lambda>ks. length ks + 1) kss)"
  by (induction kss bs rule: list_induct2) auto

lemma length_wpost:
  "length bs = length kss \<Longrightarrow> length (wpost bs kss) = sum_list (map (\<lambda>ks. length ks + 1) kss)"
  by (induction bs kss rule: list_induct2) auto

lemma set_wpre: "length kss = length bs \<Longrightarrow> set bs \<subseteq> set (wpre kss bs)"
  by (induction kss bs rule: list_induct2) auto

lemma set_wpost: "length bs = length kss \<Longrightarrow> set bs \<subseteq> set (wpost bs kss)"
  by (induction bs kss rule: list_induct2) auto

lemma cstrict_wpre: "length kss = length bs \<Longrightarrow> cstrict cmp (wpre kss bs) \<Longrightarrow> cstrict cmp bs"
  by (induction kss bs rule: list_induct2) (use set_wpre in \<open>fastforce simp: cstrict_append\<close>)+

lemma cstrict_wpost: "length bs = length kss \<Longrightarrow> cstrict cmp (wpost bs kss) \<Longrightarrow> cstrict cmp bs"
  by (induction bs kss rule: list_induct2) (use set_wpost in \<open>fastforce simp: cstrict_append\<close>)+

text \<open>In a sorted weave, what bounds the separators bounds the keys before and after them.\<close>

lemma wpre_bounded:
  assumes "length kss = length bs" "cstrict cmp (wpre kss bs)"
  shows "\<forall>x \<in> set (wpre kss bs). x \<in> set bs \<or> (\<exists>b \<in> set bs. cmp x b < 0)"
  using assms by (induction kss bs rule: list_induct2) (auto simp: cstrict_append)

lemma wpost_bounded:
  assumes "length bs = length kss" "cstrict cmp (wpost bs kss)"
  shows "\<forall>x \<in> set (wpost bs kss). x \<in> set bs \<or> (\<exists>b \<in> set bs. cmp b x < 0)"
  using assms by (induction bs kss rule: list_induct2) (auto simp: cstrict_append)

section \<open>Levels\<close>

fun up :: "('k, 'v) bheap \<Rightarrow> addr \<Rightarrow> nat \<Rightarrow> addr list \<Rightarrow> 'k list \<Rightarrow> addr list \<Rightarrow> bool" where
  "up h r 0 L B A \<longleftrightarrow> L = [r] \<and> B = [] \<and> A = [] \<and> par h r = None"
| "up h r (Suc m) L B A \<longleftrightarrow>
     (\<exists>P BP AP. up h r m P BP AP \<and> A = P @ AP \<and> L = concat (map (kids h) P) \<and>
        B = weave (map (keys h) P) BP \<and>
        (\<forall>p \<in> set P. inner_ok h p \<and> (\<forall>c \<in> set (kids h p). par h c = Some p)))"

fun level :: "('k, 'v) bheap \<Rightarrow> addr \<Rightarrow> nat \<Rightarrow> addr list" where
  "level h r 0 = [r]"
| "level h r (Suc m) = concat (map (kids h) (level h r m))"

lemma up_SucI:
  assumes "up h r m P BP AP" "L = concat (map (kids h) P)" "B = weave (map (keys h) P) BP"
    and "\<And>p. p \<in> set P \<Longrightarrow> inner_ok h p \<and> (\<forall>c \<in> set (kids h p). par h c = Some p)"
  shows "up h r (Suc m) L B (P @ AP)"
  unfolding up.simps using assms by (intro exI [of _ P] exI [of _ BP] exI [of _ AP]) simp

lemma up_SucE:
  assumes "up h r (Suc m) L B A"
  obtains P BP AP where "up h r m P BP AP" "A = P @ AP" "L = concat (map (kids h) P)"
    "B = weave (map (keys h) P) BP" "\<forall>p \<in> set P. inner_ok h p"
    "\<forall>p \<in> set P. \<forall>c \<in> set (kids h p). par h c = Some p"
  using assms by auto

declare up.simps(2) [simp del]

lemma up_level: "up h r m L B A \<Longrightarrow> L = level h r m"
  by (induction m arbitrary: L B A) (auto elim!: up_SucE)

lemma inner_ok_lengths: "inner_ok h p \<Longrightarrow> length (kids h p) = length (keys h p) + 1"
  by (auto simp: inner_ok_def heap_defs inner_node_lengths)

lemma inner_lengths_sum:
  "\<forall>p \<in> set P. inner_ok h p \<Longrightarrow>
    sum_list (map (\<lambda>ks. length ks + 1) (map (keys h) P)) = length (concat (map (kids h) P))"
  by (induction P) (auto simp: inner_ok_lengths)

lemma up_length: "up h r m L B A \<Longrightarrow> length L = length B + 1"
proof (induction m arbitrary: L B A)
  case (Suc m)
  then obtain P BP AP where up: "up h r m P BP AP" and L: "L = concat (map (kids h) P)"
    "B = weave (map (keys h) P) BP" "\<forall>p \<in> set P. inner_ok h p" by (auto elim!: up_SucE)
  from Suc.IH [OF up] obtain p P' where P: "P = p # P'" "length P' = length BP" by (cases P) auto
  with L show ?case
    using inner_lengths_sum [of P' h] weave_post [of "map (keys h) P'" BP "keys h p"]
      length_wpost [of BP "map (keys h) P'"] by (simp add: inner_ok_lengths)
qed simp

lemma up_frame:
  assumes "up h r m L B A" "\<forall>a \<in> set A. cell h' a = cell h a" "\<forall>a \<in> set L. par h' a = par h a"
  shows "up h' r m L B A"
  using assms
proof (induction m arbitrary: L B A)
  case (Suc m)
  then obtain P BP AP where up: "up h r m P BP AP" and A: "A = P @ AP"
    and L: "L = concat (map (kids h) P)" "B = weave (map (keys h) P) BP"
    and ok: "\<forall>p \<in> set P. inner_ok h p \<and> (\<forall>c \<in> set (kids h p). par h c = Some p)" by (auto elim!: up_SucE)
  have same: "cell h' p = cell h p" if "p \<in> set P" for p using that Suc.prems(2) A by simp
  then have up': "up h' r m P BP AP"
    using Suc.IH [OF up] Suc.prems(2) A by (simp add: par_def)
  have maps: "map (kids h') P = map (kids h) P" "map (keys h') P = map (keys h) P"
    using same by (auto simp: kids_def keys_def)
  have ok': "inner_ok h' p \<and> (\<forall>c \<in> set (kids h' p). par h' c = Some p)" if "p \<in> set P" for p
    using ok that same [OF that] Suc.prems(3) L(1) by (auto simp: inner_ok_def kids_def)
  show ?case unfolding A by (rule up_SucI [OF up' _ _ ok']) (simp_all only: L maps)
qed auto

lemma up_bounds_sorted:
  assumes "up h r m P BP AP" "cstrict cmp (weave (map (keys h) P) BP)"
  shows "cstrict cmp BP"
proof -
  from up_length [OF assms(1)] obtain p P' where "P = p # P'" "length P' = length BP" by (cases P) auto
  with assms(2) show ?thesis
    using weave_post [of "map (keys h) P'" BP "keys h p"] cstrict_wpost [of BP "map (keys h) P'"]
    by (simp add: cstrict_append)
qed

lemma up_cells: "up h r m L B A \<Longrightarrow> a \<in> set A \<Longrightarrow> cell h a \<noteq> None"
  by (induction m arbitrary: L B A) (simp, fastforce simp: inner_ok_def elim!: up_SucE)

section \<open>Searching an inner node\<close>

lemma lar_postD:
  assumes "lar_post cmp xs key r"
  shows "\<exists>n. r = int n \<and> n \<le> length xs \<and> (\<forall>x \<in> set (take n xs). 0 \<le> cmp key x) \<and>
    (\<forall>x \<in> set (drop n xs). cmp key x < 0)"
proof (intro exI conjI)
  show "r = int (nat r)" "nat r \<le> length xs" using assms by (auto simp: lar_post_def)
  show "\<forall>x \<in> set (take (nat r) xs). 0 \<le> cmp key x"
    using assms by (intro nth_ball_lt) (auto simp: lar_post_def)
  show "\<forall>x \<in> set (drop (nat r) xs). cmp key x < 0"
    using assms by (intro nth_ball_ge) (auto simp: lar_post_def)
qed

context mr_env
begin

lemma cstrict_keys: "cstrict (keyvals_cmp e) xs \<longleftrightarrow> cstrict (keycmp e) (map kvs_key xs)"
  by (simp add: cstrict_map keyvals_cmp_def [abs_def])

lemma search_inner:
  assumes "node_ok n" "bn_nkeys n \<le> 8" "cstrict (keycmp e) (node_keys n)"
  shows "\<exists>i. bsearch_lar (keyvals_cmp e) (fresh_kvs key 0) (bn_arr n) 0 (int (bn_nkeys n)) = Inr (int i) \<and>
    i \<le> bn_nkeys n \<and> (\<forall>k \<in> set (take i (node_keys n)). 0 \<le> keycmp e key k) \<and>
    (\<forall>k \<in> set (drop i (node_keys n)). keycmp e key k < 0)"
proof -
  let ?s = "take (bn_nkeys n) (bn_arr n)"
  have seg: "seg (bn_arr n) 0 (int (bn_nkeys n)) = ?s" by (simp add: seg_def)
  have len: "length ?s = bn_nkeys n" using assms by (simp add: node_ok_def)
  have "csorted (keyvals_cmp e) ?s"
    using assms(3) by (intro cstrict_imp_csorted) (simp add: cstrict_keys node_keys_def)
  then obtain r where r: "bsearch_lar (keyvals_cmp e) (fresh_kvs key 0) (bn_arr n) 0 (int (bn_nkeys n)) = Inr r"
    "lar_post (keyvals_cmp e) ?s (fresh_kvs key 0) r"
    using comparator.bsearch_lar_correct [OF keyvals_comparator, of 0 "int (bn_nkeys n)" "bn_arr n"] seg assms
    by (auto simp: node_ok_def)
  from lar_postD [OF r(2)] obtain i where "r = int i" "i \<le> length ?s"
    "\<forall>x \<in> set (take i ?s). 0 \<le> keyvals_cmp e (fresh_kvs key 0) x"
    "\<forall>x \<in> set (drop i ?s). keyvals_cmp e (fresh_kvs key 0) x < 0" by blast
  with r(1) len show ?thesis
    by (intro exI [of _ i]) (simp add: node_keys_def keyvals_cmp_def take_map drop_map del: take_take)
qed

end

text \<open>The position of a key among the nodes of a level: between their separators.\<close>

definition located :: "('k \<Rightarrow> 'k \<Rightarrow> int) \<Rightarrow> 'k \<Rightarrow> addr list \<Rightarrow> 'k list \<Rightarrow> addr \<Rightarrow> bool" where
  "located cmp key L B c \<longleftrightarrow> (\<exists>L1 L2 B1 B2. L = L1 @ c # L2 \<and> B = B1 @ B2 \<and> length B1 = length L1 \<and>
     (\<forall>b \<in> set B1. 0 \<le> cmp key b) \<and> (\<forall>b \<in> set B2. cmp key b < 0))"

context comparator
begin

text \<open>The separators around one parent in a sorted level, from those around it one level up.\<close>

lemma weave_bounds:
  assumes "cstrict cmp (wpre kss1 bs1 @ ks @ wpost bs2 kss2)"
    and "length kss1 = length bs1" "length bs2 = length kss2"
    and "\<forall>b \<in> set bs1. 0 \<le> cmp key b" "\<forall>b \<in> set bs2. cmp key b < 0"
  shows "\<forall>b \<in> set (wpre kss1 bs1). 0 \<le> cmp key b" "\<forall>b \<in> set (wpost bs2 kss2). cmp key b < 0"
proof -
  have "cstrict cmp (wpre kss1 bs1)" "cstrict cmp (wpost bs2 kss2)"
    using assms(1) by (auto simp: cstrict_append)
  note b = wpre_bounded [OF assms(2) this(1)] wpost_bounded [OF assms(3) this(2)]
  show "\<forall>b \<in> set (wpre kss1 bs1). 0 \<le> cmp key b"
    using b(1) assms(4) by (meson cmp_ge_trans cmp_sym less_imp_le)
  show "\<forall>b \<in> set (wpost bs2 kss2). cmp key b < 0"
    using b(2) assms(5) cmp_less_trans by blast
qed

end

text \<open>Splitting a level and its separators at one parent.\<close>

lemma level_split:
  assumes "\<forall>p \<in> set (P1 @ p # P2). inner_ok h p" "length B1 = length P1" "length P2 = length B2"
  shows "weave (map (keys h) (P1 @ p # P2)) (B1 @ B2)
      = wpre (map (keys h) P1) B1 @ keys h p @ wpost B2 (map (keys h) P2)"
    and "length (wpre (map (keys h) P1) B1) = length (concat (map (kids h) P1))"
    and "length (wpost B2 (map (keys h) P2)) = length (concat (map (kids h) P2))"
  using assms weave_split [of "map (keys h) P1" B1 "map (keys h) P2" B2 "keys h p"]
    length_wpre [of "map (keys h) P1" B1] inner_lengths_sum [of P1 h]
    length_wpost [of B2 "map (keys h) P2"] inner_lengths_sum [of P2 h]
  by auto

lemma descend_first: "descend e h key (Suc n) node = res_bind (descend e h key 1 node) (descend e h key n)"
  by (simp add: res_bind_assoc)

lemma descend_snoc:
  "descend e h key (Suc n) node = res_bind (descend e h key n node) (descend e h key 1)"
proof (induction n arbitrary: node)
  case (Suc n)
  have "descend e h key (Suc (Suc n)) node
      = res_bind (descend e h key 1 node) (\<lambda>c. res_bind (descend e h key n c) (descend e h key 1))"
    unfolding descend_first [of e h key "Suc n" node] by (rule arg_cong [of _ _ "res_bind _"], rule ext, rule Suc)
  then show ?case by (simp only: res_bind_assoc [symmetric] descend_first [of e h key n node])
qed simp

context mr_env
begin

lemma descend_step:
  assumes up: "up h r m P BP AP" and loc: "located (keycmp e) key P BP p"
    and ok: "\<forall>p \<in> set P. inner_ok h p" and sorted: "cstrict (keycmp e) (weave (map (keys h) P) BP)"
  shows "\<exists>c. descend e h key 1 (Some p) = Inr (Some c) \<and>
    located (keycmp e) key (concat (map (kids h) P)) (weave (map (keys h) P) BP) c"
proof -
  from loc obtain P1 P2 B1 B2 where P: "P = P1 @ p # P2" "BP = B1 @ B2" "length B1 = length P1"
    and bnd: "\<forall>b \<in> set B1. 0 \<le> keycmp e key b" "\<forall>b \<in> set B2. keycmp e key b < 0"
    unfolding located_def by blast
  from up_length [OF up] P have len2: "length P2 = length B2" by simp
  note ls = level_split [OF ok [unfolded P(1)] P(3) len2]
  note wb = kc.weave_bounds [OF sorted [unfolded P ls(1)] _ _ bnd]
  from ok P(1) obtain n where n: "cell h p = Some n" "inner_node 6 n" by (auto simp: inner_ok_def)
  then have keys: "keys h p = node_keys n" "kids h p = node_kids n" by (auto simp: keys_def kids_def)
  have "cstrict (keycmp e) (node_keys n)" using sorted ls(1) P keys by (simp add: cstrict_append)
  with n(2) obtain i where i: "bsearch_lar (keyvals_cmp e) (fresh_kvs key 0) (bn_arr n) 0 (int (bn_nkeys n)) = Inr (int i)"
    "i \<le> bn_nkeys n" "\<forall>k \<in> set (take i (node_keys n)). 0 \<le> keycmp e key k"
    "\<forall>k \<in> set (drop i (node_keys n)). keycmp e key k < 0"
    using search_inner [of n key] by (auto simp: inner_node_def)
  have lens: "length (node_kids n) = bn_nkeys n + 1" "length (node_keys n) = bn_nkeys n"
    using inner_node_lengths [OF n(2)] by auto
  let ?c = "node_kids n ! i"
  have "descend e h key 1 (Some p) = Inr (Some ?c)"
    using n(1) i inner_node_nth_kid [OF n(2), of i] lens by simp
  moreover have "located (keycmp e) key (concat (map (kids h) P)) (weave (map (keys h) P) BP) ?c"
    unfolding located_def
  proof (intro exI conjI)
    show "concat (map (kids h) P) = (concat (map (kids h) P1) @ take i (node_kids n)) @
        ?c # (drop (Suc i) (node_kids n) @ concat (map (kids h) P2))"
      using id_take_nth_drop [of i "node_kids n"] i lens P keys by simp
    show "weave (map (keys h) P) BP = (wpre (map (keys h) P1) B1 @ take i (node_keys n)) @
        (drop i (node_keys n) @ wpost B2 (map (keys h) P2))"
      unfolding P ls(1) keys by simp
    show "length (wpre (map (keys h) P1) B1 @ take i (node_keys n)) =
        length (concat (map (kids h) P1) @ take i (node_kids n))"
      using ls(2) lens i by simp
  qed (use wb i P(3) len2 in auto)
  ultimately show ?thesis by blast
qed

lemma descend_located:
  assumes "up h r m L B A" "cstrict (keycmp e) B"
  shows "\<exists>c. descend e h key m (Some r) = Inr (Some c) \<and> located (keycmp e) key L B c"
  using assms
proof (induction m arbitrary: L B A)
  case 0
  then show ?case by (auto simp: located_def)
next
  case (Suc m)
  then obtain P BP AP where P: "up h r m P BP AP" "L = concat (map (kids h) P)"
    "B = weave (map (keys h) P) BP" "\<forall>p \<in> set P. inner_ok h p" by (auto elim!: up_SucE)
  with Suc.prems(2) have "cstrict (keycmp e) BP" by (auto intro: up_bounds_sorted)
  from Suc.IH [OF P(1) this] obtain p where "descend e h key m (Some r) = Inr (Some p)"
    "located (keycmp e) key P BP p" by blast
  with descend_step [OF P(1) _ P(4), of key p] Suc.prems(2) P show ?case by (simp only: descend_snoc) auto
qed

end

end
