(* ===== verification/Btree_Insert.thy ===== *)
theory Btree_Insert
  imports Btree_Heap
begin

text \<open>
  Inserting a separator into the inner nodes of a B+tree (\<^verbatim>\<open>btree_insert_index\<close>): one
  node, its overflow and split, and the recursion along the parent pointers.
\<close>

section \<open>One node\<close>

lemma shift_up_ok:
  assumes "lo + n < length xs"
  shows "\<exists>ys. shift_up cp lo n xs = Inr ys \<and> length ys = length xs \<and>
    (\<forall>j < length xs. ys ! j = (if lo < j \<and> j \<le> lo + n then cp (xs ! j) (xs ! (j - 1)) else xs ! j))"
  using assms
proof (induction n arbitrary: xs)
  case (Suc n)
  let ?xs = "xs[lo + n + 1 := cp (xs ! (lo + n + 1)) (xs ! (lo + n))]"
  from Suc.IH [of ?xs] Suc.prems obtain ys where ys: "shift_up cp lo n ?xs = Inr ys" "length ys = length xs"
    "\<forall>j < length xs. ys ! j = (if lo < j \<and> j \<le> lo + n then cp (?xs ! j) (?xs ! (j - 1)) else ?xs ! j)"
    by auto
  have "shift_up cp lo (Suc n) xs = Inr ys"
    using ys(1) Suc.prems by (simp add: wr_def nat_add_distrib)
  moreover have "ys ! j = (if lo < j \<and> j \<le> lo + Suc n then cp (xs ! j) (xs ! (j - 1)) else xs ! j)"
    if "j < length xs" for j
    using ys(3) that by (cases "j = lo + n + 1") (auto simp: nth_list_update)
  ultimately show ?case using ys(2) by auto
qed auto

lemma shift_insert:
  assumes "i \<le> n" "n < length xs" and cp: "\<And>d s. f (cp d s) = f s"
  shows "\<exists>ys. shift_up cp i (n - i) xs = Inr ys \<and> length ys = length xs \<and>
    (\<forall>x. map f (take (n + 1) (ys[i := x])) = take i (map f (take n xs)) @ f x # drop i (map f (take n xs)))"
proof -
  from shift_up_ok [of i "n - i" xs cp] assms obtain ys where ys: "shift_up cp i (n - i) xs = Inr ys"
    "length ys = length xs"
    "\<forall>j < length xs. ys ! j = (if i < j \<and> j \<le> n then cp (xs ! j) (xs ! (j - 1)) else xs ! j)" by auto
  have "map f (take (n + 1) (ys[i := x])) = take i (map f (take n xs)) @ f x # drop i (map f (take n xs))"
    (is "?l = ?r") for x
  proof (rule nth_equalityI)
    show "length ?l = length ?r" using assms ys(2) by simp
    fix j assume "j < length ?l"
    then have "j \<le> n" using assms ys(2) by simp
    moreover consider "j < i" | "j = i" | "i < j" by linarith
    ultimately show "?l ! j = ?r ! j"
      using assms ys(2,3) by cases (auto simp: nth_append nth_Cons' cp)
  qed
  with ys show ?thesis by blast
qed

lemma split_point_unique:
  assumes "xs = K1 @ K2" "i \<le> length xs" "\<forall>k \<in> set K1. P k" "\<forall>k \<in> set K2. \<not> P k"
    and "\<forall>k \<in> set (take i xs). P k" "\<forall>k \<in> set (drop i xs). \<not> P k"
  shows "i = length K1"
proof (rule ccontr)
  assume "i \<noteq> length K1"
  then consider "i < length K1" | "length K1 < i" by linarith
  then show False
  proof cases
    case 1
    then have "drop i xs = K1 ! i # drop (Suc i) K1 @ K2" "K1 ! i \<in> set K1"
      using assms(1) Cons_nth_drop_Suc [of i K1] by simp_all
    then have "K1 ! i \<in> set (drop i xs)" "K1 ! i \<in> set K1" by simp_all
    with assms show False by blast
  next
    case 2
    then obtain k K where "K2 = k # K" using assms(1,2) by (cases K2) auto
    with 2 assms(1) have "k \<in> set (take i xs)" "k \<in> set K2" by (auto simp: take_Cons')
    with assms show False by blast
  qed
qed

context mr_env
begin

lemma index_slot_ok:
  assumes n: "inner_node 6 n" and sorted: "cstrict (keycmp e) (node_keys n)"
    and keys: "node_keys n = K1 @ K2" and kids: "node_kids n = C1 @ left # C2" "length C1 = length K1"
    and less: "\<forall>k \<in> set K1. keycmp e k key < 0" "\<forall>k \<in> set K2. keycmp e key k < 0"
  shows "\<exists>n'. index_slot e n key right = Inr n' \<and> inner_node 7 n' \<and> bn_nkeys n' = bn_nkeys n + 1 \<and>
    node_keys n' = K1 @ key # K2 \<and> node_kids n' = C1 @ left # right # C2 \<and>
    bn_parent n' = bn_parent n \<and> bn_next n' = bn_next n"
proof -
  have ok: "node_ok n" "bn_nkeys n \<le> 6" "length (bn_arr n) = 8" "length (bn_kids n) = 8"
    using n by (auto simp: inner_node_def node_ok_def)
  have nk: "bn_nkeys n = length K1 + length K2"
    using inner_node_lengths(1) [OF n] keys by simp
  obtain i where i: "bsearch_lar (keyvals_cmp e) (fresh_kvs key 0) (bn_arr n) 0 (int (bn_nkeys n)) = Inr (int i)"
    "i \<le> bn_nkeys n" "\<forall>k \<in> set (take i (node_keys n)). 0 \<le> keycmp e key k"
    "\<forall>k \<in> set (drop i (node_keys n)). keycmp e key k < 0"
    using search_inner [OF ok(1) _ sorted, of key] ok(2) by auto
  have "i = length K1"
  proof (rule split_point_unique [OF keys, of i "\<lambda>k. 0 \<le> keycmp e key k"])
    show "\<forall>k \<in> set K1. 0 \<le> keycmp e key k" using less(1) by (auto simp: kc.cmp_sym intro: less_imp_le)
    show "\<forall>k \<in> set K2. \<not> 0 \<le> keycmp e key k" "\<forall>k \<in> set (drop i (node_keys n)). \<not> 0 \<le> keycmp e key k"
      using i(4) less(2) by (simp_all only: linorder_not_le)
    show "i \<le> length (node_keys n)" using i(2) keys nk by simp
  qed (rule i(3))
  note i = i [unfolded this]
  obtain arr where arr: "shift_up (\<lambda>d s. d\<lparr>kvs_key := kvs_key s\<rparr>) (length K1) (bn_nkeys n - length K1) (bn_arr n) = Inr arr"
    "length arr = 8" "\<And>x. map kvs_key (take (bn_nkeys n + 1) (arr[length K1 := x]))
      = take (length K1) (node_keys n) @ kvs_key x # drop (length K1) (node_keys n)"
    using shift_insert [of "length K1" "bn_nkeys n" "bn_arr n" kvs_key "\<lambda>d s. d\<lparr>kvs_key := kvs_key s\<rparr>"] ok nk
    by (auto simp: node_keys_def)
  obtain ks where ks: "shift_up (\<lambda>d s. s) (length K1 + 1) (bn_nkeys n + 1 - (length K1 + 1)) (bn_kids n) = Inr ks"
    "length ks = 8" "\<And>x. map id (take (bn_nkeys n + 1 + 1) (ks[length K1 + 1 := x]))
      = take (length K1 + 1) (map id (take (bn_nkeys n + 1) (bn_kids n))) @ id x # drop (length K1 + 1) (map id (take (bn_nkeys n + 1) (bn_kids n)))"
    using shift_insert [of "length K1 + 1" "bn_nkeys n + 1" "bn_kids n" id "\<lambda>d s. s"] ok nk by auto
  let ?n = "n\<lparr>bn_arr := arr[length K1 := (arr ! length K1)\<lparr>kvs_key := key\<rparr>],
              bn_kids := ks[length K1 + 1 := Some right], bn_nkeys := bn_nkeys n + 1\<rparr>"
  have "index_slot e n key right = Inr ?n"
    using i arr(1,2) ks(1,2) ok nk by (simp add: index_slot_def wr_def nat_add_distrib Let_def)
  moreover have kids': "take (bn_nkeys n + 2) (ks[length K1 + 1 := Some right]) = map Some (C1 @ left # right # C2)"
    using ks(3) [of "Some right", unfolded list.map_id id_apply inner_node_kids [OF n] kids(1)] kids(2) by simp
  moreover have "node_keys ?n = K1 @ key # K2"
    using arr(3) keys by (simp add: node_keys_def)
  moreover have "node_kids ?n = C1 @ left # right # C2"
    using kids' by (simp add: node_kids_def comp_def)
  moreover have "inner_node 7 ?n" using ok arr(2) ks(2) kids' by (auto simp: inner_node_def node_ok_def)
  ultimately show ?thesis by auto
qed

end

lemma fix_parents_ok:
  assumes "\<forall>c \<in> set cs. cell h c \<noteq> None"
  shows "\<exists>h'. fix_parents h p (map Some cs) = Inr h' \<and> length h' = length h \<and>
    (\<forall>b. cell h' b = (if b \<in> set cs then map_option (bn_parent_update (\<lambda>_. Some p)) (cell h b) else cell h b))"
  using assms
proof (induction cs arbitrary: h)
  case (Cons c cs)
  then obtain n where n: "cell h c = Some n" by auto
  let ?h = "bn_set h c (n\<lparr>bn_parent := Some p\<rparr>)"
  note c = cell_less [OF n]
  have "\<forall>c \<in> set cs. cell ?h c \<noteq> None" using Cons.prems by auto
  from Cons.IH [OF this] obtain h' where h': "fix_parents ?h p (map Some cs) = Inr h'" "length h' = length h"
    "\<forall>b. cell h' b = (if b \<in> set cs then map_option (bn_parent_update (\<lambda>_. Some p)) (cell ?h b) else cell ?h b)"
    by auto
  have "fix_parents h p (map Some (c # cs)) = Inr h'" using h'(1) n set_parent_ok [OF n] by simp
  with h' n c show ?case by auto
qed simp

text \<open>The two halves of a node that has reached seven keys.\<close>

lemma split_internal_ok:
  assumes n: "inner_node 7 n" "bn_nkeys n = 7" "cell h p = Some n"
  shows "\<exists>n1 n2. btree_split_internal e h p = Inr (length h, bn_set h p n1 @ [Some n2]) \<and>
    inner_node 6 n1 \<and> node_keys n1 = take 3 (node_keys n) \<and> node_kids n1 = take 4 (node_kids n) \<and>
    bn_parent n1 = bn_parent n \<and>
    inner_node 6 n2 \<and> node_keys n2 = drop 4 (node_keys n) \<and> node_kids n2 = drop 4 (node_kids n) \<and>
    bn_nkeys n2 + 1 = length (drop 4 (node_kids n)) \<and> take (bn_nkeys n2 + 1) (bn_kids n2) = map Some (drop 4 (node_kids n)) \<and>
    kvs_key (bn_arr n ! 3) = node_keys n ! 3"
proof -
  have len: "length (bn_arr n) = 8" "length (bn_kids n) = 8"
    "None \<notin> set (bn_kids n)"
    using n by (auto simp: inner_node_def node_ok_def)
  let ?n1 = "n\<lparr>bn_nkeys := 3\<rparr>" and ?n2 = "(create_node e)\<lparr>bn_nkeys := 3,
      bn_arr := take 4 (drop 4 (bn_arr n)) @ drop 4 (bn_arr (create_node e)),
      bn_kids := take 4 (drop 4 (bn_kids n)) @ drop 4 (bn_kids (create_node e))\<rparr>"
  have z: "length (bn_arr (create_node e)) = 8" "length (bn_kids (create_node e)) = 8"
    using node_ok_create [of e] by (auto simp: node_ok_def)
  have sub: "set (take 4 xs) \<subseteq> set xs" "set (take 4 (drop 4 xs)) \<subseteq> set xs" for xs :: "'c list"
    by (meson set_take_subset set_drop_subset subset_trans)+
  have i1: "inner_node 6 ?n1" using len sub(1) [of "bn_kids n"] by (auto simp: inner_node_def node_ok_def)
  have i2: "inner_node 6 ?n2" using len z sub(2) [of "bn_kids n"] by (auto simp: inner_node_def node_ok_def)
  have k2: "node_kids ?n2 = drop 4 (node_kids n)"
    using len n(2) by (simp add: node_kids_def drop_map drop_take)
  have "bn_nkeys ?n2 + 1 = length (drop 4 (node_kids n))" using len n(2) by (simp add: node_kids_def)
  moreover have "take (bn_nkeys ?n2 + 1) (bn_kids ?n2) = map Some (drop 4 (node_kids n))"
    using inner_node_kids [OF i2] k2 by simp
  moreover have "btree_split_internal e h p = Inr (length h, bn_set h p ?n1 @ [Some ?n2])"
    using n(3) by (simp add: btree_split_internal_def bt_order_def Let_def)
  moreover have "node_keys ?n1 = take 3 (node_keys n)" "node_kids ?n1 = take 4 (node_kids n)"
    "node_keys ?n2 = drop 4 (node_keys n)" "kvs_key (bn_arr n ! 3) = node_keys n ! 3"
    using len n(2) by (simp_all add: node_keys_def node_kids_def take_map drop_map drop_take)
  ultimately show ?thesis using i1 i2 k2
    by (intro exI [of _ ?n1] exI [of _ ?n2]) (simp only: simp_thms, simp)
qed

lemma cstrict_weave_mid:
  assumes "cstrict cmp (wpre kss1 bs1 @ ks @ wpost bs2 kss2)" "k \<in> set ks"
    and "length kss1 = length bs1" "length bs2 = length kss2"
  shows "cstrict cmp (bs1 @ k # bs2)"
proof -
  have "cstrict cmp bs1" "cstrict cmp bs2"
    using assms cstrict_wpre cstrict_wpost by (auto simp: cstrict_append)
  moreover have "cmp x y < 0" if "x \<in> set bs1" "y \<in> set (k # bs2)" for x y
    using that assms(1,2) set_wpre [OF assms(3)] set_wpost [OF assms(4)]
    by (auto simp: cstrict_append subset_iff)
  moreover have "cmp k y < 0" if "y \<in> set bs2" for y
    using that assms(1,2) set_wpost [OF assms(4)] by (auto simp: cstrict_append subset_iff)
  ultimately show ?thesis by (simp add: cstrict_append)
qed

lemma concat_split_Cons:
  assumes "ys @ z # zs = concat xss"
  obtains xss1 xs1 xs2 xss2 where "xss = xss1 @ (xs1 @ xs2) # xss2" "ys = concat xss1 @ xs1"
    "z # zs = xs2 @ concat xss2" "xs2 \<noteq> []"
  using assms
proof (induction xss arbitrary: ys thesis)
  case (Cons xs xss)
  show ?case
  proof (cases "length ys < length xs")
    case True
    from Cons.prems(2) have "take (length ys) (ys @ z # zs) = take (length ys) (xs @ concat xss)" by simp
    with True have "ys = take (length ys) xs" by simp
    then obtain xs2 where xs2: "xs = ys @ xs2" by (metis append_take_drop_id)
    with Cons.prems(2) True show ?thesis by (intro Cons.prems(1) [of "[]" ys xs2 xss]) auto
  next
    case False
    from Cons.prems(2) have "take (length xs) (ys @ z # zs) = take (length xs) (xs @ concat xss)" by simp
    with False have "xs = take (length xs) ys" by simp
    then obtain ys2 where ys2: "ys = xs @ ys2" by (metis append_take_drop_id)
    with Cons.prems(2) have "ys2 @ z # zs = concat xss" by simp
    then obtain xss1 xs1 xs2 xss2 where "xss = xss1 @ (xs1 @ xs2) # xss2" "ys2 = concat xss1 @ xs1"
      "z # zs = xs2 @ concat xss2" "xs2 \<noteq> []" by (rule Cons.IH [rotated])
    with ys2 show ?thesis by (intro Cons.prems(1) [of "xs # xss1" xs1 xs2 xss2]) auto
  qed
qed simp

section \<open>The recursion along the parents\<close>

text \<open>
  What the recursion leaves alone: cells that are not inner nodes keep everything but, possibly,
  their parent pointer, and cells outside the level keep that as well. There are \<open>d\<close> levels
  below the one that is spliced.
\<close>

definition same_but_parent :: "('k, 'v) bheap \<Rightarrow> ('k, 'v) bheap \<Rightarrow> addr \<Rightarrow> bool" where
  "same_but_parent h h' a \<longleftrightarrow> (\<exists>n p. cell h a = Some n \<and> cell h' a = Some (n\<lparr>bn_parent := p\<rparr>))"

lemma same_but_parentD:
  assumes "same_but_parent h h' a"
  shows "kids h' a = kids h a" "keys h' a = keys h a" "leaf_elems h' a = leaf_elems h a"
    "inner_ok h' a = inner_ok h a"
  using assms by (auto simp: same_but_parent_def heap_defs node_kids_def node_keys_def inner_ok_def
      inner_node_def node_ok_def)

lemma same_but_parent_refl:
  assumes "cell h a \<noteq> None" "cell h' a = cell h a"
  shows "same_but_parent h h' a"
proof -
  from assms(1) obtain n where "cell h a = Some n" by auto
  with assms(2) show ?thesis
    unfolding same_but_parent_def by (intro exI [of _ n] exI [of _ "bn_parent n"]) simp
qed

lemma same_but_parent_trans:
  "same_but_parent h1 h2 a \<Longrightarrow> same_but_parent h2 h3 a \<Longrightarrow> same_but_parent h1 h3 a"
  by (auto simp: same_but_parent_def)

definition spliced :: "nat \<Rightarrow> ('k, 'v) btree \<Rightarrow> addr list \<Rightarrow> 'k list \<Rightarrow> addr list \<Rightarrow> ('k, 'v) btree \<Rightarrow> bool" where
  "spliced d bt L' B' A bt' \<longleftrightarrow>
     (\<exists>r' m' A'. bt_root bt' = Some r' \<and> bt_nlevel bt' = Suc m' + d \<and> bt_nkeys bt' = bt_nkeys bt \<and>
        up (bt_heap bt') r' m' L' B' A' \<and> distinct (L' @ A') \<and>
        set A' \<subseteq> set A \<union> {length (bt_heap bt)..} \<and> length (bt_heap bt) \<le> length (bt_heap bt') \<and>
        (\<forall>a \<in> set L'. same_but_parent (bt_heap bt) (bt_heap bt') a) \<and>
        (\<forall>a < length (bt_heap bt). a \<notin> set A \<longrightarrow> a \<notin> set L' \<longrightarrow> cell (bt_heap bt') a = cell (bt_heap bt) a))"

lemma splicedI:
  assumes "up (bt_heap bt') r' m' L' B' A'" "bt_root bt' = Some r'" "bt_nlevel bt' = Suc m' + d"
    "bt_nkeys bt' = bt_nkeys bt" "distinct (L' @ A')" "set A' \<subseteq> set A \<union> {length (bt_heap bt)..}"
    "length (bt_heap bt) \<le> length (bt_heap bt')"
    "\<And>a. a \<in> set L' \<Longrightarrow> same_but_parent (bt_heap bt) (bt_heap bt') a"
    "\<And>a. a < length (bt_heap bt) \<Longrightarrow> a \<notin> set A \<Longrightarrow> a \<notin> set L' \<Longrightarrow>
       cell (bt_heap bt') a = cell (bt_heap bt) a"
  shows "spliced d bt L' B' A bt'"
  unfolding spliced_def using assms by blast

lemma splicedE:
  assumes "spliced d bt L' B' A bt'"
  obtains r' m' A' where "bt_root bt' = Some r'" "bt_nlevel bt' = Suc m' + d" "bt_nkeys bt' = bt_nkeys bt"
    "up (bt_heap bt') r' m' L' B' A'" "distinct (L' @ A')" "set A' \<subseteq> set A \<union> {length (bt_heap bt)..}"
    "length (bt_heap bt) \<le> length (bt_heap bt')"
    "\<forall>a \<in> set L'. same_but_parent (bt_heap bt) (bt_heap bt') a"
    "\<forall>a < length (bt_heap bt). a \<notin> set A \<longrightarrow> a \<notin> set L' \<longrightarrow> cell (bt_heap bt') a = cell (bt_heap bt) a"
  using assms unfolding spliced_def by blast

context mr_env
begin

text \<open>A new root above the two halves of the old one.\<close>

lemma insert_index_root:
  assumes "up h r 0 [left] [] A" "left \<noteq> right" "cell h left = Some ln" "cell h right = Some rn"
    and bt: "bt_heap bt = h" "bt_nlevel bt = Suc d" "0 < fuel"
  shows "succeeds (btree_insert_index fuel e bt key left right) (spliced d bt [left, right] [key] A)"
proof -
  from \<open>0 < fuel\<close> obtain f where f: "fuel = Suc f" by (cases fuel) auto
  have par: "bn_parent ln = None" "A = []" using assms(1,3) by (auto simp: par_def)
  note less = cell_less [OF assms(3)] cell_less [OF assms(4)]
  let ?z = "create_node e :: ('k, 'v) btnode"
  let ?root = "?z\<lparr>bn_nkeys := 1, bn_arr := (bn_arr ?z)[0 := (zero_kvs e)\<lparr>kvs_key := key\<rparr>],
      bn_kids := (bn_kids ?z)[0 := Some left, 1 := Some right]\<rparr>"
  let ?h1 = "bn_set (h @ [Some ?root]) left (ln\<lparr>bn_parent := Some (length h)\<rparr>)"
  let ?h2 = "bn_set ?h1 right (rn\<lparr>bn_parent := Some (length h)\<rparr>)"
  let ?bt = "bt\<lparr>bt_heap := ?h2, bt_root := Some (length h), bt_nlevel := bt_nlevel bt + 1\<rparr>"
  have "btree_insert_index fuel e bt key left right = Inr ?bt"
    using assms(2-4) less bt f par set_parent_ok [of "h @ [Some ?root]" left ln] set_parent_ok [of ?h1 right rn]
    by (simp add: Let_def)
  moreover have root: "cell ?h2 (length h) = Some ?root" using less by simp
  have "node_kids ?root = [left, right]" "node_keys ?root = [key]" "inner_node 6 ?root"
    by (simp_all add: node_kids_def node_keys_def inner_node_def node_ok_def create_node_def bt_order_def
        eval_nat_numeral)
  then have "up ?h2 (length h) 1 [left, right] [key] [length h]"
    using root less assms(2) up_SucI [of ?h2 "length h" 0 "[length h]" "[]" "[]" "[left, right]" "[key]"]
    by (simp add: par_def kids_def keys_def inner_ok_def create_node_def)
  ultimately show ?thesis
    using less assms(2-4) bt par
    by (auto simp: spliced_def same_but_parent_def intro!: exI [of _ "length h"] exI [of _ 1] exI [of _ "[length h]"])
qed

end

text \<open>The neighbourhood of a node in the level above.\<close>

lemma level_around:
  assumes "up h r (Suc m) (L1 @ left # L2) (B1 @ B2) A" "length B1 = length L1"
  obtains P1 p P2 BP1 BP2 AP C1 C2 K1 K2 where
    "up h r m (P1 @ p # P2) (BP1 @ BP2) AP" "A = (P1 @ p # P2) @ AP" "length BP1 = length P1"
    "length P2 = length BP2" "kids h p = C1 @ left # C2" "keys h p = K1 @ K2" "length C1 = length K1"
    "L1 = concat (map (kids h) P1) @ C1" "L2 = C2 @ concat (map (kids h) P2)"
    "B1 = wpre (map (keys h) P1) BP1 @ K1" "B2 = K2 @ wpost BP2 (map (keys h) P2)"
    "\<forall>p \<in> set (P1 @ p # P2). inner_ok h p"
    "\<forall>p \<in> set (P1 @ p # P2). \<forall>c \<in> set (kids h p). par h c = Some p"
proof -
  from assms(1) obtain P BP AP where P: "up h r m P BP AP" "A = P @ AP"
    "L1 @ left # L2 = concat (map (kids h) P)" "B1 @ B2 = weave (map (keys h) P) BP"
    "\<forall>p \<in> set P. inner_ok h p" "\<forall>p \<in> set P. \<forall>c \<in> set (kids h p). par h c = Some p"
    by (elim up_SucE)
  from P(3) obtain xss1 xs1 xs2 xss2 where xs: "map (kids h) P = xss1 @ (xs1 @ xs2) # xss2"
    "L1 = concat xss1 @ xs1" "left # L2 = xs2 @ concat xss2" "xs2 \<noteq> []"
    by (rule concat_split_Cons)
  from xs(1) obtain P1 p P2 where Ps: "P = P1 @ p # P2" "map (kids h) P1 = xss1" "kids h p = xs1 @ xs2"
    "map (kids h) P2 = xss2" by (auto simp: map_eq_append_conv map_eq_Cons_conv)
  from xs(3,4) obtain C2 where "xs2 = left # C2" "L2 = C2 @ concat xss2" by (cases xs2) auto
  with xs(2) Ps have C: "P = P1 @ p # P2" "kids h p = xs1 @ left # C2"
    "L1 = concat (map (kids h) P1) @ xs1" "L2 = C2 @ concat (map (kids h) P2)" by simp_all
  let ?BP1 = "take (length P1) BP" and ?BP2 = "drop (length P1) BP"
  have lens: "length ?BP1 = length P1" "length P2 = length ?BP2" using up_length [OF P(1)] C(1) by auto
  note ls = level_split [OF P(5) [unfolded C(1)] lens(1) lens(2)]
  let ?K1 = "take (length xs1) (keys h p)" and ?K2 = "drop (length xs1) (keys h p)"
  have K: "length xs1 = length ?K1" using inner_ok_lengths [of h p] P(5) C by simp
  have eq: "B1 @ B2 = (wpre (map (keys h) P1) ?BP1 @ ?K1) @ (?K2 @ wpost ?BP2 (map (keys h) P2))"
    using P(4) ls(1) C(1) by simp
  have "length B1 = length (wpre (map (keys h) P1) ?BP1 @ ?K1)"
    using assms(2) C(3) ls(2) K by simp
  from iffD1 [OF append_eq_append_conv [OF disjI1 [OF this]] eq] show thesis
    using that [of P1 p P2 ?BP1 ?BP2 AP xs1 C2 ?K1 ?K2] P C lens K by simp
qed

text \<open>Putting a level with one or two rewritten parents back under the levels above it.\<close>

lemma rebuild_level:
  assumes "up h' r' m' (P1 @ Q @ P2) BP' A'"
    and "\<forall>q \<in> set (P1 @ P2). inner_ok h q \<and> same_but_parent h h' q \<and> (\<forall>c \<in> set (kids h q). par h' c = Some q)"
    and "\<forall>q \<in> set Q. inner_ok h' q \<and> (\<forall>c \<in> set (kids h' q). par h' c = Some q)"
    and "L' = concat (map (kids h) P1) @ concat (map (kids h') Q) @ concat (map (kids h) P2)"
    and "B' = weave (map (keys h) P1 @ map (keys h') Q @ map (keys h) P2) BP'"
  shows "up h' r' (Suc m') L' B' ((P1 @ Q @ P2) @ A')"
proof (rule up_SucI [OF assms(1)])
  have same: "kids h' q = kids h q" "keys h' q = keys h q" "inner_ok h' q = inner_ok h q"
    if "q \<in> set (P1 @ P2)" for q
    using assms(2) that by (auto dest: same_but_parentD)
  then have maps: "map (kids h') P1 = map (kids h) P1" "map (kids h') P2 = map (kids h) P2"
    "map (keys h') P1 = map (keys h) P1" "map (keys h') P2 = map (keys h) P2" by auto
  show "L' = concat (map (kids h') (P1 @ Q @ P2))" "B' = weave (map (keys h') (P1 @ Q @ P2)) BP'"
    by (simp_all only: assms(4,5) map_append concat_append maps)
  show "inner_ok h' p \<and> (\<forall>c \<in> set (kids h' p). par h' c = Some p)" if "p \<in> set (P1 @ Q @ P2)" for p
    using that assms(2,3) same [of p] by auto
qed

text \<open>
  The state in which \<^verbatim>\<open>btree_insert_index\<close> is called: \<open>left\<close> has been split, its new
  sibling \<open>right\<close> is not yet known to the level above, and \<open>key\<close> fits between the
  separators around \<open>left\<close>.
\<close>

definition pending :: "('k, 'v) env \<Rightarrow> ('k, 'v) bheap \<Rightarrow> addr \<Rightarrow> nat \<Rightarrow> addr list \<Rightarrow> addr \<Rightarrow> addr \<Rightarrow> addr list
    \<Rightarrow> 'k list \<Rightarrow> 'k list \<Rightarrow> addr list \<Rightarrow> 'k \<Rightarrow> bool" where
  "pending e h r m L1 left right L2 B1 B2 A key \<longleftrightarrow>
     up h r m (L1 @ left # L2) (B1 @ B2) A \<and> length B1 = length L1 \<and>
     distinct ((L1 @ left # right # L2) @ A) \<and> (\<forall>a \<in> set (L1 @ left # right # L2). cell h a \<noteq> None) \<and>
     cstrict (keycmp e) (B1 @ key # B2)"

context mr_env
begin

text \<open>The parent after the new key and child have been written into it.\<close>

lemma pending_parent:
  assumes "pending e h r (Suc m) L1 left right L2 B1 B2 A key"
  obtains P1 p P2 BP1 BP2 AP C1 C2 K1 K2 n n' where
    "up h r m (P1 @ p # P2) (BP1 @ BP2) AP" "A = (P1 @ p # P2) @ AP" "length BP1 = length P1"
    "length P2 = length BP2" "kids h p = C1 @ left # C2"
    "L1 = concat (map (kids h) P1) @ C1" "L2 = C2 @ concat (map (kids h) P2)"
    "B1 = wpre (map (keys h) P1) BP1 @ K1" "B2 = K2 @ wpost BP2 (map (keys h) P2)"
    "\<forall>p \<in> set (P1 @ p # P2). inner_ok h p"
    "\<forall>p \<in> set (P1 @ p # P2). \<forall>c \<in> set (kids h p). par h c = Some p"
    "cell h p = Some n" "index_slot e n key right = Inr n'" "inner_node 7 n'" "bn_nkeys n' \<le> 7"
    "node_keys n' = K1 @ key # K2" "node_kids n' = C1 @ left # right # C2" "bn_parent n' = bn_parent n"
proof -
  from assms have up: "up h r (Suc m) (L1 @ left # L2) (B1 @ B2) A" "length B1 = length L1"
    and sorted: "cstrict (keycmp e) (B1 @ key # B2)" by (auto simp: pending_def)
  obtain P1 p P2 BP1 BP2 AP C1 C2 K1 K2 where a:
    "up h r m (P1 @ p # P2) (BP1 @ BP2) AP" "A = (P1 @ p # P2) @ AP" "length BP1 = length P1"
    "length P2 = length BP2" "kids h p = C1 @ left # C2" "keys h p = K1 @ K2" "length C1 = length K1"
    "L1 = concat (map (kids h) P1) @ C1" "L2 = C2 @ concat (map (kids h) P2)"
    "B1 = wpre (map (keys h) P1) BP1 @ K1" "B2 = K2 @ wpost BP2 (map (keys h) P2)"
    "\<forall>p \<in> set (P1 @ p # P2). inner_ok h p"
    "\<forall>p \<in> set (P1 @ p # P2). \<forall>c \<in> set (kids h p). par h c = Some p"
    by (rule level_around [OF up])
  from a(12) obtain n where n: "cell h p = Some n" "inner_node 6 n" by (auto simp: inner_ok_def)
  have nk: "node_keys n = K1 @ K2" "node_kids n = C1 @ left # C2" using n(1) a(5,6) by (auto simp: keys_def kids_def)
  from sorted have "cstrict (keycmp e) (node_keys n)" "\<forall>k \<in> set K1. keycmp e k key < 0"
    "\<forall>k \<in> set K2. keycmp e key k < 0" unfolding a(10,11) nk by (auto simp: cstrict_append)
  from index_slot_ok [OF n(2) this(1) nk a(7) this(2,3)] obtain n' where
    n': "index_slot e n key right = Inr n'" "inner_node 7 n'" "bn_nkeys n' = bn_nkeys n + 1"
      "node_keys n' = K1 @ key # K2" "node_kids n' = C1 @ left # right # C2" "bn_parent n' = bn_parent n" by blast
  have "bn_nkeys n' \<le> 7" using n' n(2) by (simp add: inner_node_def)
  then show thesis
    using that [OF a(1-5,8-13) n(1) n'(1,2)] n'(4-6) by blast
qed

text \<open>The heap after that write, before a possible split.\<close>

lemma pending_written:
  assumes pend: "pending e h r (Suc m) L1 left right L2 B1 B2 A key"
  obtains P1 p P2 BP1 BP2 AP C1 C2 K1 K2 n n' h1 where
    "A = (P1 @ p # P2) @ AP" "length BP1 = length P1" "length P2 = length BP2"
    "L1 = concat (map (kids h) P1) @ C1" "L2 = C2 @ concat (map (kids h) P2)"
    "B1 = wpre (map (keys h) P1) BP1 @ K1" "B2 = K2 @ wpost BP2 (map (keys h) P2)"
    "\<forall>q \<in> set (P1 @ P2). inner_ok h q"
    "cell h p = Some n" "par h left = Some p" "index_slot e n key right = Inr n'" "inner_node 7 n'" "bn_nkeys n' \<le> 7"
    "node_keys n' = K1 @ key # K2" "node_kids n' = C1 @ left # right # C2"
    "set_parent (bn_set h p n') (Some right) (Some p) = Inr h1" "length h1 = length h"
    "\<forall>a. a \<noteq> p \<longrightarrow> a \<noteq> right \<longrightarrow> cell h1 a = cell h a" "cell h1 p = Some n'" "same_but_parent h h1 right"
    "up h1 r m (P1 @ p # P2) (BP1 @ BP2) AP"
    "\<forall>c \<in> set (C1 @ left # right # C2). par h1 c = Some p"
    "\<forall>q \<in> set (P1 @ P2). \<forall>c \<in> set (kids h q). par h1 c = Some q"
proof -
  obtain P1 p P2 BP1 BP2 AP C1 C2 K1 K2 n n' where a:
    "up h r m (P1 @ p # P2) (BP1 @ BP2) AP" "A = (P1 @ p # P2) @ AP" "length BP1 = length P1"
    "length P2 = length BP2" "kids h p = C1 @ left # C2"
    "L1 = concat (map (kids h) P1) @ C1" "L2 = C2 @ concat (map (kids h) P2)"
    "B1 = wpre (map (keys h) P1) BP1 @ K1" "B2 = K2 @ wpost BP2 (map (keys h) P2)"
    "\<forall>p \<in> set (P1 @ p # P2). inner_ok h p"
    "\<forall>p \<in> set (P1 @ p # P2). \<forall>c \<in> set (kids h p). par h c = Some p"
    "cell h p = Some n" "index_slot e n key right = Inr n'" "inner_node 7 n'" "bn_nkeys n' \<le> 7"
    "node_keys n' = K1 @ key # K2" "node_kids n' = C1 @ left # right # C2" "bn_parent n' = bn_parent n"
    by (rule pending_parent [OF pend])
  from pend obtain rn where rn: "cell h right = Some rn" by (auto simp: pending_def)
  from pend have dist: "distinct ((L1 @ left # right # L2) @ A)" by (simp add: pending_def)
  note less = cell_less [OF rn] cell_less [OF a(12)]
  have pr: "p \<noteq> right" using dist a(2) by auto
  let ?h1 = "bn_set (bn_set h p n') right (rn\<lparr>bn_parent := Some p\<rparr>)"
  have c1: "cell (bn_set h p n') right = Some rn" using rn pr by simp
  have cells: "\<forall>x. x \<noteq> p \<longrightarrow> x \<noteq> right \<longrightarrow> cell ?h1 x = cell h x" "cell ?h1 p = Some n'"
    using less pr by simp_all
  have other: "cell ?h1 x = cell h x" if "x \<in> set (concat (map (kids h) (P1 @ p # P2)))" for x
    using dist a(2,5,6,7) that cells(1) by auto
  have opar: "par ?h1 x = par h x" if "x \<in> set (kids h q)" "q \<in> set (P1 @ p # P2)" for x q
  proof -
    from that have "x \<in> set (concat (map (kids h) (P1 @ p # P2)))" by auto
    from other [OF this] show ?thesis by (simp only: par_def)
  qed
  have "up ?h1 r m (P1 @ p # P2) (BP1 @ BP2) AP"
  proof (rule up_frame [OF a(1)])
    show "\<forall>x \<in> set AP. cell ?h1 x = cell h x" using dist a(2) cells(1) by auto
    have "par ?h1 p = par h p" using cells(2) a(12,18) by (simp add: par_def)
    moreover have "cell ?h1 x = cell h x" if "x \<in> set (P1 @ P2)" for x using dist a(2) that cells(1) by auto
    ultimately show "\<forall>x \<in> set (P1 @ p # P2). par ?h1 x = par h x" by (auto simp: par_def)
  qed
  moreover have prt: "par ?h1 right = Some p" using less by (simp add: par_def)
  then have "\<forall>c \<in> set (C1 @ left # right # C2). par ?h1 c = Some p"
    using opar [of _ p] a(5,11) prt by auto
  moreover have "\<forall>q \<in> set (P1 @ P2). \<forall>c \<in> set (kids h q). par ?h1 c = Some q"
    using opar a(11) by auto
  moreover have "same_but_parent h ?h1 right" using rn less by (auto simp: same_but_parent_def)
  moreover have "par h left = Some p" using a(5,11) by simp
  ultimately show thesis
    using that [OF a(2,3,4,6-9) _ a(12) _ a(13-17) set_parent_ok [OF c1] _ cells(1,2)] a(10) by simp
qed

lemma insert_index_fits:
  assumes pend: "pending e h r (Suc m) L1 left right L2 B1 B2 A key"
    and A: "A = (P1 @ p # P2) @ AP" "length BP1 = length P1" "length P2 = length BP2"
    and L: "L1 = concat (map (kids h) P1) @ C1" "L2 = C2 @ concat (map (kids h) P2)"
    and B: "B1 = wpre (map (keys h) P1) BP1 @ K1" "B2 = K2 @ wpost BP2 (map (keys h) P2)"
    and ok: "\<forall>q \<in> set (P1 @ P2). inner_ok h q"
    and n': "inner_node 7 n'" "bn_nkeys n' \<le> 6" "node_keys n' = K1 @ key # K2" "node_kids n' = C1 @ left # right # C2"
    and h1: "length h1 = length h" "\<forall>a. a \<noteq> p \<longrightarrow> a \<noteq> right \<longrightarrow> cell h1 a = cell h a" "cell h1 p = Some n'"
      "same_but_parent h h1 right" "up h1 r m (P1 @ p # P2) (BP1 @ BP2) AP"
    and par: "\<forall>c \<in> set (C1 @ left # right # C2). par h1 c = Some p"
      "\<forall>q \<in> set (P1 @ P2). \<forall>c \<in> set (kids h q). par h1 c = Some q"
    and bt: "bt_heap bt = h" "bt_nlevel bt = Suc (Suc m) + d" "bt_root bt = Some r"
  shows "spliced d bt (L1 @ left # right # L2) (B1 @ key # B2) A (bt\<lparr>bt_heap := h1\<rparr>)"
proof -
  from pend have dist: "distinct ((L1 @ left # right # L2) @ A)"
    and cells: "\<forall>a \<in> set (L1 @ left # right # L2). cell h a \<noteq> None" by (auto simp: pending_def)
  have same: "same_but_parent h h1 q" if "q \<in> set (P1 @ P2)" for q
  proof -
    from that ok have "cell h q \<noteq> None" by (auto simp: inner_ok_def)
    moreover from that dist A(1) have "q \<noteq> p" "q \<noteq> right" by auto
    ultimately show ?thesis using h1(2) by (intro same_but_parent_refl) auto
  qed
  have "up h1 r (Suc m) (L1 @ left # right # L2) (B1 @ key # B2) ((P1 @ [p] @ P2) @ AP)"
  proof (rule rebuild_level [of h1 r m P1 "[p]" P2 "BP1 @ BP2" AP h])
    show "up h1 r m (P1 @ [p] @ P2) (BP1 @ BP2) AP" using h1(5) by simp
    show "\<forall>q \<in> set (P1 @ P2). inner_ok h q \<and> same_but_parent h h1 q \<and> (\<forall>c \<in> set (kids h q). par h1 c = Some q)"
      using ok same par(2) by blast
    have kp: "kids h1 p = C1 @ left # right # C2" "keys h1 p = K1 @ key # K2"
      using h1(3) n' by (auto simp: kids_def keys_def)
    then show "\<forall>q \<in> set [p]. inner_ok h1 q \<and> (\<forall>c \<in> set (kids h1 q). par h1 c = Some q)"
      using h1(3) n'(1,2) par(1) by (auto simp: inner_ok_def inner_node_def)
    show "L1 @ left # right # L2 = concat (map (kids h) P1) @ concat (map (kids h1) [p]) @ concat (map (kids h) P2)"
      using L kp by simp
    show "B1 @ key # B2 = weave (map (keys h) P1 @ map (keys h1) [p] @ map (keys h) P2) (BP1 @ BP2)"
      using B kp A weave_split [of "map (keys h) P1" BP1 "map (keys h) P2" BP2 "keys h1 p"] by simp
  qed
  then have up1: "up h1 r (Suc m) (L1 @ left # right # L2) (B1 @ key # B2) A" using A(1) by simp
  have same': "same_but_parent h h1 a" if "a \<in> set (L1 @ left # right # L2)" for a
  proof (cases "a = right")
    case False
    moreover from that dist A(1) have "a \<noteq> p" by auto
    ultimately show ?thesis using cells that h1(2) by (intro same_but_parent_refl) auto
  qed (use h1(4) in simp)
  show ?thesis
  proof (rule splicedI [of _ r "Suc m"])
    show "up (bt_heap (bt\<lparr>bt_heap := h1\<rparr>)) r (Suc m) (L1 @ left # right # L2) (B1 @ key # B2) A"
      using up1 by simp
    show "same_but_parent (bt_heap bt) (bt_heap (bt\<lparr>bt_heap := h1\<rparr>)) a"
      if "a \<in> set (L1 @ left # right # L2)" for a using same' [OF that] bt by simp
  qed (use bt h1(1,2) dist A(1) in auto)
qed

lemma split_pending:
  assumes pend: "pending e h r (Suc m) L1 left right L2 B1 B2 A key"
    and A: "A = (P1 @ p # P2) @ AP" "length BP1 = length P1" "length P2 = length BP2"
    and B: "B1 = wpre (map (keys h) P1) BP1 @ K1" "B2 = K2 @ wpost BP2 (map (keys h) P2)"
    and n': "node_keys n' = K1 @ key # K2" "3 < length (node_keys n')" "bn_parent n1 = bn_parent n'"
    and h1: "length h1 = length h" "cell h1 p = Some n'" "up h1 r m (P1 @ p # P2) (BP1 @ BP2) AP"
      "\<forall>q \<in> set (P1 @ P2). cell h1 q \<noteq> None"
  shows "pending e (bn_set h1 p n1 @ [Some n2]) r m P1 p (length h) P2 BP1 BP2 AP (node_keys n' ! 3)"
proof -
  let ?h2 = "bn_set h1 p n1 @ [Some n2]"
  from pend have dist: "distinct ((P1 @ p # P2) @ AP)" by (simp add: pending_def A(1))
  have less: "p < length h" using cell_less [OF h1(2)] h1(1) by simp
  have inside: "a < length h" "cell h1 a \<noteq> None" if "a \<in> set ((P1 @ p # P2) @ AP)" for a
  proof -
    show "cell h1 a \<noteq> None" using that h1(2,4) up_cells [OF h1(3), of a] by auto
    then show "a < length h" using cell_less h1(1) by fastforce
  qed
  have cells: "cell ?h2 a = (if a = p then Some n1 else cell h1 a)" if "a < length h" for a
    using that less h1(1) by simp
  have "up ?h2 r m (P1 @ p # P2) (BP1 @ BP2) AP"
  proof (rule up_frame [OF h1(3)])
    show "\<forall>a \<in> set AP. cell ?h2 a = cell h1 a" using dist cells inside(1) by auto
    have "par ?h2 a = par h1 a" if "a \<in> set (P1 @ p # P2)" for a
      using cells [of a] inside(1) [of a] that h1(2) n'(3) by (cases "a = p") (auto simp: par_def simp del: cell_snoc cell_set)
    then show "\<forall>a \<in> set (P1 @ p # P2). par ?h2 a = par h1 a" by blast
  qed
  moreover have "length h \<notin> set ((P1 @ p # P2) @ AP)" using inside(1) by blast
  moreover have "\<forall>a \<in> set (P1 @ p # length h # P2). cell ?h2 a \<noteq> None"
    using cells inside less h1(1) by (auto simp del: cell_snoc cell_set) (auto simp: h1(1))
  moreover have "cstrict (keycmp e) (BP1 @ node_keys n' ! 3 # BP2)"
  proof -
    have "cstrict (keycmp e) (wpre (map (keys h) P1) BP1 @ node_keys n' @ wpost BP2 (map (keys h) P2))"
      using pend by (simp add: pending_def B n'(1))
    moreover have "node_keys n' ! 3 \<in> set (node_keys n')" using n'(2) by simp
    ultimately show ?thesis using A(2,3) by (auto intro: cstrict_weave_mid)
  qed
  ultimately show ?thesis using A(2) dist by (simp add: pending_def)
qed

text \<open>After the recursion the children of the new parent are told about it.\<close>

lemma overflow_spliced:
  assumes pend: "pending e h r (Suc m) L1 left right L2 B1 B2 A key"
    and A: "A = (P1 @ p # P2) @ AP" "length BP1 = length P1" "length P2 = length BP2"
    and L: "L1 = concat (map (kids h) P1) @ C1" "L2 = C2 @ concat (map (kids h) P2)"
    and B: "B1 = wpre (map (keys h) P1) BP1 @ K1" "B2 = K2 @ wpost BP2 (map (keys h) P2)"
    and ok: "\<forall>q \<in> set (P1 @ P2). inner_ok h q"
    and n': "node_keys n' = K1 @ key # K2" "node_kids n' = C1 @ left # right # C2" "3 < length (node_keys n')"
    and h1: "length h1 = length h" "\<forall>a. a \<noteq> p \<longrightarrow> a \<noteq> right \<longrightarrow> cell h1 a = cell h a" "p < length h"
      "same_but_parent h h1 right"
    and par: "\<forall>c \<in> set (C1 @ left # right # C2). par h1 c = Some p"
      "\<forall>q \<in> set (P1 @ P2). \<forall>c \<in> set (kids h q). par h1 c = Some q"
    and n1: "inner_node 6 n1" "node_keys n1 = take 3 (node_keys n')" "node_kids n1 = take 4 (node_kids n')"
    and n2: "inner_node 6 n2" "node_keys n2 = drop 4 (node_keys n')" "node_kids n2 = drop 4 (node_kids n')"
    and h2: "h2 = bn_set h1 p n1 @ [Some n2]"
    and bt: "bt_heap bt = h"
    and sp: "spliced (Suc d) (bt\<lparr>bt_heap := h2\<rparr>) (P1 @ p # length h # P2) (BP1 @ node_keys n' ! 3 # BP2) AP bt3"
  shows "succeeds (fix_parents (bt_heap bt3) (length h) (map Some (drop 4 (node_kids n'))))
    (\<lambda>h4. spliced d bt (L1 @ left # right # L2) (B1 @ key # B2) A (bt3\<lparr>bt_heap := h4\<rparr>))"
proof -
  let ?L = "L1 @ left # right # L2" and ?np = "length h" and ?C = "node_kids n'" and ?P = "P1 @ p # length h # P2"
  from pend have dist: "distinct (?L @ A)" and cells: "\<forall>a \<in> set ?L. cell h a \<noteq> None" by (auto simp: pending_def)
  from sp obtain r' m' A3 where s: "bt_root bt3 = Some r'" "bt_nlevel bt3 = Suc m' + Suc d" "bt_nkeys bt3 = bt_nkeys bt"
    "up (bt_heap bt3) r' m' ?P (BP1 @ node_keys n' ! 3 # BP2) A3" "distinct (?P @ A3)"
    "set A3 \<subseteq> set AP \<union> {length h2..}" "length h2 \<le> length (bt_heap bt3)"
    "\<forall>a \<in> set ?P. same_but_parent h2 (bt_heap bt3) a"
    "\<forall>a < length h2. a \<notin> set AP \<longrightarrow> a \<notin> set ?P \<longrightarrow> cell (bt_heap bt3) a = cell h2 a"
    by (elim splicedE) simp
  have len2: "length h2 = Suc (length h)" using h2 h1(1) by simp
  have cell2: "cell h2 a = (if a = p then Some n1 else if a = ?np then Some n2 else cell h1 a)" for a
    using h2 h1(1,3) by auto
  have Lless: "a < length h" if "a \<in> set ?L" for a using cells that cell_less by blast
  have LP: "set ?L \<inter> set ?P = {}" "set ?L \<inter> set AP = {}" using dist A(1) Lless by auto
  have LA3: "set ?L \<inter> set A3 = {}" using s(6) LP(2) Lless len2 by fastforce
  have CL: "set ?C \<subseteq> set ?L" "set (drop 4 ?C) \<subseteq> set ?L" using n'(2) L set_drop_subset [of 4 ?C] by auto
  have cellL: "cell (bt_heap bt3) a = cell h1 a" if "a \<in> set ?L" for a
  proof -
    from that LP have "a \<notin> set AP" "a \<notin> set ?P" by blast+
    with s(9) Lless [OF that] len2 cell2 [of a] show ?thesis by simp
  qed
  have sameL: "same_but_parent h h1 a" if "a \<in> set ?L" for a
  proof (cases "a = right")
    case False
    then show ?thesis using cells that h1(2) dist A(1) by (intro same_but_parent_refl) auto
  qed (use h1(4) in simp)
  have dropC: "cell (bt_heap bt3) c \<noteq> None" if "c \<in> set (drop 4 ?C)" for c
    using subsetD [OF CL(2) that] cellL [of c] sameL [of c] by (auto simp: same_but_parent_def)
  then obtain h4 where fix4: "fix_parents (bt_heap bt3) ?np (map Some (drop 4 ?C)) = Inr h4"
    and h4: "length h4 = length (bt_heap bt3)" "\<forall>b. cell h4 b = (if b \<in> set (drop 4 ?C)
      then map_option (bn_parent_update (\<lambda>_. Some ?np)) (cell (bt_heap bt3) b) else cell (bt_heap bt3) b)"
    using fix_parents_ok [of "drop 4 ?C" "bt_heap bt3" ?np] by blast
  have cellP: "cell h4 a = cell (bt_heap bt3) a" if "a \<notin> set ?L" for a using h4(2) CL(2) that by auto
  have par4: "par h4 a = par h1 a" if "a \<in> set ?L" "a \<notin> set (drop 4 ?C)" for a
    using h4(2) cellL that by (simp add: par_def)
  have sameP: "same_but_parent h h4 q" if "q \<in> set (P1 @ P2)" for q
  proof -
    from that dist A(1) have "q \<noteq> p" "q \<noteq> right" "q \<notin> set ?L" by auto
    moreover from that ok have "cell h q \<noteq> None" by (auto simp: inner_ok_def)
    moreover from this have "q \<noteq> ?np" by auto
    ultimately have "cell h2 q = cell h q" "cell h4 q = cell (bt_heap bt3) q"
      using cellP [of q] cell2 [of q] h1(2) by auto
    moreover have "same_but_parent h2 (bt_heap bt3) q" using s(8) that by auto
    ultimately show ?thesis by (simp add: same_but_parent_def)
  qed
  have Leq: "?L = concat (map (kids h) P1) @ ?C @ concat (map (kids h) P2)" using L n'(2) by simp
  then have distC: "distinct ?C" "set ?C \<inter> set (concat (map (kids h) (P1 @ P2))) = {}" using dist by auto
  have four: "kids h4 p = take 4 ?C" "kids h4 ?np = drop 4 ?C" "keys h4 p = take 3 (node_keys n')"
    "keys h4 ?np = drop 4 (node_keys n')" "inner_ok h4 p" "inner_ok h4 ?np"
  proof -
    have np: "p \<notin> set ?L" "?np \<notin> set ?L" "p \<noteq> ?np" using LP(1) h1(3) by auto
    have "same_but_parent h2 h4 p" "same_but_parent h2 h4 ?np"
      using s(8) cellP [OF np(1)] cellP [OF np(2)] by (auto simp: same_but_parent_def)
    note same_but_parentD [OF this(1)] same_but_parentD [OF this(2)]
    moreover have "cell h2 p = Some n1" "cell h2 ?np = Some n2" using cell2 np(3) by auto
    ultimately show "kids h4 p = take 4 ?C" "kids h4 ?np = drop 4 ?C" "keys h4 p = take 3 (node_keys n')"
      "keys h4 ?np = drop 4 (node_keys n')" "inner_ok h4 p" "inner_ok h4 ?np"
      using n1 n2 by (simp_all add: kids_def [of h2] keys_def [of h2] inner_ok_def [of h2])
  qed
  have "up h4 r' (Suc m') ?L (B1 @ key # B2) ((P1 @ [p, ?np] @ P2) @ A3)"
  proof (rule rebuild_level [of h4 r' m' P1 "[p, ?np]" P2 "BP1 @ node_keys n' ! 3 # BP2" A3 h])
    show "up h4 r' m' (P1 @ [p, ?np] @ P2) (BP1 @ node_keys n' ! 3 # BP2) A3"
    proof (rule up_frame)
      show "up (bt_heap bt3) r' m' (P1 @ [p, ?np] @ P2) (BP1 @ node_keys n' ! 3 # BP2) A3" using s(4) by simp
      show "\<forall>a \<in> set A3. cell h4 a = cell (bt_heap bt3) a" using cellP LA3 by blast
      show "\<forall>a \<in> set (P1 @ [p, ?np] @ P2). par h4 a = par (bt_heap bt3) a"
      proof
        fix a assume "a \<in> set (P1 @ [p, ?np] @ P2)"
        then have "a \<in> set ?P" by auto
        with LP(1) have "a \<notin> set ?L" by blast
        from cellP [OF this] show "par h4 a = par (bt_heap bt3) a" by (simp add: par_def)
      qed
    qed
    show "\<forall>q \<in> set (P1 @ P2). inner_ok h q \<and> same_but_parent h h4 q \<and> (\<forall>c \<in> set (kids h q). par h4 c = Some q)"
    proof (intro ballI conjI)
      fix q c assume q: "q \<in> set (P1 @ P2)" "c \<in> set (kids h q)"
      then have "c \<in> set (concat (map (kids h) (P1 @ P2)))" by auto
      with distC(2) Leq have "c \<in> set ?L" "c \<notin> set (drop 4 ?C)" by (auto dest: in_set_dropD)
      with par4 par(2) q show "par h4 c = Some q" by simp
    qed (use ok sameP in auto)
    show "\<forall>q \<in> set [p, ?np]. inner_ok h4 q \<and> (\<forall>c \<in> set (kids h4 q). par h4 c = Some q)"
    proof -
      have "par h4 c = Some p" if "c \<in> set (take 4 ?C)" for c
      proof -
        have "c \<in> set ?C" "c \<notin> set (drop 4 ?C)"
          using that distC(1) append_take_drop_id [of 4 ?C] by (metis distinct_append disjoint_iff in_set_takeD)+
        with CL(1) par4 par(1) n'(2) show ?thesis by auto
      qed
      moreover have "par h4 c = Some ?np" if "c \<in> set (drop 4 ?C)" for c
        using h4(2) dropC [OF that] that by (auto simp: par_def)
      ultimately show ?thesis using four by auto
    qed
    show "?L = concat (map (kids h) P1) @ concat (map (kids h4) [p, ?np]) @ concat (map (kids h) P2)"
      using Leq four by simp
    show "B1 @ key # B2 = weave (map (keys h) P1 @ map (keys h4) [p, ?np] @ map (keys h) P2) (BP1 @ node_keys n' ! 3 # BP2)"
      using B n'(1,3) four A(2,3) id_take_nth_drop [of 3 "node_keys n'"]
        weave_split2 [of "map (keys h) P1" BP1 "map (keys h) P2" BP2 "keys h4 p" "keys h4 ?np"] by simp
  qed
  then have up4: "up h4 r' (Suc m') ?L (B1 @ key # B2) (?P @ A3)" by simp
  have "spliced d bt ?L (B1 @ key # B2) A (bt3\<lparr>bt_heap := h4\<rparr>)"
  proof (rule splicedI [of _ r' "Suc m'"])
    show "up (bt_heap (bt3\<lparr>bt_heap := h4\<rparr>)) r' (Suc m') ?L (B1 @ key # B2) (?P @ A3)" using up4 by simp
    show "distinct (?L @ ?P @ A3)" using dist s(5) LP(1) LA3 by auto
    show "set (?P @ A3) \<subseteq> set A \<union> {length (bt_heap bt)..}" using s(6) A(1) bt len2 by auto
    show "same_but_parent (bt_heap bt) (bt_heap (bt3\<lparr>bt_heap := h4\<rparr>)) a" if "a \<in> set ?L" for a
      using sameL [OF that] cellL [OF that] h4(2) bt by (auto simp: same_but_parent_def)
    show "cell (bt_heap (bt3\<lparr>bt_heap := h4\<rparr>)) a = cell (bt_heap bt) a"
      if "a < length (bt_heap bt)" "a \<notin> set A" "a \<notin> set ?L" for a
      using that cellP [of a] s(9) len2 cell2 [of a] h1(2) A(1) bt by auto
    show "length (bt_heap bt) \<le> length (bt_heap (bt3\<lparr>bt_heap := h4\<rparr>))" using s(7) h4(1) bt len2 by simp
  qed (use s(1-3) in simp_all)
  then show ?thesis using fix4 by simp
qed

text \<open>
  \<^verbatim>\<open>btree_insert_index\<close>: the new sibling and its separator are spliced into the level, and
  the levels above are a tree again. One unit of fuel per level is enough.
\<close>

lemma btree_insert_index_ok:
  assumes "pending e (bt_heap bt) r m L1 left right L2 B1 B2 A key"
    and "bt_nlevel bt = Suc m + d" "bt_root bt = Some r" "m < fuel"
  shows "succeeds (btree_insert_index fuel e bt key left right)
    (spliced d bt (L1 @ left # right # L2) (B1 @ key # B2) A)"
  using assms
proof (induction m arbitrary: fuel d bt L1 left right L2 B1 B2 A key)
  case 0
  then have one: "L1 = []" "L2 = []" "B1 = []" "B2 = []" "left = r" by (auto simp: pending_def Cons_eq_append_conv append_eq_Cons_conv)
  with 0 obtain ln rn where "cell (bt_heap bt) left = Some ln" "cell (bt_heap bt) right = Some rn"
    "up (bt_heap bt) r 0 [left] [] A" "left \<noteq> right" by (auto simp: pending_def)
  with 0 one show ?case using insert_index_root [of "bt_heap bt" r left A right ln rn bt d fuel key] by simp
next
  case (Suc m)
  let ?h = "bt_heap bt"
  from Suc.prems(4) obtain f where f: "fuel = Suc f" "m < f" by (cases fuel) auto
  obtain P1 p P2 BP1 BP2 AP C1 C2 K1 K2 n n' h1 where a:
    "A = (P1 @ p # P2) @ AP" "length BP1 = length P1" "length P2 = length BP2"
    "L1 = concat (map (kids ?h) P1) @ C1" "L2 = C2 @ concat (map (kids ?h) P2)"
    "B1 = wpre (map (keys ?h) P1) BP1 @ K1" "B2 = K2 @ wpost BP2 (map (keys ?h) P2)"
    "\<forall>q \<in> set (P1 @ P2). inner_ok ?h q"
    and n: "cell ?h p = Some n" "par ?h left = Some p" "index_slot e n key right = Inr n'" "inner_node 7 n'"
      "bn_nkeys n' \<le> 7" "node_keys n' = K1 @ key # K2" "node_kids n' = C1 @ left # right # C2"
    and h1: "set_parent (bn_set ?h p n') (Some right) (Some p) = Inr h1" "length h1 = length ?h"
      "\<forall>a. a \<noteq> p \<longrightarrow> a \<noteq> right \<longrightarrow> cell h1 a = cell ?h a" "cell h1 p = Some n'" "same_but_parent ?h h1 right"
      "up h1 r m (P1 @ p # P2) (BP1 @ BP2) AP"
      "\<forall>c \<in> set (C1 @ left # right # C2). par h1 c = Some p"
      "\<forall>q \<in> set (P1 @ P2). \<forall>c \<in> set (kids ?h q). par h1 c = Some q"
    by (rule pending_written [OF Suc.prems(1)])
  from n(2) obtain ln where ln: "cell ?h left = Some ln" "bn_parent ln = Some p"
    by (auto simp: par_def split: option.splits)
  show ?case
  proof (cases "bn_nkeys n' = 7")
    case False
    then have "btree_insert_index fuel e bt key left right = Inr (bt\<lparr>bt_heap := h1\<rparr>)"
      using f ln n h1(1) by (simp add: bt_order_def)
    moreover have "spliced d bt (L1 @ left # right # L2) (B1 @ key # B2) A (bt\<lparr>bt_heap := h1\<rparr>)"
      by (rule insert_index_fits [OF Suc.prems(1) a n(4) _ n(6,7) h1(2-8) refl Suc.prems(2,3)])
        (use False n(5) in simp)
    ultimately show ?thesis by simp
  next
    case True
    obtain n1 n2 where split: "btree_split_internal e h1 p = Inr (length h1, bn_set h1 p n1 @ [Some n2])"
      and n1: "inner_node 6 n1" "node_keys n1 = take 3 (node_keys n')" "node_kids n1 = take 4 (node_kids n')"
        "bn_parent n1 = bn_parent n'"
      and n2: "inner_node 6 n2" "node_keys n2 = drop 4 (node_keys n')" "node_kids n2 = drop 4 (node_kids n')"
        "take (bn_nkeys n2 + 1) (bn_kids n2) = map Some (drop 4 (node_kids n'))"
      and key3: "kvs_key (bn_arr n' ! 3) = node_keys n' ! 3"
      using split_internal_ok [OF n(4) True h1(4), of e] by blast
    let ?h2 = "bn_set h1 p n1 @ [Some n2]" and ?k = "node_keys n' ! 3"
    have len: "3 < length (node_keys n')" "3 < length (bn_arr n')"
      using inner_node_lengths(1) [OF n(4)] n(4) True by (auto simp: inner_node_def node_ok_def)
    have "\<forall>q \<in> set (P1 @ P2). cell h1 q \<noteq> None"
    proof
      fix q assume "q \<in> set (P1 @ P2)"
      with a(8) have "cell ?h q \<noteq> None" by (auto simp: inner_ok_def)
      with h1(3,4,5) show "cell h1 q \<noteq> None"
        by (cases "q = p"; cases "q = right") (auto simp: same_but_parent_def)
    qed
    from split_pending [OF Suc.prems(1) a(1,2,3,6,7) n(6) len(1) n1(4) h1(2,4,6) this, of n2]
    have pend: "pending e ?h2 r m P1 p (length ?h) P2 BP1 BP2 AP ?k" .
    obtain bt3 where bt3: "btree_insert_index f e (bt\<lparr>bt_heap := ?h2\<rparr>) ?k p (length ?h) = Inr bt3"
      and sp: "spliced (Suc d) (bt\<lparr>bt_heap := ?h2\<rparr>) (P1 @ p # length ?h # P2) (BP1 @ ?k # BP2) AP bt3"
      using Suc.IH [of "bt\<lparr>bt_heap := ?h2\<rparr>" P1 p "length ?h" P2 BP1 BP2 AP ?k "Suc d" f] pend Suc.prems(2,3) f(2)
      by (auto simp: succeeds_iff)
    obtain np where np: "cell (bt_heap bt3) (length ?h) = Some np"
      "take (bn_nkeys np + 1) (bn_kids np) = map Some (drop 4 (node_kids n'))"
      using sp h1(2,4) n2(4) cell_less [OF n(1)] by (elim splicedE) (auto simp: same_but_parent_def)
    have "succeeds (fix_parents (bt_heap bt3) (length ?h) (map Some (drop 4 (node_kids n'))))
        (\<lambda>h4. spliced d bt (L1 @ left # right # L2) (B1 @ key # B2) A (bt3\<lparr>bt_heap := h4\<rparr>))"
      by (rule overflow_spliced [OF Suc.prems(1) a n(6,7) len(1) h1(2,3) cell_less [OF n(1)] h1(5,7,8)
            n1(1-3) n2(1-3) refl refl sp])
    moreover have "btree_insert_index fuel e bt key left right =
        res_bind (fix_parents (bt_heap bt3) (length ?h) (map Some (drop 4 (node_kids n')))) (\<lambda>h4.
          Inr (bt3\<lparr>bt_heap := h4\<rparr>))"
      using f ln n(1,3) h1(1,2) split bt3 np True len(2) key3 by (simp add: bt_order_def)
    ultimately show ?thesis by simp
  qed
qed

end

end
