(* ===== verification/Btree_Correct.thy ===== *)
theory Btree_Correct
  imports Btree_Insert
begin

text \<open>
  The B+tree keeps the contract of a grouped collection: insertion agrees with the linear scan
  over the elements of the leaves, iteration delivers them in order. The leaves and the separators
  above them are one strictly sorted sequence, in which a separator stands before the elements
  that are not below it.
\<close>

section \<open>Elements and separators in one sequence\<close>

definition item_cmp :: "('k \<Rightarrow> 'k \<Rightarrow> int) \<Rightarrow> 'k \<times> bool \<Rightarrow> 'k \<times> bool \<Rightarrow> int" where
  "item_cmp cmp x y =
     (if cmp (fst x) (fst y) = 0 then (if snd x = snd y then 0 else if snd x then -1 else 1)
      else cmp (fst x) (fst y))"

lemma item_comparator:
  assumes "comparator cmp"
  shows "comparator (item_cmp cmp)"
proof -
  note c = comparator.cmp_sym [OF assms] comparator.cmp_eq_sym [OF assms] comparator.cmp_trans [OF assms]
    comparator.cmp_eq_trans [OF assms]
  show ?thesis
  proof
    show "item_cmp cmp x y < 0 \<longleftrightarrow> 0 < item_cmp cmp y x" for x y
      using c(1) [of "fst x" "fst y"] c(2) [of "fst x" "fst y"] by (auto simp: item_cmp_def)
    show "item_cmp cmp x z \<le> 0" if "item_cmp cmp x y \<le> 0" "item_cmp cmp y z \<le> 0" for x y z
    proof -
      from that have le: "cmp (fst x) (fst y) \<le> 0" "cmp (fst y) (fst z) \<le> 0"
        by (auto simp: item_cmp_def split: if_splits)
      then have "cmp (fst x) (fst z) \<le> 0" by (rule c(3))
      moreover have "cmp (fst x) (fst y) = 0 \<and> cmp (fst y) (fst z) = 0" if "cmp (fst x) (fst z) = 0"
      proof -
        have "cmp (fst z) (fst x) \<le> 0" using that c(2) [of "fst x" "fst z"] by simp
        with le have "cmp (fst y) (fst x) \<le> 0" "cmp (fst z) (fst y) \<le> 0" using c(3) by blast+
        with le show ?thesis
          using c(1) [of "fst x" "fst y"] c(1) [of "fst y" "fst z"] by linarith
      qed
      ultimately show ?thesis using that le by (auto simp: item_cmp_def split: if_splits)
    qed
  qed
qed

definition elem_item :: "('k, 'v) keyvals \<Rightarrow> 'k \<times> bool" where
  "elem_item x = (kvs_key x, False)"

definition sep_item :: "'k \<Rightarrow> 'k \<times> bool" where
  "sep_item b = (b, True)"

definition items :: "('k, 'v) keyvals list list \<Rightarrow> 'k list \<Rightarrow> ('k \<times> bool) list" where
  "items Es B = weave (map (map elem_item) Es) (map sep_item B)"

definition before :: "('k, 'v) keyvals list list \<Rightarrow> 'k list \<Rightarrow> ('k \<times> bool) list" where
  "before Es B = wpre (map (map elem_item) Es) (map sep_item B)"

definition after :: "'k list \<Rightarrow> ('k, 'v) keyvals list list \<Rightarrow> ('k \<times> bool) list" where
  "after B Es = wpost (map sep_item B) (map (map elem_item) Es)"

lemma items_split:
  assumes "length Es1 = length B1" "length Es2 = length B2"
  shows "items (Es1 @ E # Es2) (B1 @ B2) = before Es1 B1 @ map elem_item E @ after B2 Es2"
    and "items (Es1 @ E # E' # Es2) (B1 @ b # B2) =
      before Es1 B1 @ map elem_item E @ sep_item b # map elem_item E' @ after B2 Es2"
  using assms weave_split [of "map (map elem_item) Es1" "map sep_item B1" "map (map elem_item) Es2" "map sep_item B2"]
    weave_split2 [of "map (map elem_item) Es1" "map sep_item B1" "map (map elem_item) Es2" "map sep_item B2"]
  by (simp_all add: items_def before_def after_def)

lemma filter_after:
  assumes "length B = length Es"
  shows "filter snd (after B Es) = map sep_item B" "filter (Not \<circ> snd) (after B Es) = map elem_item (concat Es)"
  using assms by (induction B Es rule: list_induct2)
    (auto simp: after_def elem_item_def sep_item_def comp_def filter_empty_conv)

lemma filter_items:
  assumes "length Es = length B + 1"
  shows "filter snd (items Es B) = map sep_item B" "filter (Not \<circ> snd) (items Es B) = map elem_item (concat Es)"
proof -
  from assms obtain E Es' where Es: "Es = E # Es'" "length Es' = length B" by (cases Es) auto
  then have "items Es B = map elem_item E @ after B Es'"
    using weave_post [of "map (map elem_item) Es'" "map sep_item B" "map elem_item E"]
    by (simp add: items_def after_def)
  with Es filter_after [of B Es']
  show "filter snd (items Es B) = map sep_item B" "filter (Not \<circ> snd) (items Es B) = map elem_item (concat Es)"
    by (auto simp: elem_item_def comp_def filter_empty_conv)
qed

lemma cstrict_insert:
  assumes "cstrict cmp (xs @ ys)" "\<forall>x \<in> set xs. cmp x z < 0" "\<forall>y \<in> set ys. cmp z y < 0"
  shows "cstrict cmp (xs @ z # ys)"
  using assms by (auto simp: cstrict_append)

lemma cstrict_filter: "cstrict cmp xs \<Longrightarrow> cstrict cmp (filter P xs)"
  by (simp add: cstrict_def sorted_wrt_filter)

lemma set_before: "length Es = length B \<Longrightarrow> x \<in> set (concat Es) \<Longrightarrow> elem_item x \<in> set (before Es B)"
  by (induction Es B rule: list_induct2) (auto simp: before_def)

lemma set_after: "length B = length Es \<Longrightarrow> x \<in> set (concat Es) \<Longrightarrow> elem_item x \<in> set (after B Es)"
  by (induction B Es rule: list_induct2) (auto simp: after_def)

context mr_env
begin

lemma items_sorted:
  assumes "cstrict (item_cmp (keycmp e)) (items Es B)" "length Es = length B + 1"
  shows "cstrict (keycmp e) B" "cstrict (keyvals_cmp e) (concat Es)"
proof -
  have eq: "item_cmp (keycmp e) (sep_item x) (sep_item y) < 0 \<longleftrightarrow> keycmp e x y < 0"
    "item_cmp (keycmp e) (elem_item a) (elem_item b) < 0 \<longleftrightarrow> keyvals_cmp e a b < 0" for x y a b
    by (auto simp: item_cmp_def sep_item_def elem_item_def keyvals_cmp_def)
  show "cstrict (keycmp e) B"
    using cstrict_filter [OF assms(1), of snd] filter_items(1) [OF assms(2)] eq(1)
    by (simp add: cstrict_def sorted_wrt_map)
  show "cstrict (keyvals_cmp e) (concat Es)"
    using cstrict_filter [OF assms(1), of "Not \<circ> snd"] filter_items(2) [OF assms(2)] eq(2)
    by (simp add: cstrict_def sorted_wrt_map)
qed

text \<open>Where a key is located between separators, it lies strictly between all items around it.\<close>

lemma located_items:
  assumes "cstrict (item_cmp (keycmp e)) (before Es1 B1 @ ys @ after B2 Es2)"
    and "length Es1 = length B1" "length B2 = length Es2"
    and "\<forall>b \<in> set B1. 0 \<le> keycmp e key b" "\<forall>b \<in> set B2. keycmp e key b < 0"
  shows "\<forall>y \<in> set (before Es1 B1). item_cmp (keycmp e) y (key, False) < 0"
    and "\<forall>y \<in> set (after B2 Es2). item_cmp (keycmp e) (key, False) y < 0"
proof -
  let ?c = "item_cmp (keycmp e)"
  note ic = item_comparator [OF keycmp_comparator]
  have st: "cstrict ?c (before Es1 B1)" "cstrict ?c (after B2 Es2)"
    using assms(1) by (auto simp: cstrict_append)
  have b1: "\<forall>b \<in> set (map sep_item B1). ?c b (key, False) < 0"
    using assms(4) kc.cmp_sym' kc.cmp_eq_sym by (fastforce simp: item_cmp_def sep_item_def)
  have b2: "\<forall>b \<in> set (map sep_item B2). ?c (key, False) b < 0"
    using assms(5) by (auto simp: item_cmp_def sep_item_def)
  show "\<forall>y \<in> set (before Es1 B1). ?c y (key, False) < 0"
    using wpre_bounded [of "map (map elem_item) Es1" "map sep_item B1" ?c] st(1) assms(2) b1
      comparator.cmp_less_trans [OF ic] unfolding before_def by (metis length_map)
  show "\<forall>y \<in> set (after B2 Es2). ?c (key, False) y < 0"
    using wpost_bounded [of "map sep_item B2" "map (map elem_item) Es2" ?c] st(2) assms(3) b2
      comparator.cmp_less_trans [OF ic] unfolding after_def by (metis length_map)
qed

end

section \<open>The chain of leaves\<close>

definition nxt :: "('k, 'v) bheap \<Rightarrow> addr \<Rightarrow> addr option" where
  "nxt h a = (case cell h a of None \<Rightarrow> None | Some n \<Rightarrow> bn_next n)"

fun hd_or :: "addr list \<Rightarrow> addr option \<Rightarrow> addr option" where
  "hd_or [] t = t"
| "hd_or (a # L) t = Some a"

fun chained :: "('k, 'v) bheap \<Rightarrow> addr list \<Rightarrow> addr option \<Rightarrow> bool" where
  "chained h [] t \<longleftrightarrow> True"
| "chained h (a # L) t \<longleftrightarrow> nxt h a = hd_or L t \<and> chained h L t"

lemma hd_or_append [simp]: "hd_or (L1 @ L2) t = hd_or L1 (hd_or L2 t)"
  by (cases L1) auto

lemma chained_append: "chained h (L1 @ L2) t \<longleftrightarrow> chained h L1 (hd_or L2 t) \<and> chained h L2 t"
  by (induction L1) auto

lemma chained_cong: "\<forall>a \<in> set L. nxt h' a = nxt h a \<Longrightarrow> chained h' L t = chained h L t"
  by (induction L) auto

section \<open>Well-formed trees\<close>

definition leaf_ok :: "('k, 'v) bheap \<Rightarrow> addr \<Rightarrow> bool" where
  "leaf_ok h a \<longleftrightarrow> (\<exists>n. cell h a = Some n \<and> node_ok n \<and> bn_nkeys n \<le> 7)"

definition tree_at :: "('k, 'v) env \<Rightarrow> ('k, 'v) bheap \<Rightarrow> addr \<Rightarrow> nat \<Rightarrow> addr list \<Rightarrow> 'k list \<Rightarrow> addr list \<Rightarrow> bool" where
  "tree_at e h r m L B A \<longleftrightarrow> up h r m L B A \<and> distinct (L @ A) \<and> (\<forall>l \<in> set L. leaf_ok h l) \<and>
     chained h L None \<and> cstrict (item_cmp (keycmp e)) (items (map (leaf_elems h) L) B)"

definition bt_elems :: "('k, 'v) btree \<Rightarrow> ('k, 'v) keyvals list" where
  "bt_elems bt =
     (if bt_nlevel bt = 0 then []
      else concat (map (leaf_elems (bt_heap bt)) (level (bt_heap bt) (the (bt_root bt)) (bt_nlevel bt - 1))))"

definition bt_tree :: "('k, 'v) env \<Rightarrow> ('k, 'v) btree \<Rightarrow> addr list \<Rightarrow> 'k list \<Rightarrow> addr list \<Rightarrow> bool" where
  "bt_tree e bt L B A \<longleftrightarrow>
     (\<exists>r m. bt_nlevel bt = Suc m \<and> bt_root bt = Some r \<and> tree_at e (bt_heap bt) r m L B A)"

definition bt_inv :: "('k, 'v) env \<Rightarrow> ('k, 'v) btree \<Rightarrow> bool" where
  "bt_inv e bt \<longleftrightarrow> bt_nkeys bt = length (bt_elems bt) \<and>
     (bt_nlevel bt = 0 \<or> (\<exists>L B A. bt_tree e bt L B A \<and> (\<forall>l \<in> set L. leaf_elems (bt_heap bt) l \<noteq> [])))"

lemma bt_tree_elems:
  assumes "bt_tree e bt L B A"
  shows "bt_elems bt = concat (map (leaf_elems (bt_heap bt)) L)"
  using assms by (auto simp: bt_tree_def bt_elems_def tree_at_def dest: up_level)

lemma same_but_parent_leaf:
  assumes "same_but_parent h h' a"
  shows "nxt h' a = nxt h a" "leaf_ok h' a = leaf_ok h a"
  using assms by (auto simp: same_but_parent_def nxt_def leaf_ok_def node_ok_def)

text \<open>The contents of the two halves of a full leaf.\<close>

lemma split_leaf_halves:
  assumes "node_ok n" "bn_nkeys n = 8" "xs = take 8 (bn_arr n)"
  shows "length xs = 8" "take 4 (bn_arr n) = take 4 xs" "take 4 (drop 4 (bn_arr n)) = drop 4 xs"
  using assms by (auto simp: node_ok_def)

text \<open>A separator in front of an element that has another one before it in the same leaf.\<close>

lemma separator_fits:
  assumes "comparator cmp" "cstrict (item_cmp cmp) (xs @ map elem_item (E @ F) @ ys)" "E \<noteq> []" "F \<noteq> []"
  shows "cstrict (item_cmp cmp) (xs @ map elem_item E @ sep_item (kvs_key (hd F)) # map elem_item F @ ys)"
proof -
  let ?k = "kvs_key (hd F)"
  note ic = item_comparator [OF assms(1)]
  from assms(4) obtain f F' where F: "F = f # F'" by (cases F) auto
  have le: "item_cmp cmp (sep_item ?k) y < 0" if "item_cmp cmp (elem_item f) y < 0 \<or> y = elem_item f" for y
    using that comparator.cmp_refl [OF assms(1)] F by (auto simp: item_cmp_def sep_item_def elem_item_def split: if_splits)
  have up: "item_cmp cmp y (sep_item ?k) < 0" if "item_cmp cmp y (elem_item g) < 0 \<or> y = elem_item g"
      "item_cmp cmp (elem_item g) (elem_item f) < 0" for y g
  proof -
    have "item_cmp cmp (elem_item g) (sep_item ?k) < 0"
      using that(2) F by (auto simp: item_cmp_def sep_item_def elem_item_def split: if_splits)
    with that(1) show ?thesis using comparator.cmp_less_trans [OF ic] by blast
  qed
  from assms(3) obtain g where g: "g \<in> set E" by (cases E) auto
  have ef: "item_cmp cmp (elem_item x) (elem_item f) < 0" if "x \<in> set E" for x
    using assms(2) that F by (auto simp: cstrict_append)
  have "item_cmp cmp y (sep_item ?k) < 0" if "y \<in> set xs" for y
    using assms(2) that g by (intro up [OF _ ef [OF g]]) (auto simp: cstrict_append)
  moreover have "item_cmp cmp y (sep_item ?k) < 0" if "y \<in> set (map elem_item E)" for y
    using that up [OF disjI2 [OF refl] ef] by auto
  moreover have "item_cmp cmp (sep_item ?k) y < 0" if "y \<in> set (map elem_item F @ ys)" for y
    using assms(2) that F by (intro le) (auto simp: cstrict_append)
  ultimately show ?thesis using assms(2) by (auto simp: cstrict_append)
qed

context mr_env
begin

text \<open>Rewriting one leaf in place.\<close>

lemma leaf_fits:
  assumes tree: "tree_at e h r m (L1 @ l # L2) B A"
    and n: "cell h l = Some n" "bn_parent n' = bn_parent n" "bn_next n' = bn_next n" "node_ok n'" "bn_nkeys n' \<le> 7"
    and sorted: "cstrict (item_cmp (keycmp e))
      (items (map (leaf_elems h) L1 @ take (bn_nkeys n') (bn_arr n') # map (leaf_elems h) L2) B)"
  shows "tree_at e (bn_set h l n') r m (L1 @ l # L2) B A"
    and "map (leaf_elems (bn_set h l n')) (L1 @ l # L2)
      = map (leaf_elems h) L1 @ take (bn_nkeys n') (bn_arr n') # map (leaf_elems h) L2"
proof -
  let ?h = "bn_set h l n'"
  from tree have t: "up h r m (L1 @ l # L2) B A" "distinct ((L1 @ l # L2) @ A)" "\<forall>l \<in> set (L1 @ l # L2). leaf_ok h l"
    "chained h (L1 @ l # L2) None" by (auto simp: tree_at_def)
  note less = cell_less [OF n(1)]
  have cells: "cell ?h a = (if a = l then Some n' else cell h a)" for a using less by simp
  show elems: "map (leaf_elems ?h) (L1 @ l # L2)
      = map (leaf_elems h) L1 @ take (bn_nkeys n') (bn_arr n') # map (leaf_elems h) L2"
    using t(2) less by (auto simp: leaf_elems_def)
  have "up ?h r m (L1 @ l # L2) B A"
    using t(2) n cells by (intro up_frame [OF t(1)]) (auto simp: par_def)
  moreover have "chained ?h (L1 @ l # L2) None"
    using t(4) n cells chained_cong [of "L1 @ l # L2" ?h h] by (auto simp: nxt_def)
  moreover have "\<forall>l \<in> set (L1 @ l # L2). leaf_ok ?h l" using t(3) n cells by (auto simp: leaf_ok_def)
  ultimately show "tree_at e ?h r m (L1 @ l # L2) B A"
    unfolding tree_at_def elems using t(2) sorted by blast
qed

text \<open>The heap between the split of a leaf and the insertion of its separator.\<close>

lemma leaf_pending:
  assumes tree: "tree_at e h r m (L1 @ l # L2) (B1 @ B2) A" "length B1 = length L1"
    and n: "cell h l = Some n" "bn_parent n1 = bn_parent n"
    and key: "cstrict (keycmp e) (B1 @ key # B2)"
  shows "pending e (bn_set h l n1 @ [Some n2]) r m L1 l (length h) L2 B1 B2 A key"
proof -
  let ?h = "bn_set h l n1 @ [Some n2]"
  from tree(1) have t: "up h r m (L1 @ l # L2) (B1 @ B2) A" "distinct ((L1 @ l # L2) @ A)"
    "\<forall>l \<in> set (L1 @ l # L2). leaf_ok h l" by (auto simp: tree_at_def)
  have inside: "a < length h" if "a \<in> set ((L1 @ l # L2) @ A)" for a
    using that t(3) up_cells [OF t(1), of a] cell_less by (fastforce simp: leaf_ok_def)
  have cells: "cell ?h a = (if a = l then Some n1 else cell h a)" if "a \<in> set ((L1 @ l # L2) @ A)" for a
    using inside [OF that] inside [of l] by simp
  have "par ?h a = par h a" if "a \<in> set (L1 @ l # L2)" for a
    using cells [of a] that n by (cases "a = l") (auto simp: par_def simp del: cell_snoc cell_set)
  then have "up ?h r m (L1 @ l # L2) (B1 @ B2) A"
    using t(2) cells by (intro up_frame [OF t(1)]) (auto simp del: cell_snoc cell_set)
  moreover have "\<forall>a \<in> set (L1 @ l # length h # L2). cell ?h a \<noteq> None"
  proof
    fix a assume "a \<in> set (L1 @ l # length h # L2)"
    then consider "a = length h" | "a \<in> set (L1 @ l # L2)" by auto
    then show "cell ?h a \<noteq> None"
    proof cases
      case 2
      with t(3) have "cell h a \<noteq> None" by (auto simp: leaf_ok_def)
      with cells [of a] 2 show ?thesis by (auto simp del: cell_snoc cell_set)
    qed simp
  qed
  moreover have "length h \<notin> set ((L1 @ l # L2) @ A)" using inside by blast
  ultimately show ?thesis using tree(2) key t(2) by (simp add: pending_def)
qed

text \<open>Linking the two halves into the chain completes the split.\<close>

lemma leaf_linked:
  assumes tree: "tree_at e h r m (L1 @ l # L2) B A"
    and n1: "node_ok n1" "bn_nkeys n1 \<le> 7" "bn_next n1 = nxt h l" and n2: "node_ok n2" "bn_nkeys n2 \<le> 7"
    and h1: "h1 = bn_set h l n1 @ [Some n2]"
    and sorted: "cstrict (item_cmp (keycmp e)) (items (map (leaf_elems h) L1 @
      take (bn_nkeys n1) (bn_arr n1) # take (bn_nkeys n2) (bn_arr n2) # map (leaf_elems h) L2) B')"
    and up: "up h2 r' m' (L1 @ l # length h # L2) B' A'" "distinct ((L1 @ l # length h # L2) @ A')"
    and same: "\<forall>a \<in> set (L1 @ l # length h # L2). same_but_parent h1 h2 a"
    and cells: "cell h2 l = Some ln2" "cell h2 (length h) = Some rn2"
    and h3: "h3 = bn_set (bn_set h2 l (ln2\<lparr>bn_next := Some (length h)\<rparr>)) (length h) (rn2\<lparr>bn_next := bn_next ln2\<rparr>)"
  shows "tree_at e h3 r' m' (L1 @ l # length h # L2) B' A'"
    and "map (leaf_elems h3) (L1 @ l # length h # L2) = map (leaf_elems h) L1 @
      take (bn_nkeys n1) (bn_arr n1) # take (bn_nkeys n2) (bn_arr n2) # map (leaf_elems h) L2"
proof -
  let ?R = "length h" and ?L = "L1 @ l # length h # L2"
  from tree have t: "\<forall>l \<in> set (L1 @ l # L2). leaf_ok h l" "chained h (L1 @ l # L2) None"
    by (auto simp: tree_at_def)
  have less: "l < length h" using t(1) cell_less by (auto simp: leaf_ok_def)
  have ne: "l \<noteq> ?R" using less by simp
  have c1: "cell h1 l = Some n1" "cell h1 ?R = Some n2" using h1 less by auto
  obtain p1 p2 where p: "ln2 = n1\<lparr>bn_parent := p1\<rparr>" "rn2 = n2\<lparr>bn_parent := p2\<rparr>"
    using same cells c1 by (auto simp: same_but_parent_def)
  have c3: "cell h3 a = (if a = l then Some (n1\<lparr>bn_parent := p1, bn_next := Some ?R\<rparr>)
      else if a = ?R then Some (n2\<lparr>bn_parent := p2, bn_next := nxt h l\<rparr>) else cell h2 a)" for a
    using h3 cell_less [OF cells(1)] cell_less [OF cells(2)] p n1(3) ne by auto
  have other: "same_but_parent h h3 a" if "a \<in> set (L1 @ L2)" for a
  proof -
    from that up(2) have "a \<noteq> l" "a \<noteq> ?R" by auto
    moreover from this h1 have "cell h1 a = cell h a" by auto
    moreover have "same_but_parent h1 h2 a" using same that by auto
    ultimately show ?thesis using c3 by (simp add: same_but_parent_def)
  qed
  have "map (leaf_elems h3) L1 = map (leaf_elems h) L1" "map (leaf_elems h3) L2 = map (leaf_elems h) L2"
    using same_but_parentD(3) [OF other] by auto
  moreover have "leaf_elems h3 l = take (bn_nkeys n1) (bn_arr n1)" "leaf_elems h3 ?R = take (bn_nkeys n2) (bn_arr n2)"
    using c3 ne by (auto simp: leaf_elems_def)
  ultimately show elems: "map (leaf_elems h3) ?L = map (leaf_elems h) L1 @
      take (bn_nkeys n1) (bn_arr n1) # take (bn_nkeys n2) (bn_arr n2) # map (leaf_elems h) L2"
    by (simp only: map_append list.map)
  have "up h3 r' m' ?L B' A'"
    using up(2) c3 cells p by (intro up_frame [OF up(1)]) (auto simp: par_def)
  moreover have "leaf_ok h3 a" if "a \<in> set ?L" for a
  proof -
    from that consider "a \<in> set (L1 @ L2)" | "a = l" | "a = ?R" by auto
    then show ?thesis
    proof cases
      case 1
      with same_but_parent_leaf(2) [OF other] t(1) show ?thesis by auto
    qed (use c3 ne n1 n2 in \<open>auto simp: leaf_ok_def node_ok_def\<close>)
  qed
  moreover have "chained h3 ?L None"
  proof -
    have "\<forall>a \<in> set (L1 @ L2). nxt h3 a = nxt h a" using same_but_parent_leaf(1) [OF other] by blast
    then have "chained h3 L1 (Some l) = chained h L1 (Some l)" "chained h3 L2 None = chained h L2 None"
      by (auto intro!: chained_cong)
    moreover have "nxt h3 l = Some ?R" "nxt h3 ?R = nxt h l" using c3 ne by (auto simp: nxt_def)
    ultimately show ?thesis using t(2) by (simp add: chained_append)
  qed
  ultimately show "tree_at e h3 r' m' ?L B' A'"
    unfolding tree_at_def elems using up(2) sorted by blast
qed

lemma leaf_splits:
  assumes tree: "tree_at e h r m (L1 @ l # L2) (B1 @ B2) A" "length B1 = length L1"
    and n: "cell h l = Some n" "bn_parent n' = bn_parent n" "bn_next n' = bn_next n" "node_ok n'" "bn_nkeys n' = 8"
    and xs: "xs = take 8 (bn_arr n')"
    and sorted: "cstrict (item_cmp (keycmp e)) (items (map (leaf_elems h) L1 @ xs # map (leaf_elems h) L2) (B1 @ B2))"
    and bt: "bt_heap bt = bn_set h l n'" "bt_nlevel bt = Suc m" "bt_root bt = Some r"
  shows "succeeds (split_leaf e bt l) (\<lambda>bt'. bt_nkeys bt' = bt_nkeys bt \<and> (\<exists>L' B' A'. bt_tree e bt' L' B' A' \<and>
    map (leaf_elems (bt_heap bt')) L' = map (leaf_elems h) L1 @ take 4 xs # drop 4 xs # map (leaf_elems h) L2))"
proof -
  let ?z = "create_node e :: ('k, 'v) btnode" and ?key = "kvs_key (hd (drop 4 xs))"
  let ?n1 = "n'\<lparr>bn_nkeys := 4\<rparr>" and ?n2 = "?z\<lparr>bn_nkeys := 4, bn_arr := drop 4 xs @ drop 4 (bn_arr ?z)\<rparr>"
  let ?h1 = "bn_set h l ?n1 @ [Some ?n2]" and ?E1 = "map (leaf_elems h) L1" and ?E2 = "map (leaf_elems h) L2"
  note half = split_leaf_halves [OF n(4,5) xs]
  have z: "length (bn_arr ?z) = 8" "length (bn_kids ?z) = 8" using node_ok_create [of e] by (auto simp: node_ok_def)
  have len: "length L2 = length B2"
    using up_length [of h r m "L1 @ l # L2" "B1 @ B2" A] tree by (simp add: tree_at_def)
  have "cstrict (item_cmp (keycmp e)) (before ?E1 B1 @ map elem_item (take 4 xs @ drop 4 xs) @ after B2 ?E2)"
    using sorted tree(2) len by (simp add: items_split)
  moreover have "take 4 xs \<noteq> []" "drop 4 xs \<noteq> []" using half(1) by (auto simp flip: length_greater_0_conv)
  ultimately have "cstrict (item_cmp (keycmp e))
      (before ?E1 B1 @ map elem_item (take 4 xs) @ sep_item ?key # map elem_item (drop 4 xs) @ after B2 ?E2)"
    by (rule separator_fits [OF keycmp_comparator])
  then have sorted2: "cstrict (item_cmp (keycmp e)) (items (?E1 @ take 4 xs # drop 4 xs # ?E2) (B1 @ ?key # B2))"
    using tree(2) len by (subst items_split(2)) auto
  from items_sorted(1) [OF this] have "cstrict (keycmp e) (B1 @ ?key # B2)" using tree(2) len by simp
  from leaf_pending [OF tree n(1) _ this, of ?n1 ?n2] n(2)
  have pend: "pending e ?h1 r m L1 l (length h) L2 B1 B2 A ?key" by simp
  obtain bt2 where bt2: "btree_insert_index (Suc m) e (bt\<lparr>bt_heap := ?h1\<rparr>) ?key l (length h) = Inr bt2"
    and sp: "spliced 0 (bt\<lparr>bt_heap := ?h1\<rparr>) (L1 @ l # length h # L2) (B1 @ ?key # B2) A bt2"
    using btree_insert_index_ok [of "bt\<lparr>bt_heap := ?h1\<rparr>" r m L1 l "length h" L2 B1 B2 A ?key 0 "Suc m"] pend bt
    by (auto simp: succeeds_iff)
  from sp obtain r' m' A' where s: "bt_root bt2 = Some r'" "bt_nlevel bt2 = Suc m'" "bt_nkeys bt2 = bt_nkeys bt"
    "up (bt_heap bt2) r' m' (L1 @ l # length h # L2) (B1 @ ?key # B2) A'" "distinct ((L1 @ l # length h # L2) @ A')"
    "\<forall>a \<in> set (L1 @ l # length h # L2). same_but_parent ?h1 (bt_heap bt2) a"
    by (elim splicedE) simp
  then obtain ln2 rn2 where cells: "cell (bt_heap bt2) l = Some ln2" "cell (bt_heap bt2) (length h) = Some rn2"
    by (auto simp: same_but_parent_def)
  let ?h3 = "bn_set (bn_set (bt_heap bt2) l (ln2\<lparr>bn_next := Some (length h)\<rparr>)) (length h) (rn2\<lparr>bn_next := bn_next ln2\<rparr>)"
  have E: "take (bn_nkeys ?n1) (bn_arr ?n1) = take 4 xs" "take (bn_nkeys ?n2) (bn_arr ?n2) = drop 4 xs"
    using half by auto
  have ok: "node_ok ?n1" "bn_nkeys ?n1 \<le> 7" "bn_next ?n1 = nxt h l" "node_ok ?n2" "bn_nkeys ?n2 \<le> 7"
    using n half(1) z by (auto simp: node_ok_def nxt_def)
  note linked = leaf_linked [OF tree(1) ok refl, unfolded E, OF sorted2 s(4-6) cells refl]
  have "split_leaf e bt l = Inr (bt2\<lparr>bt_heap := ?h3\<rparr>)"
    using bt2 cells bt n(1,4,5) half cell_less [OF n(1)] hd_conv_nth [of "drop 4 xs"]
    by (simp add: split_leaf_def bt_order_def Let_def nth_append del: btree_insert_index.simps)
  moreover have heap: "bt_heap (bt2\<lparr>bt_heap := ?h3\<rparr>) = ?h3" by simp
  have "bt_tree e (bt2\<lparr>bt_heap := ?h3\<rparr>) (L1 @ l # length h # L2) (B1 @ ?key # B2) A'"
    using linked(1) s(1,2) by (simp add: bt_tree_def)
  moreover have "map (leaf_elems (bt_heap (bt2\<lparr>bt_heap := ?h3\<rparr>))) (L1 @ l # length h # L2) =
      ?E1 @ take 4 xs # drop 4 xs # ?E2" unfolding heap by (rule linked(2))
  moreover have "bt_nkeys (bt2\<lparr>bt_heap := ?h3\<rparr>) = bt_nkeys bt" using s(3) by simp
  ultimately show ?thesis by (simp only: succeeds_simps) blast
qed

text \<open>Rewriting one leaf, with the split when it has become full.\<close>

lemma leaf_update:
  assumes tree: "tree_at e h r m (L1 @ l # L2) (B1 @ B2) A" "length B1 = length L1"
    and n: "cell h l = Some n" "bn_parent n' = bn_parent n" "bn_next n' = bn_next n" "node_ok n'" "bn_nkeys n' \<le> 8"
    and xs: "xs = take (bn_nkeys n') (bn_arr n')"
    and sorted: "cstrict (item_cmp (keycmp e)) (items (map (leaf_elems h) L1 @ xs # map (leaf_elems h) L2) (B1 @ B2))"
    and bt: "bt_heap bt = bn_set h l n'" "bt_nlevel bt = Suc m" "bt_root bt = Some r"
    and ne: "xs \<noteq> []" "\<forall>a \<in> set (L1 @ L2). leaf_elems h a \<noteq> []"
    and nk: "bt_nkeys bt = length (concat (map (leaf_elems h) L1) @ xs @ concat (map (leaf_elems h) L2))"
  shows "succeeds (leaf_split_if_full e bt l (bn_nkeys n')) (\<lambda>bt'. bt_inv e bt' \<and>
    bt_elems bt' = concat (map (leaf_elems h) L1) @ xs @ concat (map (leaf_elems h) L2))"
proof -
  let ?xs = "concat (map (leaf_elems h) L1) @ xs @ concat (map (leaf_elems h) L2)"
  have inv: "bt_inv e bt' \<and> bt_elems bt' = ?xs"
    if "bt_tree e bt' L' B' A'" "bt_nkeys bt' = bt_nkeys bt" "map (leaf_elems (bt_heap bt')) L' = Es"
      "concat Es = ?xs" "\<forall>E \<in> set Es. E \<noteq> []" for bt' L' B' A' Es
  proof -
    have "bt_elems bt' = ?xs" using bt_tree_elems [OF that(1)] that(3,4) by simp
    moreover have "\<forall>l \<in> set L'. leaf_elems (bt_heap bt') l \<noteq> []" using that(3,5) by (metis image_eqI list.set_map)
    ultimately show ?thesis using that(1,2) nk by (auto simp: bt_inv_def)
  qed
  show ?thesis
  proof (cases "bn_nkeys n' = 8")
    case True
    have "succeeds (split_leaf e bt l) (\<lambda>bt'. bt_nkeys bt' = bt_nkeys bt \<and> (\<exists>L' B' A'. bt_tree e bt' L' B' A' \<and>
        map (leaf_elems (bt_heap bt')) L' = map (leaf_elems h) L1 @ take 4 xs # drop 4 xs # map (leaf_elems h) L2))"
      using True n xs by (intro leaf_splits [OF tree n(1-4) True _ sorted bt]) simp
    then have "succeeds (split_leaf e bt l) (\<lambda>bt'. bt_inv e bt' \<and> bt_elems bt' = ?xs)"
    proof (rule succeeds_mono, elim conjE exE)
      fix bt' L' B' A'
      assume a: "bt_nkeys bt' = bt_nkeys bt" "bt_tree e bt' L' B' A'"
        "map (leaf_elems (bt_heap bt')) L' = map (leaf_elems h) L1 @ take 4 xs # drop 4 xs # map (leaf_elems h) L2"
      have "length xs = 8" using True xs n(4) by (simp add: node_ok_def)
      then have "take 4 xs \<noteq> []" "drop 4 xs \<noteq> []" by (auto simp flip: length_greater_0_conv)
      with ne show "bt_inv e bt' \<and> bt_elems bt' = ?xs" by (intro inv [OF a(2,1,3)]) (auto dest!: sym [of "[]"])
    qed
    with True show ?thesis by (simp add: leaf_split_if_full_def bt_order_def)
  next
    case False
    note fits = leaf_fits [OF tree(1) n(1-4), folded xs, OF _ sorted]
    have t0: "bt_tree e bt (L1 @ l # L2) (B1 @ B2) A" using fits(1) bt False n(5) by (simp add: bt_tree_def)
    have t1: "map (leaf_elems (bt_heap bt)) (L1 @ l # L2) = map (leaf_elems h) L1 @ xs # map (leaf_elems h) L2"
      unfolding bt(1) by (rule fits(2)) (use False n(5) in simp)
    have t2: "\<forall>E \<in> set (map (leaf_elems h) L1 @ xs # map (leaf_elems h) L2). E \<noteq> []"
      using ne by (auto dest!: sym [of "[]"])
    have "bt_inv e bt \<and> bt_elems bt = ?xs" by (rule inv [OF t0 refl t1 _ t2]) simp
    with False show ?thesis by (simp add: leaf_split_if_full_def bt_order_def)
  qed
qed

lemma get_leaf_ok:
  assumes "bt_inv e bt"
  obtains l bt1 r m L1 L2 B1 B2 A n where "get_leaf e bt key = Inr (Some l, bt1)"
    "bt_nlevel bt1 = Suc m" "bt_root bt1 = Some r" "tree_at e (bt_heap bt1) r m (L1 @ l # L2) (B1 @ B2) A"
    "length B1 = length L1" "\<forall>b \<in> set B1. 0 \<le> keycmp e key b" "\<forall>b \<in> set B2. keycmp e key b < 0"
    "concat (map (leaf_elems (bt_heap bt1)) (L1 @ l # L2)) = bt_elems bt"
    "\<forall>a \<in> set (L1 @ L2). leaf_elems (bt_heap bt1) a \<noteq> []" "bt_nkeys bt1 = length (bt_elems bt)"
    "cell (bt_heap bt1) l = Some n" "node_ok n" "bn_nkeys n \<le> 7"
proof (cases "bt_nlevel bt = 0")
  case True
  let ?h = "bt_heap bt @ [Some (create_node e)]" and ?a = "length (bt_heap bt)"
  have z: "leaf_elems ?h ?a = []" "par ?h ?a = None" "nxt ?h ?a = None" "leaf_ok ?h ?a"
    by (simp_all add: leaf_elems_def par_def nxt_def leaf_ok_def create_node_def node_ok_def bt_order_def)
  then have "tree_at e ?h ?a 0 [?a] [] []" by (simp add: tree_at_def items_def)
  with True z show thesis
    by (intro that [of ?a "bt\<lparr>bt_heap := ?h, bt_root := Some ?a, bt_nlevel := 1, bt_nkeys := 0\<rparr>" 0 ?a "[]" "[]" "[]" "[]" "[]" "create_node e"])
      (simp_all add: get_leaf_def Let_def bt_elems_def create_node_def node_ok_def bt_order_def)
next
  case False
  with assms obtain L B A where t: "bt_tree e bt L B A" "\<forall>l \<in> set L. leaf_elems (bt_heap bt) l \<noteq> []"
    by (auto simp: bt_inv_def)
  then obtain r m where m: "bt_nlevel bt = Suc m" "bt_root bt = Some r" "tree_at e (bt_heap bt) r m L B A"
    by (auto simp: bt_tree_def)
  then have up: "up (bt_heap bt) r m L B A" "\<forall>l \<in> set L. leaf_ok (bt_heap bt) l"
    and sorted: "cstrict (item_cmp (keycmp e)) (items (map (leaf_elems (bt_heap bt)) L) B)"
    by (auto simp: tree_at_def)
  have "cstrict (keycmp e) B" using items_sorted(1) [OF sorted] up_length [OF up(1)] by simp
  from descend_located [OF up(1) this, of key] obtain l where
    "descend e (bt_heap bt) key m (Some r) = Inr (Some l)" "located (keycmp e) key L B l" by blast
  moreover from this obtain L1 L2 B1 B2 where L: "L = L1 @ l # L2" "B = B1 @ B2" "length B1 = length L1"
    "\<forall>b \<in> set B1. 0 \<le> keycmp e key b" "\<forall>b \<in> set B2. keycmp e key b < 0" by (auto simp: located_def)
  moreover from up(2) L obtain n where "cell (bt_heap bt) l = Some n" "node_ok n" "bn_nkeys n \<le> 7"
    by (auto simp: leaf_ok_def)
  ultimately show thesis
    using m t(2) bt_tree_elems [OF t(1)] assms
    by (intro that [of l bt m r L1 L2 B1 B2 A n]) (simp_all add: get_leaf_def bt_inv_def)
qed

text \<open>What surrounds the leaf a key belongs to.\<close>


lemma around_leaf:
  assumes tree: "tree_at e h r m (L1 @ l # L2) (B1 @ B2) A" "length B1 = length L1"
    and bnd: "\<forall>b \<in> set B1. 0 \<le> keycmp e key b" "\<forall>b \<in> set B2. keycmp e key b < 0"
  shows "length L2 = length B2" "cstrict (keyvals_cmp e) (leaf_elems h l)"
    and "\<forall>x \<in> set (concat (map (leaf_elems h) L1)). 0 < keycmp e key (kvs_key x)"
    and "\<forall>x \<in> set (concat (map (leaf_elems h) L2)). keycmp e key (kvs_key x) < 0"
    and "\<forall>y \<in> set (before (map (leaf_elems h) L1) B1). item_cmp (keycmp e) y (key, False) < 0"
    and "\<forall>y \<in> set (after B2 (map (leaf_elems h) L2)). item_cmp (keycmp e) (key, False) y < 0"
    and "cstrict (item_cmp (keycmp e)) (before (map (leaf_elems h) L1) B1 @ map elem_item (leaf_elems h l) @
      after B2 (map (leaf_elems h) L2))"
proof -
  let ?E1 = "map (leaf_elems h) L1" and ?E2 = "map (leaf_elems h) L2"
  show len: "length L2 = length B2"
    using up_length [of h r m "L1 @ l # L2" "B1 @ B2" A] tree by (simp add: tree_at_def)
  have it: "cstrict (item_cmp (keycmp e)) (items (?E1 @ leaf_elems h l # ?E2) (B1 @ B2))"
    using tree(1) by (simp add: tree_at_def)
  then show sorted: "cstrict (item_cmp (keycmp e)) (before ?E1 B1 @ map elem_item (leaf_elems h l) @ after B2 ?E2)"
    using tree(2) len by (simp add: items_split)
  show "cstrict (keyvals_cmp e) (leaf_elems h l)"
    using items_sorted(2) [OF it] tree(2) len by (simp add: cstrict_append)
  show b: "\<forall>y \<in> set (before ?E1 B1). item_cmp (keycmp e) y (key, False) < 0"
    and a: "\<forall>y \<in> set (after B2 ?E2). item_cmp (keycmp e) (key, False) y < 0"
    using located_items [OF sorted _ _ bnd] tree(2) len by simp_all
  show "\<forall>x \<in> set (concat ?E1). 0 < keycmp e key (kvs_key x)"
  proof
    fix x assume "x \<in> set (concat ?E1)"
    then have "item_cmp (keycmp e) (elem_item x) (key, False) < 0" using set_before [of ?E1 B1 x] tree(2) b by simp
    then show "0 < keycmp e key (kvs_key x)"
      by (auto simp: item_cmp_def elem_item_def kc.cmp_sym' split: if_splits)
  qed
  show "\<forall>x \<in> set (concat ?E2). keycmp e key (kvs_key x) < 0"
  proof
    fix x assume "x \<in> set (concat ?E2)"
    then have "item_cmp (keycmp e) (key, False) (elem_item x) < 0" using set_after [of B2 ?E2 x] len a by simp
    then show "keycmp e key (kvs_key x) < 0" by (auto simp: item_cmp_def elem_item_def split: if_splits)
  qed
qed

lemma item_equiv:
  assumes "keycmp e k k' = 0"
  shows "item_cmp (keycmp e) y (k, s) < 0 \<longleftrightarrow> item_cmp (keycmp e) y (k', s) < 0"
    and "item_cmp (keycmp e) (k, s) y < 0 \<longleftrightarrow> item_cmp (keycmp e) (k', s) y < 0"
proof -
  note ic = item_comparator [OF keycmp_comparator]
  have "item_cmp (keycmp e) (k, s) (k', s) = 0" "item_cmp (keycmp e) (k', s) (k, s) = 0"
    using assms kc.cmp_eq_sym by (auto simp: item_cmp_def)
  then show "item_cmp (keycmp e) y (k, s) < 0 \<longleftrightarrow> item_cmp (keycmp e) y (k', s) < 0"
    "item_cmp (keycmp e) (k, s) y < 0 \<longleftrightarrow> item_cmp (keycmp e) (k', s) y < 0"
    using comparator.cmp_less_le_trans [OF ic] comparator.cmp_le_less_trans [OF ic] by (metis order_refl)+
qed

lemma insert_item_sorted:
  assumes "cstrict (item_cmp (keycmp e)) (xs @ map elem_item E @ ys)"
    and "\<forall>y \<in> set xs. item_cmp (keycmp e) y (key, False) < 0" "\<forall>y \<in> set ys. item_cmp (keycmp e) (key, False) y < 0"
    and "\<forall>x \<in> set (take i E). 0 < keycmp e key (kvs_key x)" "\<forall>x \<in> set (drop i E). keycmp e key (kvs_key x) < 0"
    and "keycmp e (kvs_key z) key = 0"
  shows "cstrict (item_cmp (keycmp e)) (xs @ map elem_item (take i E @ z # drop i E) @ ys)"
proof -
  let ?c = "item_cmp (keycmp e)"
  have z: "elem_item z = (kvs_key z, False)" by (simp add: elem_item_def)
  have 1: "?c y (elem_item z) < 0" if "y \<in> set (xs @ map elem_item (take i E))" for y
  proof -
    have "?c y (key, False) < 0"
      using that assms(2,4) by (auto simp: item_cmp_def elem_item_def kc.cmp_sym')
    then show ?thesis unfolding z by (simp add: item_equiv(1) [OF assms(6)])
  qed
  have 2: "?c (elem_item z) y < 0" if "y \<in> set (map elem_item (drop i E) @ ys)" for y
  proof -
    have "?c (key, False) y < 0" using that assms(3,5) by (auto simp: item_cmp_def elem_item_def)
    then show ?thesis unfolding z by (simp add: item_equiv(2) [OF assms(6)])
  qed
  have "cstrict ?c ((xs @ map elem_item (take i E)) @ map elem_item (drop i E) @ ys)"
    using assms(1) append_take_drop_id [of i "map elem_item E"]
    by (simp add: take_map drop_map del: append_take_drop_id) (metis append.assoc)
  then have "cstrict ?c ((xs @ map elem_item (take i E)) @ elem_item z # map elem_item (drop i E) @ ys)"
    using 1 2 by (intro cstrict_insert) blast+
  then show ?thesis by simp
qed

end

text \<open>The slot of a new key: whatever the slot held before, inserting a value starts afresh.\<close>

lemma values_insert_stale:
  assumes "kvs_len s = 0" "kvs_alloc_len s = 0"
  shows "values_insert e s v = values_insert e (fresh_kvs (kvs_key s) (kvs_hash s)) v"
  using assms by (cases s) (auto simp: values_insert_def fresh_kvs_def kvs_put_def Let_def split: option.splits)

lemma insert_key_ok:
  assumes "node_ok n" "bn_nkeys n \<le> 7" "pos \<le> bn_nkeys n"
  shows "\<exists>n'. insert_key e n key pos keylen = Inr n' \<and> bn_nkeys n' = bn_nkeys n + 1 \<and> node_ok n' \<and>
    bn_parent n' = bn_parent n \<and> bn_next n' = bn_next n \<and> bn_kids n' = bn_kids n \<and> pos < length (bn_arr n') \<and>
    kvs_key (bn_arr n' ! pos) = copy_key e key keylen \<and> kvs_len (bn_arr n' ! pos) = 0 \<and>
    kvs_alloc_len (bn_arr n' ! pos) = 0 \<and>
    (\<forall>s. take (bn_nkeys n + 1) ((bn_arr n')[pos := s]) =
       take pos (take (bn_nkeys n) (bn_arr n)) @ s # drop pos (take (bn_nkeys n) (bn_arr n)))"
proof -
  let ?a = "bn_arr n" and ?k = "bn_nkeys n"
  define moved where "moved = (if pos < ?k then take (pos + 1) ?a @ take (?k - pos) (drop pos ?a) @ drop (?k + 1) ?a else ?a)"
  have len: "length ?a = 8" "length moved = 8" using assms by (auto simp: node_ok_def moved_def)
  have eq: "insert_key e n key pos keylen = Inr (n\<lparr>bn_nkeys := ?k + 1,
      bn_arr := moved[pos := (moved ! pos)\<lparr>kvs_key := copy_key e key keylen, kvs_alloc_len := 0, kvs_len := 0\<rparr>]\<rparr>)"
    using assms len by (simp add: insert_key_def Let_def moved_def)
  have "take (?k + 1) (moved[pos := s]) = take pos (take ?k ?a) @ s # drop pos (take ?k ?a)" for s
  proof (cases "pos < ?k")
    case True
    then have "moved[pos := s] = take pos ?a @ s # take (?k - pos) (drop pos ?a) @ drop (?k + 1) ?a"
      using len True assms(2) by (simp add: moved_def take_Suc_conv_app_nth list_update_append min_def)
    then show ?thesis using True len assms by (simp add: min_def drop_take Suc_diff_le)
  next
    case False
    then show ?thesis
      using assms len by (simp add: moved_def take_Suc_conv_app_nth min_def)
  qed
  with eq len assms show ?thesis by (simp add: node_ok_def)
qed

section \<open>Insertion agrees with the linear scan\<close>

context mr_env
begin

lemma bt_insert_hit:
  assumes tree: "tree_at e h r m (L1 @ l # L2) (B1 @ B2) A" "length B1 = length L1"
    and bt: "bt_heap bt = h" "bt_nlevel bt = Suc m" "bt_root bt = Some r"
      "bt_nkeys bt = length (concat (map (leaf_elems h) (L1 @ l # L2)))"
    and ne: "\<forall>a \<in> set (L1 @ L2). leaf_elems h a \<noteq> []"
    and n: "cell h l = Some n" "node_ok n" "bn_nkeys n \<le> 7"
    and i: "i < bn_nkeys n" "kvs_key x = kvs_key (bn_arr n ! i)"
  shows "succeeds (leaf_split_if_full e (bt\<lparr>bt_heap := bn_set h l (n\<lparr>bn_arr := (bn_arr n)[i := x]\<rparr>)\<rparr>) l (bn_nkeys n))
    (\<lambda>bt'. bt_inv e bt' \<and> bt_elems bt' = concat (map (leaf_elems h) L1) @
       (leaf_elems h l)[i := x] @ concat (map (leaf_elems h) L2))"
proof -
  let ?n = "n\<lparr>bn_arr := (bn_arr n)[i := x]\<rparr>" and ?E = "leaf_elems h l"
  have E: "?E = take (bn_nkeys n) (bn_arr n)" using n(1) by (simp add: leaf_elems_def)
  then have xs: "?E[i := x] = take (bn_nkeys ?n) (bn_arr ?n)" by (simp add: take_update_swap)
  have "map elem_item (?E[i := x]) = map elem_item ?E"
    using i n(2,3) E by (simp add: map_update elem_item_def list_update_same_conv node_ok_def)
  moreover have len: "length L2 = length B2"
    using up_length [of h r m "L1 @ l # L2" "B1 @ B2" A] tree by (simp add: tree_at_def)
  ultimately have "cstrict (item_cmp (keycmp e)) (items (map (leaf_elems h) L1 @ ?E[i := x] # map (leaf_elems h) L2) (B1 @ B2))"
    using tree by (simp add: tree_at_def items_split)
  moreover have "?E[i := x] \<noteq> []" "node_ok ?n" using i n E by (auto simp: node_ok_def simp flip: length_greater_0_conv)
  ultimately show ?thesis
    using leaf_update [OF tree n(1) _ _ _ _ xs, of "bt\<lparr>bt_heap := bn_set h l ?n\<rparr>"] n(3) bt ne by simp
qed

lemma bt_insert_miss:
  assumes tree: "tree_at e h r m (L1 @ l # L2) (B1 @ B2) A" "length B1 = length L1"
    and bnd: "\<forall>b \<in> set B1. 0 \<le> keycmp e key b" "\<forall>b \<in> set B2. keycmp e key b < 0"
    and bt: "bt_nlevel bt = Suc m" "bt_root bt = Some r"
      "bt_nkeys bt = length (concat (map (leaf_elems h) (L1 @ l # L2))) + 1"
    and ne: "\<forall>a \<in> set (L1 @ L2). leaf_elems h a \<noteq> []"
    and n: "cell h l = Some n" "node_ok n" "bn_nkeys n \<le> 7"
    and i: "i \<le> bn_nkeys n" "\<forall>x \<in> set (take i (leaf_elems h l)). 0 < keycmp e key (kvs_key x)"
      "\<forall>x \<in> set (drop i (leaf_elems h l)). keycmp e key (kvs_key x) < 0" "keycmp e (kvs_key x) key = 0"
    and n': "bn_parent n' = bn_parent n" "bn_next n' = bn_next n" "node_ok n'" "bn_nkeys n' = bn_nkeys n + 1"
      "take (bn_nkeys n + 1) (bn_arr n') = take i (leaf_elems h l) @ x # drop i (leaf_elems h l)"
  shows "succeeds (leaf_split_if_full e (bt\<lparr>bt_heap := bn_set h l n'\<rparr>) l (bn_nkeys n'))
    (\<lambda>bt'. bt_inv e bt' \<and> bt_elems bt' = concat (map (leaf_elems h) L1) @
       (take i (leaf_elems h l) @ x # drop i (leaf_elems h l)) @ concat (map (leaf_elems h) L2))"
proof -
  note a = around_leaf [OF tree bnd]
  let ?xs = "take i (leaf_elems h l) @ x # drop i (leaf_elems h l)"
  have xs: "?xs = take (bn_nkeys n') (bn_arr n')" using n'(4,5) by simp
  from insert_item_sorted [OF a(7,5,6) i(2,3,4)]
  have "cstrict (item_cmp (keycmp e)) (items (map (leaf_elems h) L1 @ ?xs # map (leaf_elems h) L2) (B1 @ B2))"
    using tree(2) a(1) by (simp add: items_split)
  from leaf_update [OF tree n(1) n'(1-3) _ xs this, of "bt\<lparr>bt_heap := bn_set h l n'\<rparr>"] n n' bt ne i
  show ?thesis by (simp add: leaf_elems_def)
qed

text \<open>The leaf a key belongs to, and the position the search finds there.\<close>

lemma bt_locate:
  assumes inv: "bt_inv e bt"
  obtains l bt1 r m L1 L2 B1 B2 A n i f where "get_leaf e bt (kvs_key k) = Inr (Some l, bt1)"
    "bt_nlevel bt1 = Suc m" "bt_root bt1 = Some r" "tree_at e (bt_heap bt1) r m (L1 @ l # L2) (B1 @ B2) A"
    "length B1 = length L1" "\<forall>b \<in> set B1. 0 \<le> keycmp e (kvs_key k) b" "\<forall>b \<in> set B2. keycmp e (kvs_key k) b < 0"
    "bt_elems bt = concat (map (leaf_elems (bt_heap bt1)) L1) @ take i (leaf_elems (bt_heap bt1) l) @
       drop i (leaf_elems (bt_heap bt1) l) @ concat (map (leaf_elems (bt_heap bt1)) L2)"
    "\<forall>a \<in> set (L1 @ L2). leaf_elems (bt_heap bt1) a \<noteq> []"
    "bt_nkeys bt1 = length (concat (map (leaf_elems (bt_heap bt1)) (L1 @ l # L2)))"
    "length (bt_elems bt) = bt_nkeys bt1"
    "cell (bt_heap bt1) l = Some n" "node_ok n" "bn_nkeys n \<le> 7"
    "bsearch_eq (keyvals_cmp e) k (bn_arr n) 0 (int (bn_nkeys n)) = Inr (int i, f)" "i \<le> bn_nkeys n"
    "\<forall>x \<in> set (concat (map (leaf_elems (bt_heap bt1)) L1) @ take i (leaf_elems (bt_heap bt1) l)).
       0 < keycmp e (kvs_key k) (kvs_key x)"
    "f \<longrightarrow> i < bn_nkeys n \<and> keycmp e (kvs_key k) (kvs_key (bn_arr n ! i)) = 0"
    "\<not> f \<longrightarrow> (\<forall>x \<in> set (drop i (leaf_elems (bt_heap bt1) l) @ concat (map (leaf_elems (bt_heap bt1)) L2)).
       keycmp e (kvs_key k) (kvs_key x) < 0)"
proof -
  obtain l bt1 r m L1 L2 B1 B2 A n where g: "get_leaf e bt (kvs_key k) = Inr (Some l, bt1)"
    "bt_nlevel bt1 = Suc m" "bt_root bt1 = Some r" and tree: "tree_at e (bt_heap bt1) r m (L1 @ l # L2) (B1 @ B2) A"
    "length B1 = length L1" and bnd: "\<forall>b \<in> set B1. 0 \<le> keycmp e (kvs_key k) b" "\<forall>b \<in> set B2. keycmp e (kvs_key k) b < 0"
    and el: "concat (map (leaf_elems (bt_heap bt1)) (L1 @ l # L2)) = bt_elems bt"
    and ne: "\<forall>a \<in> set (L1 @ L2). leaf_elems (bt_heap bt1) a \<noteq> []" and nk: "bt_nkeys bt1 = length (bt_elems bt)"
    and n: "cell (bt_heap bt1) l = Some n" "node_ok n" "bn_nkeys n \<le> 7"
    by (rule get_leaf_ok [OF inv])
  let ?h = "bt_heap bt1"
  let ?E = "leaf_elems ?h l" and ?pre = "concat (map (leaf_elems ?h) L1)" and ?post = "concat (map (leaf_elems ?h) L2)"
  have E: "?E = take (bn_nkeys n) (bn_arr n)" using n by (simp add: leaf_elems_def)
  note a = around_leaf [OF tree bnd]
  have "bn_nkeys n \<le> length (bn_arr n)" using n by (simp add: node_ok_def)
  from search_strict [OF keyvals_comparator this E a(2), of k]
  obtain p f where search: "bsearch_eq (keyvals_cmp e) k (bn_arr n) 0 (int (bn_nkeys n)) = Inr (p, f)" "0 \<le> p"
    and post: "if f then nat p < bn_nkeys n \<and> keyvals_cmp e k (?E ! nat p) = 0 \<and>
        (\<forall>x \<in> set (take (nat p) ?E). 0 < keyvals_cmp e k x)
      else nat p \<le> bn_nkeys n \<and> (\<forall>x \<in> set (take (nat p) ?E). 0 < keyvals_cmp e k x) \<and>
        (\<forall>x \<in> set (drop (nat p) ?E). keyvals_cmp e k x < 0)"
    by (auto elim!: succeedsE)
  have "bt_elems bt = ?pre @ (take (nat p) ?E @ drop (nat p) ?E) @ ?post" using el by simp
  then have split: "bt_elems bt = ?pre @ take (nat p) ?E @ drop (nat p) ?E @ ?post" by (simp only: append.assoc)
  have nk': "bt_nkeys bt1 = length (concat (map (leaf_elems ?h) (L1 @ l # L2)))" by (simp only: el nk)
  show thesis
  proof (rule that [OF g tree bnd split ne nk' nk [symmetric] n])
    show "bsearch_eq (keyvals_cmp e) k (bn_arr n) 0 (int (bn_nkeys n)) = Inr (int (nat p), f)" using search by simp
    show "nat p \<le> bn_nkeys n" using post by (simp split: if_splits)
    show "\<forall>x \<in> set (?pre @ take (nat p) ?E). 0 < keycmp e (kvs_key k) (kvs_key x)"
      using a(3) post by (cases f) (auto simp: keyvals_cmp_def)
    show "f \<longrightarrow> nat p < bn_nkeys n \<and> keycmp e (kvs_key k) (kvs_key (bn_arr n ! nat p)) = 0"
      using post E by (auto simp: keyvals_cmp_def)
    show "\<not> f \<longrightarrow> (\<forall>x \<in> set (drop (nat p) ?E @ ?post). keycmp e (kvs_key k) (kvs_key x) < 0)"
      using a(4) post by (auto simp: keyvals_cmp_def)
  qed
qed

lemma bt_insert_kv_refines:
  assumes inv: "bt_inv e bt" "length (bt_elems bt) < 2 ^ 31"
    and ins: "list_ins e key v keylen hash (bt_elems bt) = Inr (ys, b)" and copy: "keycopy_ok e key keylen"
  shows "succeeds (bt_insert_kv e bt key v keylen hash) (\<lambda>(bt', b'). bt_inv e bt' \<and> bt_elems bt' = ys \<and> b' = b)"
proof (rule bt_locate [OF inv(1), of "fresh_kvs key 0", unfolded kvs_ok_fresh(3)])
  fix l :: addr and bt1 :: "('k, 'v) btree" and r m L1 L2 B1 B2 A and n :: "('k, 'v) btnode" and i f
  let ?h = "bt_heap bt1"
  let ?E = "leaf_elems ?h l" and ?pre = "concat (map (leaf_elems ?h) L1)" and ?post = "concat (map (leaf_elems ?h) L2)"
  assume g: "get_leaf e bt key = Inr (Some l, bt1)" "bt_nlevel bt1 = Suc m" "bt_root bt1 = Some r"
    and tree: "tree_at e ?h r m (L1 @ l # L2) (B1 @ B2) A" "length B1 = length L1"
    and bnd: "\<forall>b \<in> set B1. 0 \<le> keycmp e key b" "\<forall>b \<in> set B2. keycmp e key b < 0"
    and split: "bt_elems bt = ?pre @ take i ?E @ drop i ?E @ ?post"
    and ne: "\<forall>a \<in> set (L1 @ L2). leaf_elems ?h a \<noteq> []"
    and nk: "bt_nkeys bt1 = length (concat (map (leaf_elems ?h) (L1 @ l # L2)))" "length (bt_elems bt) = bt_nkeys bt1"
    and n: "cell ?h l = Some n" "node_ok n" "bn_nkeys n \<le> 7"
    and search: "bsearch_eq (keyvals_cmp e) (fresh_kvs key 0) (bn_arr n) 0 (int (bn_nkeys n)) = Inr (int i, f)"
    and i: "i \<le> bn_nkeys n"
    and lt: "\<forall>x \<in> set (?pre @ take i ?E). 0 < keycmp e key (kvs_key x)"
    and hit: "f \<longrightarrow> i < bn_nkeys n \<and> keycmp e key (kvs_key (bn_arr n ! i)) = 0"
    and miss: "\<not> f \<longrightarrow> (\<forall>x \<in> set (drop i ?E @ ?post). keycmp e key (kvs_key x) < 0)"
  have E: "?E = take (bn_nkeys n) (bn_arr n)" "length ?E = bn_nkeys n" "length (bn_arr n) = 8"
    using n by (auto simp: leaf_elems_def node_ok_def)
  show ?thesis
  proof (cases f)
    case True
    with hit have i: "i < bn_nkeys n" "keycmp e key (kvs_key (bn_arr n ! i)) = 0" by auto
    have "drop i ?E = bn_arr n ! i # drop (Suc i) ?E" using i(1) E by (simp add: Cons_nth_drop_Suc [symmetric])
    with split have "bt_elems bt = (?pre @ take i ?E) @ bn_arr n ! i # drop (Suc i) ?E @ ?post" by simp
    from ins [unfolded this list_ins_hit [OF lt i(2)]] obtain x where
      x: "values_insert e (bn_arr n ! i) v = Inr x" "ys = ?pre @ ?E[i := x] @ ?post" "\<not> b"
      using i(1) E(2) by (auto simp: upd_conv_take_nth_drop)
    have "succeeds (leaf_split_if_full e (bt1\<lparr>bt_nkeys := bt_nkeys bt1, bt_heap := bn_set ?h l (n\<lparr>bn_arr := (bn_arr n)[i := x]\<rparr>)\<rparr>) l (bn_nkeys n))
        (\<lambda>bt'. bt_inv e bt' \<and> bt_elems bt' = ys)"
      unfolding x(2) by (rule bt_insert_hit [OF tree _ _ _ _ ne n i(1)])
        (use g nk(1) values_insert_key [OF x(1)] in simp_all)
    with g(1) n(1,3) search i(1) E(3) x(1,3) True show ?thesis by (auto simp: bt_insert_kv_def elim!: succeeds_mono)
  next
    case False
    with miss have gt: "\<forall>x \<in> set (drop i ?E @ ?post). keycmp e key (kvs_key x) < 0" by simp
    let ?f = "fresh_kvs (copy_key e key keylen) hash"
    have "bt_elems bt = (?pre @ take i ?E) @ drop i ?E @ ?post" using split by (simp only: append.assoc)
    from ins [unfolded this list_ins_miss [OF lt gt]]
    obtain x where x: "values_insert e ?f v = Inr x" "ys = ?pre @ (take i ?E @ x # drop i ?E) @ ?post" "b" by auto
    obtain l1 where l1: "insert_key e n key i keylen = Inr l1" "bn_nkeys l1 = bn_nkeys n + 1" "node_ok l1"
      "bn_parent l1 = bn_parent n" "bn_next l1 = bn_next n" "i < length (bn_arr l1)"
      "kvs_key (bn_arr l1 ! i) = copy_key e key keylen" "kvs_len (bn_arr l1 ! i) = 0" "kvs_alloc_len (bn_arr l1 ! i) = 0"
      "\<And>s. take (bn_nkeys n + 1) ((bn_arr l1)[i := s]) = take i ?E @ s # drop i ?E"
      using insert_key_ok [OF n(2,3) i, of e key keylen] unfolding E(1) by blast
    have slot: "values_insert e ((bn_arr l1 ! i)\<lparr>kvs_hash := hash\<rparr>) v = Inr x"
      using values_insert_stale [of "(bn_arr l1 ! i)\<lparr>kvs_hash := hash\<rparr>" e v] l1(7-9) x(1) by simp
    have "succeeds (leaf_split_if_full e (bt1\<lparr>bt_nkeys := bt_nkeys bt1 + 1, bt_heap := bn_set ?h l
          (l1\<lparr>bn_arr := (bn_arr l1)[i := x]\<rparr>)\<rparr>) l (bn_nkeys (l1\<lparr>bn_arr := (bn_arr l1)[i := x]\<rparr>)))
        (\<lambda>bt'. bt_inv e bt' \<and> bt_elems bt' = ys)"
      unfolding x(2) by (rule bt_insert_miss [OF tree bnd _ _ _ ne n i])
        (use g nk(1) l1 lt gt values_insert_key [OF x(1)] copy_key_cmp [OF copy] in \<open>simp_all add: node_ok_def\<close>)
    moreover have "u64 (bt_nkeys bt1 + 1) = bt_nkeys bt1 + 1" using inv(2) nk(2) by simp
    ultimately show ?thesis
      using g(1) n(1) search l1(1,2,6) slot x(3) False by (auto simp: bt_insert_kv_def elim!: succeeds_mono)
  qed
qed

lemma bt_insert_kvs_refines:
  assumes inv: "bt_inv e bt" "length (bt_elems bt) < 2 ^ 31" and ins: "list_ins_kvs e k (bt_elems bt) = Inr ys"
  shows "succeeds (bt_insert_kvs e bt k) (\<lambda>bt'. bt_inv e bt' \<and> bt_elems bt' = ys)"
proof (rule bt_locate [OF inv(1), of k])
  fix l :: addr and bt1 :: "('k, 'v) btree" and r m L1 L2 B1 B2 A and n :: "('k, 'v) btnode" and i f
  let ?h = "bt_heap bt1"
  let ?E = "leaf_elems ?h l" and ?pre = "concat (map (leaf_elems ?h) L1)" and ?post = "concat (map (leaf_elems ?h) L2)"
  assume g: "get_leaf e bt (kvs_key k) = Inr (Some l, bt1)" "bt_nlevel bt1 = Suc m" "bt_root bt1 = Some r"
    and tree: "tree_at e ?h r m (L1 @ l # L2) (B1 @ B2) A" "length B1 = length L1"
    and bnd: "\<forall>b \<in> set B1. 0 \<le> keycmp e (kvs_key k) b" "\<forall>b \<in> set B2. keycmp e (kvs_key k) b < 0"
    and split: "bt_elems bt = ?pre @ take i ?E @ drop i ?E @ ?post"
    and ne: "\<forall>a \<in> set (L1 @ L2). leaf_elems ?h a \<noteq> []"
    and nk: "bt_nkeys bt1 = length (concat (map (leaf_elems ?h) (L1 @ l # L2)))" "length (bt_elems bt) = bt_nkeys bt1"
    and n: "cell ?h l = Some n" "node_ok n" "bn_nkeys n \<le> 7"
    and search: "bsearch_eq (keyvals_cmp e) k (bn_arr n) 0 (int (bn_nkeys n)) = Inr (int i, f)"
    and i: "i \<le> bn_nkeys n"
    and lt: "\<forall>x \<in> set (?pre @ take i ?E). 0 < keycmp e (kvs_key k) (kvs_key x)"
    and hit: "f \<longrightarrow> i < bn_nkeys n \<and> keycmp e (kvs_key k) (kvs_key (bn_arr n ! i)) = 0"
    and miss: "\<not> f \<longrightarrow> (\<forall>x \<in> set (drop i ?E @ ?post). keycmp e (kvs_key k) (kvs_key x) < 0)"
  have E: "?E = take (bn_nkeys n) (bn_arr n)" "length ?E = bn_nkeys n" "length (bn_arr n) = 8"
    using n by (auto simp: leaf_elems_def node_ok_def)
  have eq: "bt_elems bt = (?pre @ take i ?E) @ drop i ?E @ ?post" using split by (simp only: append.assoc)
  have f: "\<not> f"
  proof
    assume f
    then have "drop i ?E = bn_arr n ! i # drop (Suc i) ?E" "keyvals_cmp e k (bn_arr n ! i) = 0"
      using hit E by (simp_all add: Cons_nth_drop_Suc [symmetric] keyvals_cmp_def)
    with ins eq list_ins_kvs_hit [of "?pre @ take i ?E" e k "bn_arr n ! i"] lt show False by (simp add: keyvals_cmp_def)
  qed
  with miss have gt: "\<forall>x \<in> set (drop i ?E @ ?post). keycmp e (kvs_key k) (kvs_key x) < 0" by simp
  have ys: "ys = ?pre @ (take i ?E @ k # drop i ?E) @ ?post"
    using ins list_ins_kvs_miss [of "?pre @ take i ?E" e k "drop i ?E @ ?post"] lt gt unfolding eq keyvals_cmp_def by simp
  obtain l1 where l1: "insert_key e n (kvs_key k) i 0 = Inr l1" "bn_nkeys l1 = bn_nkeys n + 1" "node_ok l1"
    "bn_parent l1 = bn_parent n" "bn_next l1 = bn_next n" "i < length (bn_arr l1)"
    "\<And>s. take (bn_nkeys n + 1) ((bn_arr l1)[i := s]) = take i ?E @ s # drop i ?E"
    using insert_key_ok [OF n(2,3) i, of e "kvs_key k" 0] unfolding E(1) by blast
  have "succeeds (leaf_split_if_full e (bt1\<lparr>bt_nkeys := bt_nkeys bt1 + 1, bt_heap := bn_set ?h l
        (l1\<lparr>bn_arr := (bn_arr l1)[i := k]\<rparr>)\<rparr>) l (bn_nkeys (l1\<lparr>bn_arr := (bn_arr l1)[i := k]\<rparr>)))
      (\<lambda>bt'. bt_inv e bt' \<and> bt_elems bt' = ys)"
    unfolding ys by (rule bt_insert_miss [OF tree bnd _ _ _ ne n i])
      (use g nk(1) l1 lt gt in \<open>simp_all add: node_ok_def\<close>)
  moreover have "u64 (bt_nkeys bt1 + 1) = bt_nkeys bt1 + 1" using inv(2) nk(2) by simp
  ultimately show ?thesis using g(1) n(1) search l1(1,2,6) f by (simp add: bt_insert_kvs_def)
qed

end

section \<open>Walking the leaves\<close>

fun follow :: "nat \<Rightarrow> ('k, 'v) bheap \<Rightarrow> addr option \<Rightarrow> addr list" where
  "follow 0 h p = []"
| "follow (Suc n) h None = []"
| "follow (Suc n) h (Some a) = a # follow n h (nxt h a)"

definition bt_rest :: "('k, 'v) btree \<Rightarrow> bt_iter \<Rightarrow> ('k, 'v) keyvals list" where
  "bt_rest bt it = (case it of (i, p) \<Rightarrow>
     (case p of None \<Rightarrow> [] | Some a \<Rightarrow> drop i (leaf_elems (bt_heap bt) a) @
        concat (map (leaf_elems (bt_heap bt)) (follow (length (bt_heap bt)) (bt_heap bt) (nxt (bt_heap bt) a)))))"

definition leaf_run :: "('k, 'v) bheap \<Rightarrow> addr list \<Rightarrow> bool" where
  "leaf_run h L \<longleftrightarrow> chained h L None \<and> distinct L \<and> (\<forall>l \<in> set L. leaf_ok h l)"

definition bt_it_ok :: "('k, 'v) btree \<Rightarrow> bt_iter \<Rightarrow> bool" where
  "bt_it_ok bt it \<longleftrightarrow> (\<exists>i a L. it = (i, Some a) \<and> leaf_run (bt_heap bt) (a # L) \<and>
     (\<forall>l \<in> set L. leaf_elems (bt_heap bt) l \<noteq> []) \<and> i \<le> length (leaf_elems (bt_heap bt) a))"

lemma follow_chained: "chained h L None \<Longrightarrow> length L \<le> n \<Longrightarrow> follow n h (hd_or L None) = L"
proof (induction L arbitrary: n)
  case Nil
  then show ?case by (cases n) auto
next
  case (Cons a L)
  then show ?case by (cases n) auto
qed

lemma leaf_run_length:
  assumes "leaf_run h L"
  shows "length L \<le> length h"
proof -
  have "set L \<subseteq> {..<length h}" using assms cell_less by (fastforce simp: leaf_run_def leaf_ok_def)
  then have "card (set L) \<le> length h" using card_mono [of "{..<length h}"] by simp
  with assms show ?thesis by (simp add: leaf_run_def distinct_card)
qed

lemma bt_rest_run:
  assumes "leaf_run (bt_heap bt) (a # L)"
  shows "bt_rest bt (i, Some a) = drop i (leaf_elems (bt_heap bt) a) @ concat (map (leaf_elems (bt_heap bt)) L)"
  using assms leaf_run_length [OF assms] follow_chained [of "bt_heap bt" L "length (bt_heap bt)"]
  by (simp add: bt_rest_def leaf_run_def)

lemma leftmost_snoc: "leftmost h (Suc n) node = res_bind (leftmost h n node) (leftmost h 1)"
proof (induction n arbitrary: node)
  case (Suc n)
  have "leftmost h (Suc (Suc n)) node = res_bind (bn_get h node) (\<lambda>nd. res_bind (rd (bn_kids nd) 0) (leftmost h (Suc n)))"
    by simp
  also have "\<dots> = res_bind (bn_get h node) (\<lambda>nd. res_bind (rd (bn_kids nd) 0) (\<lambda>c. res_bind (leftmost h n c) (leftmost h 1)))"
    by (intro arg_cong [of _ _ "res_bind _"] ext) (rule Suc)
  finally show ?case by (simp only: leftmost.simps(2) [of h n] res_bind_assoc)
qed simp

lemma up_leftmost: "up h r m L B A \<Longrightarrow> L \<noteq> [] \<and> leftmost h m (Some r) = Inr (Some (hd L))"
proof (induction m arbitrary: L B A)
  case (Suc m)
  then obtain P BP AP where P: "up h r m P BP AP" "L = concat (map (kids h) P)" "\<forall>p \<in> set P. inner_ok h p"
    by (auto elim!: up_SucE)
  from Suc.IH [OF P(1)] obtain p P' where p: "P = p # P'" "leftmost h m (Some r) = Inr (Some p)" by (cases P) auto
  with P(3) obtain n where n: "cell h p = Some n" "inner_node 6 n" by (auto simp: inner_ok_def)
  then have k: "kids h p = node_kids n" "0 < length (node_kids n)"
    using inner_node_lengths(2) [OF n(2)] by (auto simp: kids_def)
  with inner_node_nth_kid [OF n(2), of 0] n(1) P(2) p show ?case
    by (simp only: leftmost_snoc) (simp add: hd_append hd_conv_nth)
qed simp

lemma bt_tree_run:
  assumes "bt_tree e bt L B A"
  shows "leaf_run (bt_heap bt) L" "L \<noteq> []"
    "leftmost (bt_heap bt) (bt_nlevel bt - 1) (bt_root bt) = Inr (Some (hd L))"
  using assms up_leftmost by (fastforce simp: bt_tree_def tree_at_def leaf_run_def)+

lemma bt_begin_ok:
  assumes "bt_inv e bt"
  shows "succeeds (bt_iter_begin bt) (\<lambda>r. case r of None \<Rightarrow> bt_elems bt = []
    | Some i \<Rightarrow> bt_it_ok bt i \<and> bt_rest bt i = bt_elems bt)"
proof (cases "bt_nlevel bt = 0")
  case False
  with assms obtain L B A where t: "bt_tree e bt L B A" "\<forall>l \<in> set L. leaf_elems (bt_heap bt) l \<noteq> []"
    by (auto simp: bt_inv_def)
  note run = bt_tree_run [OF t(1)]
  from run(2) obtain a L' where L: "L = a # L'" by (cases L) auto
  with run t False bt_rest_run [of bt a L' 0] bt_tree_elems [OF t(1)] show ?thesis
    by (auto simp: bt_iter_begin_def bt_it_ok_def)
qed (simp add: bt_iter_begin_def bt_elems_def)

lemma copy_leaves_ok:
  assumes "chained h L None" "\<forall>l \<in> set L. cell h l \<noteq> None" "length L \<le> fuel"
  shows "copy_leaves fuel h (hd_or L None) = Inr (concat (map (leaf_elems h) L))"
  using assms
proof (induction L arbitrary: fuel)
  case (Cons a L)
  then obtain f n where "fuel = Suc f" "cell h a = Some n" by (cases fuel) auto
  with Cons show ?case by (simp add: nxt_def leaf_elems_def)
qed simp

lemma bt_copy_kvs_ok:
  assumes "bt_inv e bt"
  shows "bt_copy_kvs bt = Inr (bt_elems bt)"
proof (cases "bt_nlevel bt = 0")
  case False
  with assms obtain L B A where t: "bt_tree e bt L B A" by (auto simp: bt_inv_def)
  note run = bt_tree_run [OF t]
  then have "copy_leaves (length (bt_heap bt)) (bt_heap bt) (Some (hd L)) = Inr (bt_elems bt)"
    using copy_leaves_ok [of "bt_heap bt" L "length (bt_heap bt)"] leaf_run_length [OF run(1)] bt_tree_elems [OF t]
    by (cases L) (auto simp: leaf_run_def leaf_ok_def)
  with False run(3) assms show ?thesis by (simp add: bt_copy_kvs_def bt_inv_def)
qed (simp add: bt_copy_kvs_def bt_elems_def)

text \<open>One step of the iterator, with or without clearing the slot it leaves.\<close>

lemma bt_next_here:
  assumes run: "leaf_run (bt_heap bt) (a # L)" "\<forall>l \<in> set L. leaf_elems (bt_heap bt) l \<noteq> []"
    and i: "i < length (leaf_elems (bt_heap bt) a)"
    and n: "cell (bt_heap bt) a = Some n"
    and h': "h' = (if bclear then bn_set (bt_heap bt) a (n\<lparr>bn_arr := (bn_arr n)[i := z]\<rparr>) else bt_heap bt)"
  shows "bt_it_ok (bt\<lparr>bt_heap := h'\<rparr>) (i + 1, Some a)"
    "bt_rest bt (i, Some a) = bn_arr n ! i # bt_rest (bt\<lparr>bt_heap := h'\<rparr>) (i + 1, Some a)"
proof -
  let ?h = "bt_heap bt"
  have E: "leaf_elems ?h a = take (bn_nkeys n) (bn_arr n)" using n by (simp add: leaf_elems_def)
  have ok: "node_ok n" "bn_nkeys n \<le> 7" using run(1) n by (auto simp: leaf_run_def leaf_ok_def)
  have cells: "cell h' b = (if b = a then Some (if bclear then n\<lparr>bn_arr := (bn_arr n)[i := z]\<rparr> else n) else cell ?h b)" for b
    using h' n cell_less [OF n] by auto
  have E': "leaf_elems h' a = (if bclear then (leaf_elems ?h a)[i := z] else leaf_elems ?h a)"
    using cells [of a] E by (simp add: leaf_elems_def take_update_swap)
  have same: "leaf_elems h' b = leaf_elems ?h b" if "b \<noteq> a" for b using cells [of b] that by (simp add: leaf_elems_def)
  have nx: "nxt h' b = nxt ?h b" for b using cells [of b] n by (auto simp: nxt_def)
  have run': "leaf_run h' (a # L)"
    using run(1) chained_cong [of "a # L" h' ?h None] nx cells ok by (auto simp: leaf_run_def leaf_ok_def node_ok_def)
  have L: "map (leaf_elems h') L = map (leaf_elems ?h) L"
    using run(1) by (intro map_cong refl same) (auto simp: leaf_run_def)
  show "bt_it_ok (bt\<lparr>bt_heap := h'\<rparr>) (i + 1, Some a)"
    using run' run i E' L by (auto simp: bt_it_ok_def leaf_run_def intro!: exI [of _ L]) 
  have "drop i (leaf_elems ?h a) = bn_arr n ! i # drop (i + 1) (leaf_elems h' a)"
    using i E E' by (auto simp: Cons_nth_drop_Suc [symmetric])
  then show "bt_rest bt (i, Some a) = bn_arr n ! i # bt_rest (bt\<lparr>bt_heap := h'\<rparr>) (i + 1, Some a)"
    using bt_rest_run [OF run(1), of i] bt_rest_run [of "bt\<lparr>bt_heap := h'\<rparr>" a L "i + 1"] run' L by simp
qed

lemma bt_next_nil:
  assumes "bt_it_ok bt it" "bt_rest bt it = []"
  shows "bt_iter_next_kvs e bt it b = Inr None"
proof -
  from assms(1) obtain i a L where it: "it = (i, Some a)" "leaf_run (bt_heap bt) (a # L)"
    "\<forall>l \<in> set L. leaf_elems (bt_heap bt) l \<noteq> []" "i \<le> length (leaf_elems (bt_heap bt) a)"
    by (auto simp: bt_it_ok_def)
  from it(2) obtain n where n: "cell (bt_heap bt) a = Some n" "node_ok n" "bn_nkeys n \<le> 7"
    by (auto simp: leaf_run_def leaf_ok_def)
  from assms(2) it bt_rest_run [OF it(2), of i] have "L = []" "i = bn_nkeys n"
    using n by (cases L; force simp: leaf_elems_def node_ok_def)+
  with it n show ?thesis by (simp add: bt_iter_next_kvs_def leaf_run_def nxt_def)
qed

lemma bt_next_cons:
  assumes "bt_it_ok bt it" "bt_rest bt it = x # xs"
  shows "succeeds (bt_iter_next_kvs e bt it b)
    (\<lambda>r. case r of None \<Rightarrow> False | Some (y, bt', it') \<Rightarrow> y = x \<and> bt_it_ok bt' it' \<and> bt_rest bt' it' = xs)"
proof -
  let ?h = "bt_heap bt"
  from assms(1) obtain i a L where it: "it = (i, Some a)" "leaf_run ?h (a # L)"
    "\<forall>l \<in> set L. leaf_elems ?h l \<noteq> []" "i \<le> length (leaf_elems ?h a)"
    by (auto simp: bt_it_ok_def)
  from it(2) obtain n where n: "cell ?h a = Some n" "node_ok n" "bn_nkeys n \<le> 7"
    by (auto simp: leaf_run_def leaf_ok_def)
  have len: "length (leaf_elems ?h a) = bn_nkeys n" using n by (simp add: leaf_elems_def node_ok_def)
  show ?thesis
  proof (cases "i = bn_nkeys n")
    case False
    then have i: "i < length (leaf_elems ?h a)" "i < length (bn_arr n)" using it(4) len n by (auto simp: node_ok_def)
    from bt_next_here [OF it(2,3) i(1) n(1) refl, of b "zero_kvs e"] assms(2) it(1) i(2) n(1) False show ?thesis
      by (cases b) (simp_all add: bt_iter_next_kvs_def Let_def)
  next
    case True
    with assms(2) it(1) bt_rest_run [OF it(2), of i] len obtain c L' where L: "L = c # L'" by (cases L) auto
    with it(2,3) have run: "leaf_run ?h (c # L')" "\<forall>l \<in> set L'. leaf_elems ?h l \<noteq> []" "leaf_elems ?h c \<noteq> []"
      and nx: "bn_next n = Some c" using n(1) by (auto simp: leaf_run_def nxt_def)
    from run(1) obtain nc where nc: "cell ?h c = Some nc" "node_ok nc" "bn_nkeys nc \<le> 7"
      by (auto simp: leaf_run_def leaf_ok_def)
    have "bn_arr nc \<noteq> []" using nc(2) by (auto simp: node_ok_def)
    moreover have rest: "bt_rest bt it = bt_rest bt (0, Some c)"
      using bt_rest_run [OF it(2), of i] bt_rest_run [OF run(1), of 0] it(1) L True len by simp
    ultimately show ?thesis
      using bt_next_here [OF run(1,2) _ nc(1) refl, of 0 b "zero_kvs e"] run(3) assms(2) it(1) n(1) nc nx True
      by (cases b) (simp_all add: bt_iter_next_kvs_def Let_def)
  qed
qed

sublocale mr_env \<subseteq> btc: kvs_coll e bt_init "bt_insert_kv e" "bt_insert_kvs e" bt_get_len
    bt_iter_begin "bt_iter_next_kvs e" "bt_inv e" bt_elems bt_it_ok bt_rest
proof
  show "bt_inv e bt_init" "bt_elems bt_init = []" by (simp_all add: bt_inv_def bt_init_def bt_elems_def)
  show "bt_get_len c = length (bt_elems c)" if "bt_inv e c" for c
    using that by (simp add: bt_get_len_def bt_inv_def)
  show "cstrict (keyvals_cmp e) (bt_elems c)" if "bt_inv e c" for c
  proof (cases "bt_nlevel c = 0")
    case False
    with that obtain L B A where t: "bt_tree e c L B A" by (auto simp: bt_inv_def)
    then obtain r m where "tree_at e (bt_heap c) r m L B A" by (auto simp: bt_tree_def)
    with items_sorted(2) [of "map (leaf_elems (bt_heap c)) L" B] up_length [of "bt_heap c" r m L B A] bt_tree_elems [OF t]
    show ?thesis by (simp add: tree_at_def)
  qed (simp add: bt_elems_def)
qed (rule bt_insert_kv_refines bt_insert_kvs_refines bt_begin_ok bt_next_nil bt_next_cons, assumption+)+

context mr_env
begin

lemma btc_coll: "kvs_coll e bt_init (bt_insert_kv e) (bt_insert_kvs e) bt_get_len
    bt_iter_begin (bt_iter_next_kvs e) (bt_inv e) bt_elems bt_it_ok bt_rest"
  by (rule btc.kvs_coll_axioms)

end

end
