(* ===== verification/Btree_Free.thy ===== *)
theory Btree_Free
  imports Btree_Correct
begin

text \<open>
  Freeing a B+tree (\<^verbatim>\<open>btree_delete_level\<close>, \<^verbatim>\<open>pch_shallow_free\<close>): on a well-formed tree
  every node is freed at most once and read only while it is allocated, and the nodes under the
  last child of an inner node are never freed.
\<close>

section \<open>The nodes a deletion visits\<close>

fun visited :: "('k, 'v) bheap \<Rightarrow> nat \<Rightarrow> addr \<Rightarrow> addr list" where
  "visited h 0 a = [a]"
| "visited h (Suc k) a = concat (map (visited h k) (butlast (kids h a))) @ [a]"

fun full :: "('k, 'v) bheap \<Rightarrow> nat \<Rightarrow> addr \<Rightarrow> addr list" where
  "full h 0 a = [a]"
| "full h (Suc k) a = concat (map (full h k) (kids h a)) @ [a]"

fun tree_shape :: "('k, 'v) bheap \<Rightarrow> nat \<Rightarrow> addr \<Rightarrow> bool" where
  "tree_shape h 0 a \<longleftrightarrow> cell h a \<noteq> None"
| "tree_shape h (Suc k) a \<longleftrightarrow> inner_ok h a \<and> (\<forall>c \<in> set (kids h a). tree_shape h k c)"

lemma tree_shape_cell: "tree_shape h k a \<Longrightarrow> cell h a \<noteq> None"
  by (cases k) (auto simp: inner_ok_def)

lemma visited_full: "mset (visited h k a) \<subseteq># mset (full h k a)"
proof (induction k arbitrary: a)
  case (Suc k)
  have "mset (concat (map (visited h k) cs)) \<subseteq># mset (concat (map (full h k) (cs @ ds)))" for cs ds
    by (induction cs) (use Suc in \<open>auto intro: subset_mset.add_mono\<close>)
  from this [of "butlast (kids h a)" "drop (length (kids h a) - 1) (kids h a)"] show ?case
    by (simp add: butlast_conv_take del: concat_append map_append)
qed simp

lemma distinct_submset:
  assumes "mset xs \<subseteq># mset ys" "distinct ys"
  shows "distinct xs"
proof -
  have "count (mset xs) a \<le> 1" for a
  proof (rule order_trans)
    show "count (mset xs) a \<le> count (mset ys) a"
      by (rule mset_subset_eq_count [OF assms(1)])
    show "count (mset ys) a \<le> 1"
      using assms(2) [unfolded distinct_count_atmost_1, rule_format, of a] by (simp split: if_splits)
  qed
  moreover have "0 < count (mset xs) a \<longleftrightarrow> a \<in> set xs" for a
    by simp
  ultimately have "count (mset xs) a = (if a \<in> set xs then 1 else 0)" for a
    by (metis One_nat_def Suc_leI le_antisym not_gr_zero)
  then show ?thesis
    by (simp add: distinct_count_atmost_1)
qed

lemma up_tree_shape:
  assumes "up h r m L B A" "\<forall>l \<in> set L. tree_shape h j l"
  shows "tree_shape h (m + j) r"
  using assms
proof (induction m arbitrary: j L B A)
  case (Suc m)
  from Suc.prems(1) obtain P BP AP where P: "up h r m P BP AP" "L = concat (map (kids h) P)"
      "\<forall>p \<in> set P. inner_ok h p"
    by (rule up_SucE)
  have "\<forall>p \<in> set P. tree_shape h (Suc j) p"
    using P(2,3) Suc.prems(2) by auto
  from Suc.IH [OF P(1) this] show ?case
    by simp
qed simp

lemma up_full:
  assumes "up h r m L B A"
  shows "mset (full h (m + j) r) = mset A + mset (concat (map (full h j) L))"
  using assms
proof (induction m arbitrary: j L B A)
  case (Suc m)
  from Suc.prems obtain P BP AP where P: "up h r m P BP AP" "A = P @ AP" "L = concat (map (kids h) P)"
    by (rule up_SucE)
  have "mset (concat (map (full h (Suc j)) Q)) = mset Q + mset (concat (map (full h j) (concat (map (kids h) Q))))" for Q
    by (induction Q) auto
  then show ?case
    using Suc.IH [OF P(1), of "Suc j"] P(2,3) by (simp del: full.simps)
qed simp

lemma tree_at_full:
  assumes "tree_at e h r m L B A"
  shows "distinct (full h m r)" "tree_shape h m r"
proof -
  have u: "up h r m L B A" and d: "distinct (L @ A)" and l: "\<forall>l \<in> set L. tree_shape h 0 l"
    using assms by (auto simp: tree_at_def leaf_ok_def)
  have "concat (map (full h 0) L) = L"
    by (induction L) auto
  then have "mset (full h m r) = mset (L @ A)"
    using up_full [OF u, of 0] by (simp add: add.commute)
  then show "distinct (full h m r)"
    using d mset_eq_imp_distinct_iff by blast
  show "tree_shape h m r"
    using up_tree_shape [OF u l] by simp
qed

section \<open>Deleting\<close>

definition freed :: "('k, 'v) bheap \<Rightarrow> addr set \<Rightarrow> ('k, 'v) bheap \<Rightarrow> bool" where
  "freed h V h' \<longleftrightarrow> length h' = length h \<and> (\<forall>x. cell h' x = (if x \<in> V then None else cell h x))"

lemma freed_trans: "freed h V h' \<Longrightarrow> freed h' W h'' \<Longrightarrow> freed h (V \<union> W) h''"
  by (auto simp: freed_def)

lemma freed_none:
  assumes "freed h V h'" "a < length h"
  shows "freed h (insert a V) (h'[a := None])"
proof -
  have "cell (h'[a := None]) x = (if x = a then None else cell h' x)" for x
    using assms by (simp add: freed_def cell_def)
  then show ?thesis
    using assms(1) by (simp add: freed_def)
qed

lemma kids_deleted:
  assumes "inner_node k n" "k \<le> 7"
  shows "take (bn_nkeys n) (bn_kids n) = map Some (butlast (node_kids n))"
proof -
  have len: "length (bn_kids n) = 8" "bn_nkeys n < 8" and ne: "None \<notin> set (take (bn_nkeys n + 1) (bn_kids n))"
    using assms by (auto simp: inner_node_def node_ok_def)
  have "set (take (bn_nkeys n) (bn_kids n)) \<subseteq> set (take (bn_nkeys n + 1) (bn_kids n))"
    by (rule set_take_subset_set_take) simp
  then have "map Some (map the (take (bn_nkeys n) (bn_kids n))) = take (bn_nkeys n) (bn_kids n)"
    using ne by (intro nth_equalityI) (auto simp: subset_iff in_set_conv_nth)
  moreover have "butlast (node_kids n) = map the (take (bn_nkeys n) (bn_kids n))"
    using len by (simp add: node_kids_def map_butlast [symmetric] butlast_take)
  ultimately show ?thesis
    by simp
qed

lemma delete_kids_ok:
  assumes "\<And>c h. c \<in> set cs \<Longrightarrow> \<forall>x \<in> set (visited h0 k c). cell h x = cell h0 x \<Longrightarrow>
        \<exists>h'. btree_delete_level (Suc k) h (Some c) = Inr h' \<and> freed h (set (visited h0 k c)) h'"
    and "distinct (concat (map (visited h0 k) cs))"
    and "\<forall>c \<in> set cs. \<forall>x \<in> set (visited h0 k c). cell h x = cell h0 x"
  shows "\<exists>h'. btree_delete_kids (Suc k) h (map Some cs) = Inr h' \<and> freed h (set (concat (map (visited h0 k) cs))) h'"
  using assms
proof (induction cs arbitrary: h)
  case (Cons c cs)
  obtain h1 where h1: "btree_delete_level (Suc k) h (Some c) = Inr h1" "freed h (set (visited h0 k c)) h1"
    using Cons.prems(1) [of c h] Cons.prems(3) by auto
  have "\<forall>d \<in> set cs. \<forall>x \<in> set (visited h0 k d). cell h1 x = cell h0 x"
    using Cons.prems(2,3) h1(2) by (fastforce simp: freed_def)
  with Cons.IH [of h1] Cons.prems(1,2) obtain h2 where
    "btree_delete_kids (Suc k) h1 (map Some cs) = Inr h2" "freed h1 (set (concat (map (visited h0 k) cs))) h2"
    by auto
  then show ?case
    using h1 freed_trans [OF h1(2)] by (auto simp del: btree_delete_level.simps)
qed (simp add: freed_def)

lemma delete_level_ok:
  assumes "tree_shape h0 k a" "distinct (visited h0 k a)" "\<forall>x \<in> set (visited h0 k a). cell h x = cell h0 x"
  shows "\<exists>h'. btree_delete_level (Suc k) h (Some a) = Inr h' \<and> freed h (set (visited h0 k a)) h'"
  using assms
proof (induction k arbitrary: a h)
  case 0
  then obtain n where "cell h a = Some n"
    by auto
  then show ?case
    using freed_none [of h "{}" h a] by (auto simp: freed_def dest: cell_less)
next
  case (Suc k)
  let ?cs = "butlast (kids h0 a)"
  obtain n where n: "cell h0 a = Some n" "cell h a = Some n" "inner_node 6 n" "kids h0 a = node_kids n"
    using Suc.prems(1,3) by (auto simp: inner_ok_def kids_def)
  have tk: "take (bn_nkeys n) (bn_kids n) = map Some ?cs"
    using kids_deleted [OF n(3)] n(4) by simp
  have "\<exists>h'. btree_delete_level (Suc k) g (Some c) = Inr h' \<and> freed g (set (visited h0 k c)) h'"
    if "c \<in> set ?cs" "\<forall>x \<in> set (visited h0 k c). cell g x = cell h0 x" for c g
  proof (rule Suc.IH)
    show "tree_shape h0 k c"
      using Suc.prems(1) that(1) by (auto dest: in_set_butlastD)
    show "distinct (visited h0 k c)"
      using Suc.prems(2) that(1) by (auto simp: distinct_concat_iff)
  qed (rule that(2))
  moreover have "distinct (concat (map (visited h0 k) ?cs))"
    using Suc.prems(2) by simp
  moreover have "\<forall>c \<in> set ?cs. \<forall>x \<in> set (visited h0 k c). cell h x = cell h0 x"
    using Suc.prems(3) by simp
  ultimately have "\<exists>h'. btree_delete_kids (Suc k) h (map Some ?cs) = Inr h' \<and>
      freed h (set (concat (map (visited h0 k) ?cs))) h'"
    by (rule delete_kids_ok)
  then obtain h' where h': "btree_delete_kids (Suc k) h (map Some ?cs) = Inr h'"
      "freed h (set (concat (map (visited h0 k) ?cs))) h'"
    by (elim exE conjE)
  have "btree_delete_level (Suc (Suc k)) h (Some a) = Inr (h'[a := None])"
    using h'(1) by (simp add: n(2) tk del: btree_delete_level.simps(1) btree_delete_kids.simps)
  moreover have "freed h (set (visited h0 (Suc k) a)) (h'[a := None])"
    using freed_none [OF h'(2) cell_less [OF n(2)]] by simp
  ultimately show ?case
    by blast
qed

lemma tree_at_visited:
  assumes "tree_at e h r m L B A"
  shows "distinct (visited h m r)" and "\<exists>h'. btree_delete_level (Suc m) h (Some r) = Inr h' \<and> freed h (set (visited h m r)) h'"
proof -
  show "distinct (visited h m r)"
    by (rule distinct_submset [OF visited_full tree_at_full(1) [OF assms]])
  then show "\<exists>h'. btree_delete_level (Suc m) h (Some r) = Inr h' \<and> freed h (set (visited h m r)) h'"
    by (intro delete_level_ok tree_at_full(2) [OF assms]) auto
qed

section \<open>What a deletion depends on\<close>

text \<open>Only the number of keys and the children of the nodes matter, so clearing the slots of a tree
  while it is iterated over does not disturb its deletion.\<close>

definition shape :: "('k, 'v) bheap \<Rightarrow> (nat \<times> addr option list) option list" where
  "shape h = map (map_option (\<lambda>n. (bn_nkeys n, bn_kids n))) h"

fun same_shape :: "('k, 'v) bheap res \<Rightarrow> ('k, 'v) bheap res \<Rightarrow> bool" where
  "same_shape (Inl f) (Inl f') \<longleftrightarrow> f = f'"
| "same_shape (Inr h) (Inr h') \<longleftrightarrow> shape h = shape h'"
| "same_shape _ _ \<longleftrightarrow> False"

lemma same_shape_bind:
  assumes "same_shape x y" "\<And>h g. x = Inr h \<Longrightarrow> shape h = shape g \<Longrightarrow> same_shape (f h) (f' g)"
  shows "same_shape (res_bind x f) (res_bind y f')"
  using assms by (cases x; cases y) auto

lemma shape_length: "shape h = shape g \<Longrightarrow> length h = length g"
  by (drule arg_cong [of _ _ length]) (simp add: shape_def)

lemma shape_cell:
  assumes "shape h = shape g"
  shows "map_option (\<lambda>n. (bn_nkeys n, bn_kids n)) (cell h a) = map_option (\<lambda>n. (bn_nkeys n, bn_kids n)) (cell g a)"
proof -
  have len: "length h = length g"
    by (rule shape_length [OF assms])
  have "shape h ! a = shape g ! a"
    using assms by simp
  with len have "map_option (\<lambda>n. (bn_nkeys n, bn_kids n)) (h ! a) = map_option (\<lambda>n. (bn_nkeys n, bn_kids n)) (g ! a)"
    if "a < length g"
    using that by (simp only: shape_def nth_map)
  then show ?thesis
    using len by (simp add: cell_def)
qed

lemma shape_clear: "shape h = shape g \<Longrightarrow> shape (h[a := None]) = shape (g[a := None])"
  by (simp add: shape_def map_update)

lemma shape_put:
  assumes "bn_get h p = Inr nd"
  shows "shape (bn_set h (the p) (nd\<lparr>bn_arr := xs\<rparr>)) = shape h"
  using assms by (auto simp: shape_def bn_set_def bn_get_def map_update list_update_same_conv split: option.splits if_splits)

lemma shape_put_cell:
  "cell h a = Some nd \<Longrightarrow> shape (bn_set h a (nd\<lparr>bn_arr := xs\<rparr>)) = shape h"
  using shape_put [of h "Some a"] by simp

lemma delete_shape:
  "shape h = shape g \<Longrightarrow> same_shape (btree_delete_level k h p) (btree_delete_level k g p)"
  "shape h = shape g \<Longrightarrow> same_shape (btree_delete_kids k h cs) (btree_delete_kids k g cs)"
proof (induction k h p and k h cs arbitrary: g and g rule: btree_delete_level_btree_delete_kids.induct)
  case (2 level h node)
  show ?case
  proof (cases node)
    case (Some a)
    have c: "map_option (\<lambda>n. (bn_nkeys n, bn_kids n)) (cell h a) = map_option (\<lambda>n. (bn_nkeys n, bn_kids n)) (cell g a)"
      by (rule shape_cell [OF 2(2)])
    show ?thesis
    proof (cases "cell h a")
      case None
      then show ?thesis using c Some by simp
    next
      case n: (Some n)
      then obtain n' where n': "cell g a = Some n'" "bn_nkeys n' = bn_nkeys n" "bn_kids n' = bn_kids n"
        using c by (cases "cell g a") auto
      have "same_shape (if level \<noteq> 0 then btree_delete_kids level h (take (bn_nkeys n) (bn_kids n)) else Inr h)
          (if level \<noteq> 0 then btree_delete_kids level g (take (bn_nkeys n) (bn_kids n)) else Inr g)"
      proof (cases "level = 0")
        case False
        have "bn_get h node = Inr n"
          using n Some by simp
        from 2(1) [OF this False 2(2)] False show ?thesis
          by simp
      qed (use 2(2) in simp)
      then have "same_shape (res_bind (if level \<noteq> 0 then btree_delete_kids level h (take (bn_nkeys n) (bn_kids n)) else Inr h)
            (\<lambda>h'. Inr (h'[a := None])))
          (res_bind (if level \<noteq> 0 then btree_delete_kids level g (take (bn_nkeys n) (bn_kids n)) else Inr g)
            (\<lambda>h'. Inr (h'[a := None])))"
        by (rule same_shape_bind) (simp only: same_shape.simps, rule shape_clear)
      then show ?thesis
        unfolding btree_delete_level.simps(2) Some bn_get_cell n n' option.case res_bind_simps option.sel .
    qed
  qed (simp add: bn_get_def)
next
  case (4 level h c cs)
  show ?case
    unfolding btree_delete_kids.simps using 4 by (intro same_shape_bind)
qed (simp_all del: bn_get_cell)

definition freeable :: "('k, 'v) btree \<Rightarrow> bool" where
  "freeable bt \<longleftrightarrow> succeeds (bt_shallow_free bt) (\<lambda>_. True)"

lemma freeable_shape:
  fixes bt bt' :: "('k, 'v) btree"
  assumes "freeable bt" "shape (bt_heap bt') = shape (bt_heap bt)" "bt_nlevel bt' = bt_nlevel bt" "bt_root bt' = bt_root bt"
  shows "freeable bt'"
  using assms delete_shape(1) [OF assms(2), of "bt_nlevel bt" "bt_root bt"]
  by (auto simp: freeable_def bt_shallow_free_def elim: same_shape.elims split: if_splits)

lemma bt_next_freeable:
  assumes "freeable bt" "bt_iter_next_kvs e bt it b = Inr (Some (k, bt', it'))"
  shows "freeable bt'"
proof (rule freeable_shape [OF assms(1)])
  show "shape (bt_heap bt') = shape (bt_heap bt)"
    using assms(2) by (auto simp: bt_iter_next_kvs_def shape_put shape_put_cell Let_def split: prod.splits option.splits if_splits
        )
  show "bt_nlevel bt' = bt_nlevel bt" "bt_root bt' = bt_root bt"
    using assms(2) by (auto simp: bt_iter_next_kvs_def Let_def split: prod.splits option.splits if_splits
        )
qed

lemma bt_free_ok:
  assumes "bt_inv e bt"
  shows "freeable bt"
proof (cases "bt_nlevel bt = 0")
  case False
  then obtain L B A where "bt_tree e bt L B A"
    using assms by (auto simp: bt_inv_def)
  then show ?thesis
    using tree_at_visited(2) by (fastforce simp: bt_tree_def freeable_def bt_shallow_free_def simp del: btree_delete_level.simps)
qed (simp add: freeable_def bt_shallow_free_def)

lemma full_root: "a \<in> set (full h k a)"
  by (cases k) auto

lemma last_kid_kept:
  assumes "tree_at e h r (Suc m) L B A"
  shows "last (kids h r) \<in> set (kids h r)" "last (kids h r) \<notin> set (visited h (Suc m) r)"
proof -
  have ne: "kids h r \<noteq> []"
    using tree_at_full(2) [OF assms] by (auto dest: inner_ok_lengths)
  then show "last (kids h r) \<in> set (kids h r)"
    by simp
  have d: "distinct (concat (map (full h m) (butlast (kids h r))) @ full h m (last (kids h r)) @ [r])"
    using tree_at_full(1) [OF assms] unfolding full.simps
    by (subst (asm) append_butlast_last_id [OF ne, symmetric]) simp
  have sub: "set (visited h m c) \<subseteq> set (full h m c)" for c
    using set_mset_mono [OF visited_full [of h m c]] by simp
  from d full_root [of "last (kids h r)" h m] sub show "last (kids h r) \<notin> set (visited h (Suc m) r)"
    by fastforce
qed

end
