(* ===== verification/Pc_Handler.thy ===== *)
theory Pc_Handler
  imports Btree_Free Reduce
begin

text \<open>
  The table of operations of a pair collection (\<^verbatim>\<open>pc_handler_t\<close> of
  \<^verbatim>\<open>metis/lib/pchandler.h\<close>), its instances for the sorted array (\<^verbatim>\<open>hkvsarr\<close>) and
  the B+tree (\<^verbatim>\<open>hkvsbtree\<close>), and the contract \<open>grouped\<close> that the bucket managers
  rely on.
\<close>

section \<open>The table\<close>

record ('c, 'i, 'k, 'v) pc_handler =
  pch_init :: 'c
  pch_insert_kv :: "'c \<Rightarrow> 'k \<Rightarrow> 'v \<Rightarrow> nat \<Rightarrow> nat \<Rightarrow> ('c \<times> bool) res"
  pch_insert_kvs :: "'c \<Rightarrow> ('k, 'v) keyvals \<Rightarrow> 'c res"
  pch_iter_begin :: "'c \<Rightarrow> 'i option res"
  pch_iter_next_kvs :: "'c \<Rightarrow> 'i \<Rightarrow> bool \<Rightarrow> (('k, 'v) keyvals \<times> 'c \<times> 'i) option res"
  pch_shallow_free :: "'c \<Rightarrow> 'c res"
  pch_get_len :: "'c \<Rightarrow> nat"

definition hkvsarr :: "('k, 'v) env \<Rightarrow> (('k, 'v) keyvals parr, nat, 'k, 'v) pc_handler" where
  "hkvsarr e =
     \<lparr>pch_init = kvsa_init, pch_insert_kv = kvsa_insert_kv e, pch_insert_kvs = kvsa_insert_kvs e,
      pch_iter_begin = (\<lambda>c. Inr (kvsa_iter_begin (Some c))), pch_iter_next_kvs = kvsa_iter_next_kvs e,
      pch_shallow_free = (\<lambda>c. Inr (kvsa_shallow_free c)), pch_get_len = kvsa_get_len\<rparr>"

definition hkvsbtree :: "('k, 'v) env \<Rightarrow> (('k, 'v) btree, bt_iter, 'k, 'v) pc_handler" where
  "hkvsbtree e =
     \<lparr>pch_init = bt_init, pch_insert_kv = bt_insert_kv e, pch_insert_kvs = bt_insert_kvs e,
      pch_iter_begin = bt_iter_begin, pch_iter_next_kvs = bt_iter_next_kvs e,
      pch_shallow_free = bt_shallow_free, pch_get_len = bt_get_len\<rparr>"

lemma hkvsarr_simps [simp]:
  "pch_init (hkvsarr e) = kvsa_init" "pch_insert_kv (hkvsarr e) = kvsa_insert_kv e"
  "pch_insert_kvs (hkvsarr e) = kvsa_insert_kvs e"
  "pch_iter_begin (hkvsarr e) = (\<lambda>c. Inr (kvsa_iter_begin (Some c)))"
  "pch_iter_next_kvs (hkvsarr e) = kvsa_iter_next_kvs e"
  "pch_shallow_free (hkvsarr e) = (\<lambda>c. Inr (kvsa_shallow_free c))" "pch_get_len (hkvsarr e) = kvsa_get_len"
  by (simp_all add: hkvsarr_def)

lemma hkvsbtree_simps [simp]:
  "pch_init (hkvsbtree e) = bt_init" "pch_insert_kv (hkvsbtree e) = bt_insert_kv e"
  "pch_insert_kvs (hkvsbtree e) = bt_insert_kvs e" "pch_iter_begin (hkvsbtree e) = bt_iter_begin"
  "pch_iter_next_kvs (hkvsbtree e) = bt_iter_next_kvs e" "pch_shallow_free (hkvsbtree e) = bt_shallow_free"
  "pch_get_len (hkvsbtree e) = bt_get_len"
  by (simp_all add: hkvsbtree_def)

section \<open>Emitted pairs and their groups\<close>

text \<open>A call of \<^verbatim>\<open>pch_insert_kv\<close>: the key, the value, the length of the key and its hash.\<close>

type_synonym ('k, 'v) put = "'k \<times> 'v \<times> nat \<times> nat"

fun put_all :: "('c, 'i, 'k, 'v) pc_handler \<Rightarrow> 'c \<Rightarrow> ('k, 'v) put list \<Rightarrow> 'c res" where
  "put_all ph c [] = Inr c"
| "put_all ph c ((k, v, l, h) # ps) =
     res_bind (pch_insert_kv ph c k v l h) (\<lambda>(c', _). put_all ph c' ps)"

definition put_group :: "('k, 'v) env \<Rightarrow> ('k, 'v) put \<Rightarrow> ('k, 'v) group list \<Rightarrow> ('k, 'v) group list" where
  "put_group e = (\<lambda>(k, v, l, h). grp_insert (keycmp e) (\<lambda>k. copy_key e k l) k h v)"

definition groups :: "('k, 'v) env \<Rightarrow> ('k, 'v) put list \<Rightarrow> ('k, 'v) group list" where
  "groups e ps = fold (put_group e) ps []"

definition put_ok :: "('k, 'v) env \<Rightarrow> ('k, 'v) put \<Rightarrow> bool" where
  "put_ok e = (\<lambda>(k, v, l, h). keycopy_ok e k l)"

lemma grp_size_put: "grp_size (put_group e p G) = grp_size G + 1"
  by (simp add: put_group_def grp_size_insert split: prod.splits)

lemma grp_size_fold: "grp_size (fold (put_group e) ps G) = grp_size G + length ps"
  by (induction ps arbitrary: G) (simp_all add: grp_size_put)

section \<open>The contract of a handler of grouped pairs\<close>

locale grouped =
  mr_env e + value_summary e M +
  kvs_coll e "pch_init ph" "pch_insert_kv ph" "pch_insert_kvs ph" "pch_get_len ph" "pch_iter_begin ph"
    "pch_iter_next_kvs ph" inv elems it_ok rest
  for e :: "('k, 'v) env" and M :: "'v list \<Rightarrow> 'm" and ph :: "('c, 'i, 'k, 'v) pc_handler"
    and inv and elems and it_ok and rest +
  fixes fr :: "'c \<Rightarrow> bool"
  assumes inv_fr: "inv c \<Longrightarrow> fr c"
    and next_fr: "fr c \<Longrightarrow> pch_iter_next_kvs ph c i b = Inr (Some (x, c', i')) \<Longrightarrow> fr c'"
    and free_ok: "fr c \<Longrightarrow> succeeds (pch_shallow_free ph c) (\<lambda>_. True)"
begin

lemma kvs_reduce_ph: "kvs_reduce e (pch_init ph) (pch_insert_kv ph) (pch_insert_kvs ph) (pch_get_len ph)
    (pch_iter_begin ph) (pch_iter_next_kvs ph) inv elems it_ok rest M"
  by (intro kvs_reduce.intro kvs_coll_axioms mr_env_axioms value_summary_axioms)

lemma insert_groups:
  assumes "inv c" "grps_of e M (elems c) G" "grp_size G < 2 ^ 31" "keycopy_ok e k l"
  shows "succeeds (pch_insert_kv ph c k v l h)
    (\<lambda>(c', b). inv c' \<and> grps_of e M (elems c') (put_group e (k, v, l, h) G))"
proof -
  obtain ys b where ys: "list_ins e k v l h (elems c) = Inr (ys, b)" "grps_of e M ys (put_group e (k, v, l, h) G)"
    using list_ins_groups [OF assms(2,3), of k v l h] by (auto simp: put_group_def elim!: succeedsE)
  have "length (elems c) < 2 ^ 31"
    using grps_of_length [OF assms(2)] assms(3) by simp
  from ins_elems [OF assms(1) this assms(4) ys(1)] ys(2) show ?thesis
    by (auto elim!: succeeds_mono)
qed

lemma put_all_groups:
  assumes "inv c" "grps_of e M (elems c) G" "grp_size G + length ps \<le> 2 ^ 31" "list_all (put_ok e) ps"
  shows "succeeds (put_all ph c ps) (\<lambda>c'. inv c' \<and> grps_of e M (elems c') (fold (put_group e) ps G))"
  using assms
proof (induction ps arbitrary: c G)
  case (Cons p ps)
  obtain k v l h where p: "p = (k, v, l, h)"
    by (cases p)
  have "succeeds (pch_insert_kv ph c k v l h)
      (\<lambda>(c', b). inv c' \<and> grps_of e M (elems c') (put_group e (k, v, l, h) G))"
    using Cons.prems by (intro insert_groups) (auto simp: p put_ok_def)
  then obtain c' b where c': "pch_insert_kv ph c k v l h = Inr (c', b)" "inv c'"
      "grps_of e M (elems c') (put_group e (k, v, l, h) G)"
    by (auto elim!: succeedsE)
  from Cons.IH [OF c'(2,3)] Cons.prems(3,4) c'(1) show ?case
    by (simp add: p grp_size_put)
qed simp

end

section \<open>The array and the B+tree keep the contract\<close>

lemma grouped_array:
  assumes "mr_env e" "value_summary e M"
  shows "grouped e M (hkvsarr e) (kvsa_inv e) parr_elems kvsa_it_ok (\<lambda>c i. drop i (parr_elems c)) (\<lambda>_. True)"
  using mr_env.kvsa_coll [OF assms(1)] assms by (intro grouped.intro grouped_axioms.intro) simp_all

lemma grouped_btree:
  assumes "mr_env e" "value_summary e M"
  shows "grouped e M (hkvsbtree e) (bt_inv e) bt_elems bt_it_ok bt_rest freeable"
  using mr_env.btc_coll [OF assms(1)] assms
  by (intro grouped.intro grouped_axioms.intro)
    (simp_all add: bt_free_ok bt_next_freeable, simp add: freeable_def)

interpretation wc_arr: grouped "wc_env b" sum_list "hkvsarr (wc_env b)" "kvsa_inv (wc_env b)" parr_elems kvsa_it_ok
    "\<lambda>c i. drop i (parr_elems c)" "\<lambda>_. True" for b
  by (rule grouped_array [OF wc.mr_env_axioms wc_sum.value_summary_axioms])

interpretation wc_bt: grouped "wc_env b" sum_list "hkvsbtree (wc_env b)" "bt_inv (wc_env b)" bt_elems bt_it_ok
    bt_rest freeable for b
  by (rule grouped_btree [OF wc.mr_env_axioms wc_sum.value_summary_axioms])

section \<open>Properties of the B+tree\<close>

text \<open>C14. The B+tree refines the sorted list: inserting a pair into a well-formed tree gives a
  well-formed tree whose pairs, in the order of its leaves, are what a linear scan of the old ones
  gives, and it reports a new key exactly when the scan does.\<close>

theorem bt_insert_kv_refines_list:
  assumes "mr_env e" "bt_inv e bt" "length (bt_elems bt) < 2 ^ 31" "keycopy_ok e key keylen"
    and "list_ins e key v keylen hash (bt_elems bt) = Inr (ys, b)"
  shows "succeeds (bt_insert_kv e bt key v keylen hash) (\<lambda>(bt', b'). bt_inv e bt' \<and> bt_elems bt' = ys \<and> b' = b)"
  by (rule mr_env.bt_insert_kv_refines [OF assms(1-3,5,4)])

theorem bt_insert_kv_refines_list_witness:
  "succeeds (bt_insert_kv (wc_env True) bt_init ''A'' 1 2 7) (\<lambda>(bt', b').
     bt_inv (wc_env True) bt' \<and>
     bt_elems bt' = [\<lparr>kvs_key = ''A'', kvs_vals = VVm 1, kvs_len = 1, kvs_alloc_len = 0, kvs_hash = 7\<rparr>] \<and> b' = True)"
proof (rule bt_insert_kv_refines_list [OF wc.mr_env_axioms])
  show "bt_inv (wc_env True) bt_init" "length (bt_elems bt_init) < 2 ^ 31"
    by (simp_all add: bt_inv_def bt_init_def bt_elems_def)
  show "keycopy_ok (wc_env True) ''A'' 2"
    by code_simp
  show "list_ins (wc_env True) ''A'' 1 2 7 (bt_elems bt_init) =
      Inr ([\<lparr>kvs_key = ''A'', kvs_vals = VVm 1, kvs_len = 1, kvs_alloc_len = 0, kvs_hash = 7\<rparr>], True)"
    by code_simp
qed

text \<open>C12. However many pairs are inserted into an empty B+tree, in whatever order, no insertion
  faults, the tree stays well formed, and copying it out gives one entry per key, in key order,
  each with the summary of all the values inserted with that key.\<close>

theorem btree_put_all_groups:
  assumes "mr_env e" "value_summary e M" "length ps \<le> 2 ^ 31" "list_all (put_ok e) ps"
  shows "succeeds (put_all (hkvsbtree e) bt_init ps) (\<lambda>bt. bt_inv e bt \<and>
    succeeds (bt_copy_kvs bt) (\<lambda>xs. cstrict (keyvals_cmp e) xs \<and> grps_of e M xs (groups e ps) \<and> bt_get_len bt = length xs))"
proof -
  note g = grouped_btree [OF assms(1,2)]
  note c = mr_env.btc_coll [OF assms(1)]
  have "bt_inv e bt_init" "bt_elems bt_init = []"
    by (simp_all add: bt_inv_def bt_init_def bt_elems_def)
  then have "succeeds (put_all (hkvsbtree e) bt_init ps) (\<lambda>bt. bt_inv e bt \<and> grps_of e M (bt_elems bt) (groups e ps))"
    using grouped.put_all_groups [OF g, of bt_init "[]" ps] assms(3,4) by (simp add: groups_def)
  then show ?thesis
    by (rule succeeds_mono) (simp add: bt_copy_kvs_ok [of e] kvs_coll.inv_sorted [OF c] kvs_coll.len_elems [OF c])
qed

theorem btree_put_all_groups_witness:
  "succeeds (put_all (hkvsbtree (wc_env True)) bt_init [(''B'', 1, 2, 7), (''A'', 1, 2, 8), (''B'', 1, 2, 7)])
     (\<lambda>bt. bt_inv (wc_env True) bt \<and> succeeds (bt_copy_kvs bt) (\<lambda>xs. cstrict (keyvals_cmp (wc_env True)) xs \<and>
        grps_of (wc_env True) sum_list xs [(''A'', 8, [1]), (''B'', 7, [1, 1])] \<and> bt_get_len bt = length xs))"
proof -
  have "list_all (put_ok (wc_env True)) [(''B'', 1, 2, 7), (''A'', 1, 2, 8), (''B'', 1, 2, 7)]"
    by code_simp
  moreover have "groups (wc_env True) [(''B'', 1, 2, 7), (''A'', 1, 2, 8), (''B'', 1, 2, 7)] =
      [(''A'', 8, [1]), (''B'', 7, [1, 1])]"
    by code_simp
  ultimately show ?thesis
    using btree_put_all_groups [OF wc.mr_env_axioms [of True] wc_sum.value_summary_axioms [of True],
        of "[(''B'', 1, 2, 7), (''A'', 1, 2, 8), (''B'', 1, 2, 7)]"] by simp
qed

lemma bt_levels:
  assumes "bt_inv e bt" "7 < bt_get_len bt"
  shows "2 \<le> bt_nlevel bt"
proof (rule ccontr)
  assume small: "\<not> 2 \<le> bt_nlevel bt"
  have len: "7 < length (bt_elems bt)"
    using assms by (simp add: bt_inv_def bt_get_len_def)
  then have "bt_nlevel bt = 1"
    using small by (cases "bt_nlevel bt = 0") (auto simp: bt_elems_def)
  then obtain r where "bt_elems bt = leaf_elems (bt_heap bt) r" "leaf_ok (bt_heap bt) r"
    using assms(1) by (auto simp: bt_inv_def bt_tree_def tree_at_def bt_elems_def)
  with len show False
    by (auto simp: leaf_ok_def leaf_elems_def)
qed



end
