(* ===== verification/Bktmgr.thy ===== *)
theory Bktmgr
  imports Pc_Handler Estimation
begin

text \<open>
  The bucket managers of grouped pairs (\<^verbatim>\<open>metis/lib/btreebktmgr.c\<close> and
  \<^verbatim>\<open>metis/lib/arraybktmgr.c\<close>): a matrix of collections with one row per map worker and one
  column per reduce task, the copy of it that sampling leaves behind, and the arrays handed to the
  merge phase. The two files differ in the handler and in a few guards; the operations are written
  over the handler table, the differences as separate definitions.
\<close>

section \<open>State\<close>

record 'c mapper =
  map_rows :: nat
  map_cols :: nat
  mbks :: "'c list option list option"

record ('c, 'o) mbkts =
  mb_mapper :: "'c mapper"
  mb_bak :: "'c mapper"
  map_out :: "'o list option"

definition mapper0 :: "'c mapper" where
  "mapper0 = \<lparr>map_rows = 0, map_cols = 0, mbks = None\<rparr>"

definition mbkts0 :: "('c, 'o) mbkts" where
  "mbkts0 = \<lparr>mb_mapper = mapper0, mb_bak = mapper0, map_out = None\<rparr>"

text \<open>\<^verbatim>\<open>mbks[row]\<close>, \<^verbatim>\<open>mbks[row][col]\<close> and stores to them.\<close>

definition mrow :: "'c mapper \<Rightarrow> nat \<Rightarrow> 'c list option res" where
  "mrow m row = (case mbks m of None \<Rightarrow> Inl Null_deref | Some rows \<Rightarrow> rd rows (int row))"

definition bkt_get :: "'c mapper \<Rightarrow> nat \<Rightarrow> nat \<Rightarrow> 'c res" where
  "bkt_get m row col =
     res_bind (mrow m row) (\<lambda>r. case r of None \<Rightarrow> Inl Null_deref | Some cs \<Rightarrow> rd cs (int col))"

definition bkt_set :: "'c mapper \<Rightarrow> nat \<Rightarrow> nat \<Rightarrow> 'c \<Rightarrow> 'c mapper res" where
  "bkt_set m row col c =
     (case mbks m of
        None \<Rightarrow> Inl Null_deref
      | Some rows \<Rightarrow>
          res_bind (rd rows (int row)) (\<lambda>r.
          case r of
            None \<Rightarrow> Inl Null_deref
          | Some cs \<Rightarrow> res_bind (wr cs (int col) c) (\<lambda>cs'. Inr (m\<lparr>mbks := Some (rows[row := Some cs'])\<rparr>))))"

definition bkt_col :: "'c mapper \<Rightarrow> nat \<Rightarrow> nat res" where
  "bkt_col m hash = (if map_cols m = 0 then Inl Div_by_zero else Inr (hash mod map_cols m))"

text \<open>A loop \<^verbatim>\<open>for (i = 0; i < n; i++)\<close> over a state.\<close>

fun for_loop :: "(nat \<Rightarrow> 's \<Rightarrow> 's res) \<Rightarrow> nat \<Rightarrow> 's \<Rightarrow> 's res" where
  "for_loop body 0 s = Inr s"
| "for_loop body (Suc n) s = res_bind (for_loop body n s) (body n)"

section \<open>Operations\<close>

definition mbm_mbks_init :: "('c, 'i, 'k, 'v) pc_handler \<Rightarrow> nat \<Rightarrow> nat \<Rightarrow> ('c, 'o parr) mbkts
    \<Rightarrow> ('c, 'o parr) mbkts" where
  "mbm_mbks_init ph rows cols st =
     st\<lparr>mb_mapper := \<lparr>map_rows = rows, map_cols = cols,
                     mbks = Some (replicate rows (Some (replicate cols (pch_init ph))))\<rparr>,
        map_out := Some (replicate (rows * cols) parr_init)\<rparr>"

definition map_put_kvs :: "('c, 'i, 'k, 'v) pc_handler \<Rightarrow> nat \<Rightarrow> 'c mapper \<Rightarrow> ('k, 'v) keyvals
    \<Rightarrow> 'c mapper res" where
  "map_put_kvs ph row m kvs =
     res_bind (bkt_col m (kvs_hash kvs)) (\<lambda>col.
     res_bind (bkt_get m row col) (\<lambda>c.
     res_bind (pch_insert_kvs ph c kvs) (bkt_set m row col)))"

definition mbm_map_put :: "('c, 'i, 'k, 'v) pc_handler \<Rightarrow> nat \<Rightarrow> 'k \<Rightarrow> 'v \<Rightarrow> nat \<Rightarrow> nat
    \<Rightarrow> ('c, 'o) mbkts \<times> mstate list \<Rightarrow> (('c, 'o) mbkts \<times> mstate list) res" where
  "mbm_map_put ph row key v keylen hash = (\<lambda>(st, est).
     let m = mb_mapper st in
     c_assert (mbks m \<noteq> None)
      (res_bind (bkt_col m hash) (\<lambda>col.
       res_bind (bkt_get m row col) (\<lambda>c.
       res_bind (pch_insert_kv ph c key v keylen hash) (\<lambda>(c', bnewkey).
       res_bind (bkt_set m row col c') (\<lambda>m'.
       res_bind (est_row (\<lambda>s. est_newpair s bnewkey) est row) (\<lambda>est'.
       Inr (st\<lparr>mb_mapper := m'\<rparr>, est'))))))))"

text \<open>
  A reduce task: the nodes of a column are merged, then freed. The freeing does not depend on the
  slots that the merge cleared. Each turn of the merge loop takes at least one pair, so one turn
  more than there are pairs is enough.
\<close>

definition reduce_col :: "('k, 'v) env \<Rightarrow> ('c, 'i, 'k, 'v) pc_handler \<Rightarrow> nat \<Rightarrow> 'c mapper
    \<Rightarrow> (('k, 'v) emit list \<times> 'c mapper) option res" where
  "reduce_col e ph col m =
     run_bind (lift_res (res_map (\<lambda>i. bkt_get m i col) [0..<map_rows m])) (\<lambda>nodes.
     run_bind (reduce_or_groupkvs e (pch_iter_begin ph) (pch_iter_next_kvs ph)
        (Suc (sum_list (map (pch_get_len ph) nodes))) nodes) (\<lambda>out.
     run_bind (lift_res (for_loop (\<lambda>i m. res_bind (bkt_get m i col) (\<lambda>c.
        res_bind (pch_shallow_free ph c) (bkt_set m i col))) (map_rows m) m)) (\<lambda>m'.
     ret (out, m'))))"

definition mbm_do_reduce_task :: "('k, 'v) env \<Rightarrow> ('c, 'i, 'k, 'v) pc_handler \<Rightarrow> nat \<Rightarrow> ('c, 'o) mbkts
    \<Rightarrow> (('k, 'v) emit list \<times> ('c, 'o) mbkts) option res" where
  "mbm_do_reduce_task e ph col st =
     c_assert (mbks (mb_mapper st) \<noteq> None)
       (run_bind (reduce_col e ph col (mb_mapper st)) (\<lambda>(out, m'). ret (out, st\<lparr>mb_mapper := m'\<rparr>)))"

definition array_do_reduce_task :: "('k, 'v) env \<Rightarrow> ('c, 'i, 'k, 'v) pc_handler \<Rightarrow> nat \<Rightarrow> ('c, 'o) mbkts
    \<Rightarrow> (('k, 'v) emit list \<times> ('c, 'o) mbkts) option res" where
  "array_do_reduce_task e ph col st =
     (if mbks (mb_mapper st) = None then ret ([], st)
      else run_bind (reduce_col e ph col (mb_mapper st)) (\<lambda>(out, m'). ret (out, st\<lparr>mb_mapper := m'\<rparr>)))"

text \<open>
  Rehashing a bucket of the backup: every pair goes to the bucket of its hash in the new matrix,
  then the old bucket is freed. The iterator delivers each pair once, so one turn more than there
  are pairs is enough; \<open>None\<close> is a loop that has not ended by then.
\<close>

fun rehash_pairs :: "('c, 'i, 'k, 'v) pc_handler \<Rightarrow> nat \<Rightarrow> nat \<Rightarrow> 'c \<Rightarrow> 'i \<Rightarrow> 'c mapper
    \<Rightarrow> ('c \<times> 'c mapper) res" where
  "rehash_pairs ph row 0 c i m = Inl Out_of_fuel"
| "rehash_pairs ph row (Suc fuel) c i m =
     res_bind (pch_iter_next_kvs ph c i True) (\<lambda>r.
     case r of
       None \<Rightarrow> Inr (c, m)
     | Some (kvs, c', i') \<Rightarrow>
         res_bind (map_put_kvs ph row m kvs) (\<lambda>m'. rehash_pairs ph row fuel c' i' m'))"

definition bkt_rehash :: "('c, 'i, 'k, 'v) pc_handler \<Rightarrow> nat \<Rightarrow> 'c \<Rightarrow> 'c mapper \<Rightarrow> ('c \<times> 'c mapper) res" where
  "bkt_rehash ph row c m =
     res_bind (pch_iter_begin ph c) (\<lambda>it.
     res_bind (case it of None \<Rightarrow> Inr (c, m) | Some i \<Rightarrow> rehash_pairs ph row (Suc (pch_get_len ph c)) c i m) (\<lambda>(c', m').
     res_bind (pch_shallow_free ph c') (\<lambda>c''. Inr (c'', m'))))"

definition rehash_row :: "('c, 'i, 'k, 'v) pc_handler \<Rightarrow> nat \<Rightarrow> ('c, 'o) mbkts \<Rightarrow> ('c, 'o) mbkts res" where
  "rehash_row ph row st =
     for_loop (\<lambda>i st.
       res_bind (bkt_get (mb_bak st) row i) (\<lambda>c.
       res_bind (bkt_rehash ph row c (mb_mapper st)) (\<lambda>(c', m').
       res_bind (bkt_set (mb_bak st) row i c') (\<lambda>b'.
       Inr (st\<lparr>mb_mapper := m', mb_bak := b'\<rparr>))))) (map_cols (mb_bak st)) st"

definition mbm_rehash_bak :: "('c, 'i, 'k, 'v) pc_handler \<Rightarrow> nat \<Rightarrow> ('c, 'o) mbkts \<Rightarrow> ('c, 'o) mbkts res" where
  "mbm_rehash_bak ph row st =
     (case mbks (mb_bak st) of
        None \<Rightarrow> Inr st
      | Some rows \<Rightarrow>
          res_bind (rd rows (int row)) (\<lambda>r.
          c_assert (r \<noteq> None)
           (res_bind (rehash_row ph row st) (\<lambda>st'.
            case mbks (mb_bak st') of
              None \<Rightarrow> Inl Null_deref
            | Some rows' \<Rightarrow> res_bind (wr rows' (int row) None) (\<lambda>rows''.
                Inr (st'\<lparr>mb_bak := (mb_bak st')\<lparr>mbks := Some rows''\<rparr>\<rparr>))))))"

definition array_rehash_bak :: "('c, 'i, 'k, 'v) pc_handler \<Rightarrow> nat \<Rightarrow> ('c, 'o) mbkts \<Rightarrow> ('c, 'o) mbkts res" where
  "array_rehash_bak ph row st = (if mbks (mb_bak st) = None then Inr st else rehash_row ph row st)"

definition mbm_mbks_bak :: "('c, 'o) mbkts \<Rightarrow> ('c, 'o) mbkts" where
  "mbm_mbks_bak st = st\<lparr>mb_bak := mb_mapper st, mb_mapper := mapper0\<rparr>"

definition mbm_map_get_output :: "('c, 'o) mbkts \<Rightarrow> 'o list option \<times> nat" where
  "mbm_map_get_output st = (map_out st, map_rows (mb_mapper st) * map_cols (mb_mapper st))"

definition out_set :: "('c, 'o) mbkts \<Rightarrow> nat \<Rightarrow> 'o \<Rightarrow> ('c, 'o) mbkts res" where
  "out_set st i x =
     (case map_out st of
        None \<Rightarrow> Inl Null_deref
      | Some outs \<Rightarrow> res_bind (wr outs (int i) x) (\<lambda>outs'. Inr (st\<lparr>map_out := Some outs'\<rparr>)))"

text \<open>Preparing the merge of the map output: the B+trees are copied, the arrays moved.\<close>

definition mbm_map_prepare_merge :: "nat \<Rightarrow> (('k, 'v) btree, ('k, 'v) keyvals parr) mbkts
    \<Rightarrow> (('k, 'v) btree, ('k, 'v) keyvals parr) mbkts res" where
  "mbm_map_prepare_merge row st =
     for_loop (\<lambda>i st.
       res_bind (bkt_get (mb_mapper st) row i) (\<lambda>c.
       let alloc_len = bt_get_len c in
       res_bind (bt_copy_kvs c) (\<lambda>arr.
       out_set st (row * map_cols (mb_mapper st) + i)
         \<lparr>pa_len = u32 alloc_len, pa_alloc = u32 alloc_len, pa_arr = Some arr\<rparr>)))
       (map_cols (mb_mapper st)) st"

definition array_map_prepare_merge :: "nat \<Rightarrow> (('k, 'v) keyvals parr, ('k, 'v) keyvals parr) mbkts
    \<Rightarrow> (('k, 'v) keyvals parr, ('k, 'v) keyvals parr) mbkts res" where
  "array_map_prepare_merge row st =
     for_loop (\<lambda>i st.
       res_bind (bkt_get (mb_mapper st) row i) (\<lambda>c.
       res_bind (out_set st (row * map_cols (mb_mapper st) + i) c) (\<lambda>st'.
       res_bind (bkt_set (mb_mapper st') row i parr_init) (\<lambda>m'.
       Inr (st'\<lparr>mb_mapper := m'\<rparr>))))) (map_cols (mb_mapper st)) st"

text \<open>Destroying: the B+tree manager guards every level of pointers, the array manager none.\<close>

definition free_row :: "('c, 'i, 'k, 'v) pc_handler \<Rightarrow> nat \<Rightarrow> 'c mapper \<Rightarrow> 'c mapper res" where
  "free_row ph i m =
     for_loop (\<lambda>j m. res_bind (bkt_get m i j) (\<lambda>c. res_bind (pch_shallow_free ph c) (bkt_set m i j))) (map_cols m) m"

definition row_null :: "nat \<Rightarrow> 'c mapper \<Rightarrow> 'c mapper res" where
  "row_null i m =
     (case mbks m of
        None \<Rightarrow> Inl Null_deref
      | Some rows \<Rightarrow> res_bind (wr rows (int i) None) (\<lambda>rows'. Inr (m\<lparr>mbks := Some rows'\<rparr>)))"

definition mapper_destroy :: "('c, 'i, 'k, 'v) pc_handler \<Rightarrow> 'c mapper \<Rightarrow> 'c mapper res" where
  "mapper_destroy ph m =
     (if mbks m = None then Inr m
      else res_bind (for_loop (\<lambda>i m.
             res_bind (mrow m i) (\<lambda>r.
             if r = None then Inr m else res_bind (free_row ph i m) (row_null i))) (map_rows m) m) (\<lambda>_. Inr mapper0))"

definition mbm_mbks_destroy :: "('c, 'i, 'k, 'v) pc_handler \<Rightarrow> ('c, 'o) mbkts \<Rightarrow> ('c, 'o) mbkts res" where
  "mbm_mbks_destroy ph st =
     res_bind (mapper_destroy ph (mb_mapper st)) (\<lambda>m.
     res_bind (mapper_destroy ph (mb_bak st)) (\<lambda>b.
     Inr (st\<lparr>mb_mapper := m, mb_bak := b\<rparr>)))"

definition array_mbks_destroy :: "('c, 'i, 'k, 'v) pc_handler \<Rightarrow> ('c, 'o) mbkts \<Rightarrow> ('c, 'o) mbkts res" where
  "array_mbks_destroy ph st =
     res_bind (for_loop (\<lambda>i m. res_bind (free_row ph i m) (row_null i)) (map_rows (mb_mapper st)) (mb_mapper st)) (\<lambda>m.
     Inr (st\<lparr>mb_mapper := m\<lparr>mbks := None\<rparr>\<rparr>))"

section \<open>The managers' tables\<close>

text \<open>The remaining operations of the array manager are those of the B+tree manager with the other
  handler.\<close>

definition array_mbks_init :: "('k, 'v) env \<Rightarrow> nat \<Rightarrow> nat \<Rightarrow> (('k, 'v) keyvals parr, 'o parr) mbkts
    \<Rightarrow> (('k, 'v) keyvals parr, 'o parr) mbkts" where
  "array_mbks_init e rows cols st = mbm_mbks_init (hkvsarr e) rows cols st"

definition array_map_put :: "('k, 'v) env \<Rightarrow> nat \<Rightarrow> 'k \<Rightarrow> 'v \<Rightarrow> nat \<Rightarrow> nat
    \<Rightarrow> (('k, 'v) keyvals parr, 'o) mbkts \<times> mstate list \<Rightarrow> ((('k, 'v) keyvals parr, 'o) mbkts \<times> mstate list) res" where
  "array_map_put e row key v keylen hash = mbm_map_put (hkvsarr e) row key v keylen hash"

definition array_mbks_bak :: "(('k, 'v) keyvals parr, 'o) mbkts \<Rightarrow> (('k, 'v) keyvals parr, 'o) mbkts" where
  "array_mbks_bak st = mbm_mbks_bak st"

definition array_map_get_output :: "(('k, 'v) keyvals parr, 'o) mbkts \<Rightarrow> 'o list option \<times> nat" where
  "array_map_get_output st = mbm_map_get_output st"

section \<open>Rows of the matrix\<close>

lemma for_loop_inv:
  assumes "I 0 s" "\<And>i s. i < n \<Longrightarrow> I i s \<Longrightarrow> succeeds (body i s) (I (Suc i))"
  shows "succeeds (for_loop body n s) (I n)"
  using assms(2)
proof (induction n)
  case (Suc n)
  then have "succeeds (for_loop body n s) (I n)"
    by simp
  then show ?case
    using Suc.prems [of n] by (auto elim!: succeedsE)
qed (simp add: assms(1))

definition has_row :: "'c mapper \<Rightarrow> nat \<Rightarrow> 'c list \<Rightarrow> bool" where
  "has_row m row cs \<longleftrightarrow> (\<exists>rows. mbks m = Some rows \<and> row < length rows \<and> rows ! row = Some cs)"

definition set_row :: "'c mapper \<Rightarrow> nat \<Rightarrow> 'c list \<Rightarrow> 'c mapper" where
  "set_row m row cs = m\<lparr>mbks := map_option (\<lambda>rows. rows[row := Some cs]) (mbks m)\<rparr>"

lemma set_row_simps [simp]:
  "map_rows (set_row m row cs) = map_rows m" "map_cols (set_row m row cs) = map_cols m"
  "mbks (set_row m row cs) = None \<longleftrightarrow> mbks m = None"
  by (simp_all add: set_row_def)

lemma has_row_set [simp]: "has_row m row cs \<Longrightarrow> has_row (set_row m row cs') r ds \<longleftrightarrow> (if r = row then ds = cs' else has_row m r ds)"
  by (auto simp: has_row_def set_row_def)

lemma set_row_same: "has_row m row cs \<Longrightarrow> set_row m row cs = m"
  by (cases m) (auto simp: has_row_def set_row_def list_update_same_conv)

lemma set_row_twice: "set_row (set_row m row cs) row ds = set_row m row ds"
  by (simp add: set_row_def option.map_comp comp_def)

lemma has_row_fun: "has_row m row cs \<Longrightarrow> has_row m row ds \<Longrightarrow> ds = cs"
  by (auto simp: has_row_def)

lemma bkt_get_row: "has_row m row cs \<Longrightarrow> col < length cs \<Longrightarrow> bkt_get m row col = Inr (cs ! col)"
  by (auto simp: has_row_def bkt_get_def mrow_def)

lemma bkt_set_row: "has_row m row cs \<Longrightarrow> col < length cs \<Longrightarrow> bkt_set m row col c = Inr (set_row m row (cs[col := c]))"
  by (auto simp: has_row_def bkt_set_def set_row_def)

section \<open>Groups of a column\<close>

definition in_col :: "nat \<Rightarrow> nat \<Rightarrow> ('k, 'v) group \<Rightarrow> bool" where
  "in_col C col = (\<lambda>(k, h, vs). h mod C = col)"

text \<open>The groups of a row: in key order, each with the hash of its key.\<close>

definition groups_ok :: "('k, 'v) env \<Rightarrow> ('k \<Rightarrow> nat) \<Rightarrow> ('k, 'v) group list \<Rightarrow> bool" where
  "groups_ok e H G \<longleftrightarrow> cstrict (keycmp e) (map fst G) \<and> (\<forall>(k, h, vs) \<in> set G. h = H k \<and> vs \<noteq> [])"

text \<open>A partition function that respects the key order.\<close>

definition hash_ok :: "('k, 'v) env \<Rightarrow> ('k \<Rightarrow> nat) \<Rightarrow> bool" where
  "hash_ok e H \<longleftrightarrow> (\<forall>k k'. keycmp e k k' = 0 \<longrightarrow> H k = H k')"

lemma groups_ok_length: "groups_ok e H G \<Longrightarrow> length G \<le> grp_size G"
proof (induction G)
  case (Cons g G)
  then have "groups_ok e H G" "1 \<le> length (snd (snd g))"
    by (auto simp: groups_ok_def Suc_le_eq)
  with Cons.IH show ?case
    by (auto simp: grp_size_def split: prod.splits)
qed simp

lemma hash_okD: "hash_ok e H \<Longrightarrow> keycmp e k k' = 0 \<Longrightarrow> H k = H k'"
  unfolding hash_ok_def by blast

lemma grp_insert_front:
  "\<forall>(k', h', vs) \<in> set G. cmp k k' < 0 \<Longrightarrow> grp_insert cmp cp k h v G = (cp k, h, [v]) # G"
  by (cases G) auto

context mr_env
begin

lemma grp_insert_keys:
  "set (map fst (grp_insert (keycmp e) cp k h v G)) \<subseteq> insert (cp k) (set (map fst G))"
  by (induction "keycmp e" cp k h v G rule: grp_insert.induct) auto

lemma filter_grp_insert:
  assumes "cstrict (keycmp e) (map fst G)" "\<forall>(k', h', vs) \<in> set G. keycmp e k k' = 0 \<longrightarrow> h' = h"
  shows "filter (\<lambda>(k, h, vs). p h) (grp_insert (keycmp e) cp k h v G) =
    (if p h then grp_insert (keycmp e) cp k h v (filter (\<lambda>(k, h, vs). p h) G) else filter (\<lambda>(k, h, vs). p h) G)"
  using assms
proof (induction G)
  case (Cons g G)
  obtain k' h' vs where g: "g = (k', h', vs)"
    by (cases g)
  show ?case
  proof (cases "keycmp e k k' < 0")
    case True
    have "keycmp e k (fst x) < 0" if "x \<in> set (g # G)" for x
      using Cons.prems(1) True that kc.cmp_less_trans [OF True] by (auto simp: g)
    then have "\<forall>(k'', h'', vs) \<in> set (filter (\<lambda>(k, h, vs). p h) (g # G)). keycmp e k k'' < 0"
      by (metis (no_types, lifting) case_prodI2 filter_is_subset fst_conv subsetD)
    from grp_insert_front [where cmp = "keycmp e", OF this] True g show ?thesis
      by simp
  next
    case False
    with Cons g show ?thesis
      by (cases "keycmp e k k' = 0") auto
  qed
qed simp

lemma groups_ok_put:
  assumes "groups_ok e H G" "put_ok e (k, v, l, h)" "h = H k" "hash_ok e H"
  shows "groups_ok e H (put_group e (k, v, l, h) G)"
proof -
  have c: "keycopy_ok e k l"
    using assms(2) by (simp add: put_ok_def)
  have H: "H (copy_key e k l) = H k"
    by (rule hash_okD [OF assms(4) copy_key_cmp(1) [OF c]])
  have "cstrict (keycmp e) (map fst (grp_insert (keycmp e) (\<lambda>k. copy_key e k l) k h v G)) \<and>
      (\<forall>(k', h', vs) \<in> set (grp_insert (keycmp e) (\<lambda>k. copy_key e k l) k h v G). h' = H k' \<and> vs \<noteq> [])"
    if "groups_ok e H G" for G
    using that
  proof (induction G)
    case (Cons g G)
    obtain k' h' vs where g: "g = (k', h', vs)"
      by (cases g)
    have G: "groups_ok e H G" and gt: "\<forall>x \<in> set (map fst G). keycmp e k' x < 0"
      using Cons.prems g by (auto simp: groups_ok_def)
    show ?case
    proof (cases "keycmp e k k' < 0")
      case True
      then have "\<forall>x \<in> set (map fst G). keycmp e k x < 0"
        using gt kc.cmp_less_trans by blast
      with True Cons.prems g H assms(3) c show ?thesis
        by (auto simp: groups_ok_def copy_key_cmp_left)
    next
      case False
      have "keycmp e k' x < 0" if "0 < keycmp e k k'"
        "x \<in> set (map fst (grp_insert (keycmp e) (\<lambda>k. copy_key e k l) k h v G))" for x
      proof -
        have "x = copy_key e k l \<or> x \<in> set (map fst G)"
          using grp_insert_keys [of "\<lambda>k. copy_key e k l" k h v G] that(2) by blast
        moreover have "keycmp e k' (copy_key e k l) < 0"
          using that(1) by (simp add: copy_key_cmp_right [OF c] kc.cmp_sym')
        ultimately show ?thesis
          using gt by blast
      qed
      with False Cons.IH [OF G] Cons.prems g show ?thesis
        by (auto simp: groups_ok_def)
    qed
  qed (use H assms(3) in \<open>simp add: groups_ok_def\<close>)
  from this [OF assms(1)] show ?thesis
    by (simp add: groups_ok_def put_group_def)
qed

lemma filter_put:
  assumes "groups_ok e H G" "hash_ok e H" "h = H k"
  shows "filter (in_col C col) (put_group e (k, v, l, h) G) =
    (if h mod C = col then put_group e (k, v, l, h) (filter (in_col C col) G) else filter (in_col C col) G)"
proof -
  have "\<forall>(k', h', vs) \<in> set G. keycmp e k k' = 0 \<longrightarrow> h' = h"
    using assms hash_okD [OF assms(2), of k] by (auto simp: groups_ok_def)
  from filter_grp_insert [OF _ this, of "\<lambda>h. h mod C = col" "\<lambda>k. copy_key e k l" v] assms(1) show ?thesis
    by (simp add: groups_ok_def in_col_def put_group_def)
qed

end

end
