(* ===== verification/Bktmgr_Correct.thy ===== *)
theory Bktmgr_Correct
  imports Bktmgr
begin

text \<open>
  What the bucket managers keep: the matrix represents, row by row, the groups of everything that
  was put into it, the bucket of a column holding the groups whose hash belongs to the column.
  Putting a pair, rehashing the backup and reducing a column are stated on this view, once for
  every handler that keeps the contract \<open>grouped\<close>.
\<close>

section \<open>Reducing groups\<close>

definition gvals :: "('k, 'v) env \<Rightarrow> 'k \<Rightarrow> ('k, 'v) group list list \<Rightarrow> 'v list" where
  "gvals e k Gs = concat (map (\<lambda>G. concat (map (\<lambda>g. snd (snd g)) (filter (\<lambda>g. keycmp e k (fst g) = 0) G))) Gs)"

definition reduced_groups :: "('k, 'v) env \<Rightarrow> ('v list \<Rightarrow> 'm) \<Rightarrow> ('k, 'v) group list list \<Rightarrow> ('k, 'v) emit list \<Rightarrow> bool" where
  "reduced_groups e M Gs out \<longleftrightarrow> (\<exists>ks outs. out = concat outs \<and>
     list_all2 (\<lambda>k. red_out e M k (gvals e k Gs)) ks outs \<and> cstrict (keycmp e) ks \<and>
     (\<forall>k \<in> set ks. \<exists>G \<in> set Gs. \<exists>g \<in> set G. fst g = k) \<and>
     (\<forall>G \<in> set Gs. \<forall>g \<in> set G. \<exists>k \<in> set ks. keycmp e k (fst g) = 0))"

lemma red_out_cong: "M vs = M vs' \<Longrightarrow> red_out e M k vs out = red_out e M k vs' out"
  by (simp add: red_out_def split: option.split)

lemma grps_of_keys: "grps_of e M xs G \<Longrightarrow> map kvs_key xs = map fst G"
  unfolding grps_of_def by (induction rule: list_all2_induct) (auto simp: grp_of_def)

lemma rows_keys:
  assumes "list_all2 (grps_of e M) R Gs"
  shows "map (map kvs_key) R = map (map fst) Gs"
  using assms by (induction rule: list_all2_induct) (auto dest: grps_of_keys)

lemma rows_keys_ex:
  assumes "list_all2 (grps_of e M) R Gs"
  shows "(\<exists>r \<in> set R. \<exists>x \<in> set r. P (kvs_key x)) \<longleftrightarrow> (\<exists>G \<in> set Gs. \<exists>g \<in> set G. P (fst g))"
proof -
  have "(\<exists>r \<in> set R. \<exists>x \<in> set r. P (kvs_key x)) \<longleftrightarrow> (\<exists>ks \<in> set (map (map kvs_key) R). \<exists>k \<in> set ks. P k)"
    by simp
  also have "\<dots> \<longleftrightarrow> (\<exists>G \<in> set Gs. \<exists>g \<in> set G. P (fst g))"
    unfolding rows_keys [OF assms] by simp
  finally show ?thesis .
qed

context value_summary
begin

lemma row_vals:
  assumes "grps_of e M xs G"
  shows "M (concat (map kvs_content (filter (at_key e k) xs))) =
    M (concat (map (\<lambda>g. snd (snd g)) (filter (\<lambda>g. keycmp e k (fst g) = 0) G)))"
  using assms unfolding grps_of_def
proof (induction rule: list_all2_induct)
  case (Cons x xs g G)
  obtain k' h vs where g: "g = (k', h, vs)"
    by (cases g)
  with Cons.hyps(1) have "kvs_key x = k'" "M (kvs_content x) = M vs"
    by (auto simp: grp_of_def)
  with Cons.IH g show ?case
    by (auto simp: at_key_def intro: M_append)
qed simp

lemma vals_at_groups:
  assumes "list_all2 (grps_of e M) R Gs"
  shows "M (vals_at e k R) = M (gvals e k Gs)"
  using assms unfolding vals_at_def gvals_def
  by (induction rule: list_all2_induct) (auto intro: M_append row_vals)

lemma reduced_reduced_groups:
  assumes "list_all2 (grps_of e M) R Gs"
  shows "reduced e M R out \<longleftrightarrow> reduced_groups e M Gs out"
proof -
  have 1: "(\<lambda>k. red_out e M k (vals_at e k R)) = (\<lambda>k. red_out e M k (gvals e k Gs))"
    by (intro ext red_out_cong vals_at_groups assms)
  have 2: "(\<exists>r \<in> set R. \<exists>x \<in> set r. kvs_key x = k) \<longleftrightarrow> (\<exists>G \<in> set Gs. \<exists>g \<in> set G. fst g = k)" for k
    by (rule rows_keys_ex [OF assms])
  have 3: "(\<forall>r \<in> set R. \<forall>x \<in> set r. \<exists>k \<in> set ks. keycmp e k (kvs_key x) = 0) \<longleftrightarrow>
      (\<forall>G \<in> set Gs. \<forall>g \<in> set G. \<exists>k \<in> set ks. keycmp e k (fst g) = 0)" for ks
    using rows_keys_ex [OF assms, of "\<lambda>x. \<not> (\<exists>k \<in> set ks. keycmp e k x = 0)"] by blast
  show ?thesis
    unfolding reduced_def reduced_groups_def 1 2 3 ..
qed

lemma rows_len_groups:
  assumes "list_all2 (grps_of e M) R Gs"
  shows "rows_len R \<le> sum_list (map grp_size Gs)"
proof -
  have "sum_list (map kvs_len xs) \<le> grp_size G" if "grps_of e M xs G" for xs G
    using that unfolding grps_of_def
    by (induction rule: list_all2_induct) (auto simp: grp_of_def split: prod.splits)
  with assms show ?thesis
    by (induction rule: list_all2_induct) (auto intro: add_mono)
qed

lemma grps_of_elem_ok: "grps_of e M xs G \<Longrightarrow> x \<in> set xs \<Longrightarrow> elem_ok e x"
  unfolding grps_of_def elem_ok_def by (induction rule: list_all2_induct) (auto simp: grp_of_def)

end

section \<open>Inserting a group that was not there\<close>

lemma grps_of_append2:
  "grps_of e M xs (A @ B) \<longleftrightarrow> (\<exists>xa xb. xs = xa @ xb \<and> grps_of e M xa A \<and> grps_of e M xb B)"
  unfolding grps_of_def by (auto simp: list_all2_append2 dest: list_all2_lengthD)

lemma grps_of_keys_ball:
  assumes "grps_of e M xs G" "\<forall>g \<in> set G. P (fst g)"
  shows "\<forall>x \<in> set xs. P (kvs_key x)"
  using assms unfolding grps_of_def by (induction rule: list_all2_induct) (auto simp: grp_of_def)

context mr_env
begin

lemma groups_distinct: "cstrict (keycmp e) (map fst G) \<Longrightarrow> distinct G"
  by (induction G) auto

lemma ins_kvs_groups:
  assumes G: "cstrict (keycmp e) (map fst G)" "g \<in> set G" "\<not> Q g"
    and x: "grp_of e M x g" and xs: "grps_of e M xs (filter Q G)"
  shows "\<exists>ys. list_ins_kvs e x xs = Inr ys \<and> grps_of e M ys (filter (\<lambda>g'. Q g' \<or> g' = g) G)"
proof -
  obtain A B where AB: "G = A @ g # B"
    using G(2) by (auto dest: split_list)
  have key: "kvs_key x = fst g"
    using x by (auto simp: grp_of_def split: prod.splits)
  have lt: "\<forall>a \<in> set A. keycmp e (fst a) (fst g) < 0" and gt: "\<forall>b \<in> set B. keycmp e (fst g) (fst b) < 0"
    using G(1) by (auto simp: AB cstrict_append)
  from xs AB G(3) obtain xa xb where xab: "xs = xa @ xb" "grps_of e M xa (filter Q A)" "grps_of e M xb (filter Q B)"
    by (auto simp: grps_of_append2)
  have "\<forall>y \<in> set xa. keycmp e (kvs_key y) (fst g) < 0"
    by (rule grps_of_keys_ball [OF xab(2), of "\<lambda>k. keycmp e k (fst g) < 0"]) (use lt in auto)
  moreover have "\<forall>y \<in> set xb. keycmp e (fst g) (kvs_key y) < 0"
    by (rule grps_of_keys_ball [OF xab(3), of "\<lambda>k. keycmp e (fst g) k < 0"]) (use gt in auto)
  ultimately have ins: "list_ins_kvs e x xs = Inr (xa @ x # xb)"
    unfolding xab(1) by (intro list_ins_kvs_miss) (auto simp: keyvals_cmp_def key kc.cmp_sym')
  have "g \<notin> set A" "g \<notin> set B"
    using lt gt by auto
  then have "filter (\<lambda>g'. Q g' \<or> g' = g) A = filter Q A" "filter (\<lambda>g'. Q g' \<or> g' = g) B = filter Q B"
    by (auto intro!: filter_cong)
  then have "filter (\<lambda>g'. Q g' \<or> g' = g) G = filter Q A @ g # filter Q B"
    by (simp add: AB)
  moreover have "grps_of e M (xa @ x # xb) (filter Q A @ g # filter Q B)"
    unfolding grps_of_append2 using xab(2,3) x by (intro exI [of _ xa] exI [of _ "x # xb"]) simp
  ultimately show ?thesis
    using ins by auto
qed

end

section \<open>The matrix represents groups\<close>

text \<open>The columns of \<open>S\<close> are still in use; the others have been reduced.\<close>

context grouped
begin

definition bkt_rep :: "'c \<Rightarrow> ('k, 'v) group list \<Rightarrow> bool" where
  "bkt_rep c G \<longleftrightarrow> inv c \<and> grps_of e M (elems c) G"

definition row_rep :: "nat set \<Rightarrow> nat \<Rightarrow> 'c list \<Rightarrow> (('k, 'v) group \<Rightarrow> bool) \<Rightarrow> ('k, 'v) group list \<Rightarrow> bool" where
  "row_rep S C cs Q G \<longleftrightarrow> length cs = C \<and>
     (\<forall>col < C. col \<in> S \<longrightarrow> bkt_rep (cs ! col) (filter (\<lambda>g. Q g \<and> in_col C col g) G))"

definition mapper_rep :: "nat set \<Rightarrow> 'c mapper \<Rightarrow> ('k, 'v) group list list \<Rightarrow> bool" where
  "mapper_rep S m Gs \<longleftrightarrow> map_rows m = length Gs \<and> 0 < map_cols m \<and> mbks m \<noteq> None \<and>
     (\<forall>row < length Gs. \<exists>cs. has_row m row cs \<and> row_rep S (map_cols m) cs (\<lambda>_. True) (Gs ! row))"

lemma bkt_rep_init: "bkt_rep (pch_init ph) []"
  by (simp add: bkt_rep_def inv_init elems_init)

lemma mapper_rep_init:
  "0 < cols \<Longrightarrow> mapper_rep S (mb_mapper (mbm_mbks_init ph rows cols st)) (replicate rows [])"
  by (simp add: mapper_rep_def mbm_mbks_init_def has_row_def row_rep_def bkt_rep_init)

lemma mapper_rep_set:
  assumes "mapper_rep S m Gs" "row < length Gs" "row_rep S (map_cols m) cs (\<lambda>_. True) G"
  shows "mapper_rep S (set_row m row cs) (Gs[row := G])"
proof -
  obtain ds where "has_row m row ds"
    using assms(1,2) by (auto simp: mapper_rep_def)
  with assms show ?thesis
    by (auto simp: mapper_rep_def nth_list_update)
qed

subsection \<open>Putting a pair\<close>

lemma row_rep_put:
  assumes "row_rep UNIV C cs (\<lambda>_. True) G" "groups_ok e H G" "hash_ok e H" "h = H k" "h mod C < C"
    and "bkt_rep c (put_group e (k, v, l, h) (filter (in_col C (h mod C)) G))"
  shows "row_rep UNIV C (cs[h mod C := c]) (\<lambda>_. True) (put_group e (k, v, l, h) G)"
  using assms filter_put [OF assms(2,3,4)] by (auto simp: row_rep_def nth_list_update)

lemma map_put_ok:
  assumes m: "mapper_rep UNIV (mb_mapper st) Gs" "row < length Gs" "row < length est"
    and G: "groups_ok e H (Gs ! row)" "hash_ok e H" "grp_size (Gs ! row) < 2 ^ 31"
    and p: "put_ok e (k, v, l, h)" "h = H k"
  shows "succeeds (mbm_map_put ph row k v l h (st, est)) (\<lambda>(st', est').
    mapper_rep UNIV (mb_mapper st') (Gs[row := put_group e (k, v, l, h) (Gs ! row)]) \<and>
    mb_bak st' = mb_bak st \<and> map_cols (mb_mapper st') = map_cols (mb_mapper st) \<and>
    length est' = length est)"
proof -
  let ?m = "mb_mapper st" and ?G = "Gs ! row"
  let ?col = "h mod map_cols ?m"
  obtain cs where cs: "has_row ?m row cs" "row_rep UNIV (map_cols ?m) cs (\<lambda>_. True) ?G"
    using m(1,2) by (auto simp: mapper_rep_def)
  have C: "0 < map_cols ?m" "mbks ?m \<noteq> None"
    using m(1) by (simp_all add: mapper_rep_def)
  then have col: "?col < length cs" "?col < map_cols ?m"
    using cs(2) by (simp_all add: row_rep_def)
  let ?F = "filter (in_col (map_cols ?m) ?col) ?G"
  have b: "inv (cs ! ?col)" "grps_of e M (elems (cs ! ?col)) ?F"
    using cs(2) col by (auto simp: row_rep_def bkt_rep_def)
  have "grp_size ?F \<le> grp_size ?G"
    by (auto simp: grp_size_def intro!: sum_list_filter_le_nat)
  then obtain c b' where c: "pch_insert_kv ph (cs ! ?col) k v l h = Inr (c, b')" "bkt_rep c (put_group e (k, v, l, h) ?F)"
    using insert_groups [OF b] G(3) p(1) by (fastforce simp: put_ok_def bkt_rep_def elim!: succeedsE)
  have "row_rep UNIV (map_cols ?m) (cs[?col := c]) (\<lambda>_. True) (put_group e (k, v, l, h) ?G)"
    by (rule row_rep_put [OF cs(2) G(1,2) p(2) col(2) c(2)])
  from mapper_rep_set [OF m(1,2) this] show ?thesis
    using C c(1) bkt_get_row [OF cs(1) col(1)] bkt_set_row [OF cs(1) col(1)] m(3)
    by (simp add: mbm_map_put_def Let_def bkt_col_def est_row_def)
qed

subsection \<open>Rehashing the backup\<close>

lemma map_put_kvs_ok:
  assumes m: "has_row m row cs" "row_rep UNIV (map_cols m) cs Q G" "0 < map_cols m"
    and G: "cstrict (keycmp e) (map fst G)" "g \<in> set G" "\<not> Q g" "grp_of e M x g" "length G \<le> 2 ^ 31"
  shows "\<exists>cs'. map_put_kvs ph row m x = Inr (set_row m row cs') \<and>
    row_rep UNIV (map_cols m) cs' (\<lambda>g'. Q g' \<or> g' = g) G"
proof -
  let ?C = "map_cols m"
  let ?col = "kvs_hash x mod map_cols m"
  have col: "?col < ?C" "?col < length cs" and in_x: "in_col ?C col g \<longleftrightarrow> col = ?col" for col
    using m G(4) by (auto simp: row_rep_def grp_of_def in_col_def split: prod.splits)
  let ?Q = "\<lambda>g. Q g \<and> in_col ?C ?col g"
  have b: "inv (cs ! ?col)" "grps_of e M (elems (cs ! ?col)) (filter ?Q G)"
    using m(2) col by (auto simp: row_rep_def bkt_rep_def)
  obtain ys where ys: "list_ins_kvs e x (elems (cs ! ?col)) = Inr ys"
      "grps_of e M ys (filter (\<lambda>g'. ?Q g' \<or> g' = g) G)"
    using ins_kvs_groups [OF G(1,2) _ G(4) b(2)] G(3) by auto
  have "length (filter ?Q G) < length G"
    using G(2,3) by (intro length_filter_less) auto
  then have "length (elems (cs ! ?col)) < 2 ^ 31"
    using grps_of_length [OF b(2)] G(5) by simp
  from ins_kvs_elems [OF b(1) this ys(1)] obtain c where c: "pch_insert_kvs ph (cs ! ?col) x = Inr c" "inv c" "elems c = ys"
    by (auto elim!: succeedsE)
  have same: "filter (\<lambda>g'. (Q g' \<or> g' = g) \<and> in_col ?C col g') G =
      (if col = ?col then filter (\<lambda>g'. ?Q g' \<or> g' = g) G else filter (\<lambda>g. Q g \<and> in_col ?C col g) G)" for col
    using in_x by (auto intro!: filter_cong)
  have "row_rep UNIV ?C (cs[?col := c]) (\<lambda>g'. Q g' \<or> g' = g) G"
    using m(2) c(2,3) ys(2) col same by (auto simp: row_rep_def bkt_rep_def nth_list_update)
  then show ?thesis
    using m c(1) bkt_get_row [OF m(1) col(2)] bkt_set_row [OF m(1) col(2)]
    by (auto simp: map_put_kvs_def bkt_col_def)
qed

lemma rehash_pairs_ok:
  assumes "it_ok c i" "grps_of e M (rest c i) gs" "fr c" "length gs < fuel"
    and "has_row m row cs" "row_rep UNIV (map_cols m) cs Q G" "0 < map_cols m"
    and "cstrict (keycmp e) (map fst G)" "distinct gs" "\<forall>g \<in> set gs. g \<in> set G \<and> \<not> Q g" "length G \<le> 2 ^ 31"
  shows "\<exists>c' cs'. rehash_pairs ph row fuel c i m = Inr (c', set_row m row cs') \<and> fr c' \<and>
    row_rep UNIV (map_cols m) cs' (\<lambda>g. Q g \<or> g \<in> set gs) G"
  using assms
proof (induction fuel arbitrary: c i gs m cs Q)
  case (Suc fuel)
  show ?case
  proof (cases gs)
    case Nil
    then have "rest c i = []"
      using Suc.prems(2) by simp
    then have "pch_iter_next_kvs ph c i True = Inr None"
      by (rule next_nil [OF Suc.prems(1)])
    moreover have "set_row m row cs = m"
      using Suc.prems(5) by (rule set_row_same)
    ultimately show ?thesis
      using Suc.prems(3,6) Nil by (auto intro!: exI [of _ cs])
  next
    case (Cons g gs')
    then obtain x xs where x: "rest c i = x # xs" "grp_of e M x g" "grps_of e M xs gs'"
      using Suc.prems(2) by (cases "rest c i") auto
    obtain c' i' where n: "pch_iter_next_kvs ph c i True = Inr (Some (x, c', i'))" "it_ok c' i'" "rest c' i' = xs"
      using next_cons [OF Suc.prems(1) x(1), of True] by (auto elim!: succeedsE split: option.splits)
    have fr: "fr c'"
      by (rule next_fr [OF Suc.prems(3) n(1)])
    obtain cs' where cs': "map_put_kvs ph row m x = Inr (set_row m row cs')"
        "row_rep UNIV (map_cols m) cs' (\<lambda>g'. Q g' \<or> g' = g) G"
      using map_put_kvs_ok [OF Suc.prems(5,6,7,8) _ _ x(2) Suc.prems(11)] Suc.prems(10) Cons by auto
    have row: "has_row (set_row m row cs') row cs'"
      using Suc.prems(5) by simp
    have "\<exists>c'' cs''. rehash_pairs ph row fuel c' i' (set_row m row cs') = Inr (c'', set_row (set_row m row cs') row cs'') \<and>
        fr c'' \<and> row_rep UNIV (map_cols (set_row m row cs')) cs'' (\<lambda>g'. (Q g' \<or> g' = g) \<or> g' \<in> set gs') G"
      by (rule Suc.IH [OF n(2)]) (use fr row cs'(2) Suc.prems x(3) n(3) Cons in auto)
    then show ?thesis
      using n(1) cs'(1) Cons by (auto simp: set_row_twice disj_ac)
  qed
qed simp

lemma bkt_rehash_ok:
  assumes c: "bkt_rep c gs" and m: "has_row m row cs" "row_rep UNIV (map_cols m) cs Q G" "0 < map_cols m"
    and G: "cstrict (keycmp e) (map fst G)" "distinct gs" "\<forall>g \<in> set gs. g \<in> set G \<and> \<not> Q g" "length G \<le> 2 ^ 31"
  shows "\<exists>c' cs'. bkt_rehash ph row c m = Inr (c', set_row m row cs') \<and>
    row_rep UNIV (map_cols m) cs' (\<lambda>g. Q g \<or> g \<in> set gs) G"
proof -
  have inv: "inv c" and gs: "grps_of e M (elems c) gs"
    using c by (auto simp: bkt_rep_def)
  have len: "pch_get_len ph c = length gs"
    using len_elems [OF inv] grps_of_length [OF gs] by simp
  obtain r where r: "pch_iter_begin ph c = Inr r"
      "case r of None \<Rightarrow> elems c = [] | Some i \<Rightarrow> it_ok c i \<and> rest c i = elems c"
    using begin_elems [OF inv] by (auto elim!: succeedsE)
  have "\<exists>c' cs'. (case r of None \<Rightarrow> Inr (c, m) | Some i \<Rightarrow> rehash_pairs ph row (Suc (pch_get_len ph c)) c i m) =
      Inr (c', set_row m row cs') \<and> fr c' \<and> row_rep UNIV (map_cols m) cs' (\<lambda>g. Q g \<or> g \<in> set gs) G"
  proof (cases r)
    case None
    then have "gs = []"
      using r(2) gs by simp
    then show ?thesis
      using None m inv_fr [OF inv] set_row_same [OF m(1)] by (auto intro!: exI [of _ cs])
  next
    case (Some i)
    have "\<exists>c' cs'. rehash_pairs ph row (Suc (length gs)) c i m = Inr (c', set_row m row cs') \<and> fr c' \<and>
        row_rep UNIV (map_cols m) cs' (\<lambda>g. Q g \<or> g \<in> set gs) G"
      by (rule rehash_pairs_ok) (use r(2) Some gs inv_fr [OF inv] m G in auto)
    then show ?thesis
      by (simp only: Some len option.case)
  qed
  then obtain c' cs' where c': "(case r of None \<Rightarrow> Inr (c, m) | Some i \<Rightarrow> rehash_pairs ph row (Suc (pch_get_len ph c)) c i m) =
      Inr (c', set_row m row cs')" "fr c'" "row_rep UNIV (map_cols m) cs' (\<lambda>g. Q g \<or> g \<in> set gs) G"
    by blast
  obtain c'' where "pch_shallow_free ph c' = Inr c''"
    using free_ok [OF c'(2)] by (auto elim!: succeedsE)
  then have "bkt_rehash ph row c m = Inr (c'', set_row m row cs')"
    by (simp only: bkt_rehash_def r(1) c'(1) res_bind_simps prod.case)
  with c'(3) show ?thesis
    by blast
qed

definition hcol :: "nat \<Rightarrow> ('k, 'v) group \<Rightarrow> nat" where
  "hcol C g = fst (snd g) mod C"

lemma in_col_hcol: "in_col C col g \<longleftrightarrow> hcol C g = col"
  by (simp add: in_col_def hcol_def split: prod.splits)

definition rehashed :: "('c, 'o) mbkts \<Rightarrow> nat \<Rightarrow> ('k, 'v) group list \<Rightarrow> nat \<Rightarrow> ('c, 'o) mbkts \<Rightarrow> bool" where
  "rehashed st row G i st' \<longleftrightarrow> (\<exists>cs bs.
     st' = st\<lparr>mb_mapper := set_row (mb_mapper st) row cs, mb_bak := set_row (mb_bak st) row bs\<rparr> \<and>
     row_rep UNIV (map_cols (mb_mapper st)) cs (\<lambda>g. hcol (map_cols (mb_bak st)) g < i) G \<and>
     length bs = map_cols (mb_bak st) \<and>
     (\<forall>j. i \<le> j \<longrightarrow> j < length bs \<longrightarrow> bkt_rep (bs ! j) (filter (in_col (length bs) j) G)))"

lemma rehash_step:
  assumes rows: "has_row (mb_mapper st) row cs0" "has_row (mb_bak st) row bs0" "0 < map_cols (mb_mapper st)"
    and G: "cstrict (keycmp e) (map fst G)" "length G \<le> 2 ^ 31"
    and i: "i < map_cols (mb_bak st)" "rehashed st row G i st1"
  shows "succeeds (res_bind (bkt_get (mb_bak st1) row i) (\<lambda>c.
       res_bind (bkt_rehash ph row c (mb_mapper st1)) (\<lambda>(c', m').
       res_bind (bkt_set (mb_bak st1) row i c') (\<lambda>b'.
       Inr (st1\<lparr>mb_mapper := m', mb_bak := b'\<rparr>))))) (rehashed st row G (Suc i))"
proof -
  let ?C = "map_cols (mb_mapper st)" and ?B = "map_cols (mb_bak st)"
  obtain cs bs where s: "st1 = st\<lparr>mb_mapper := set_row (mb_mapper st) row cs, mb_bak := set_row (mb_bak st) row bs\<rparr>"
      "row_rep UNIV ?C cs (\<lambda>g. hcol ?B g < i) G" "length bs = ?B"
      "\<forall>j. i \<le> j \<longrightarrow> j < length bs \<longrightarrow> bkt_rep (bs ! j) (filter (in_col (length bs) j) G)"
    using i(2) by (auto simp: rehashed_def)
  have row: "has_row (set_row (mb_mapper st) row cs) row cs" "has_row (set_row (mb_bak st) row bs) row bs"
    using rows by auto
  have dist: "distinct G"
    by (rule groups_distinct [OF G(1)])
  let ?gs = "filter (in_col ?B i) G"
  have "\<exists>c' cs'. bkt_rehash ph row (bs ! i) (set_row (mb_mapper st) row cs) =
      Inr (c', set_row (set_row (mb_mapper st) row cs) row cs') \<and>
      row_rep UNIV (map_cols (set_row (mb_mapper st) row cs)) cs' (\<lambda>g. hcol ?B g < i \<or> g \<in> set ?gs) G"
    by (rule bkt_rehash_ok) (use s i(1) rows(3) row(1) G dist in \<open>auto simp: in_col_hcol\<close>)
  then obtain c' cs' where c': "bkt_rehash ph row (bs ! i) (set_row (mb_mapper st) row cs) = Inr (c', set_row (mb_mapper st) row cs')"
      "row_rep UNIV ?C cs' (\<lambda>g. hcol ?B g < i \<or> g \<in> set ?gs) G"
    by (auto simp: set_row_twice)
  have "filter (\<lambda>g. (hcol ?B g < i \<or> g \<in> set ?gs) \<and> in_col ?C col g) G =
      filter (\<lambda>g. hcol ?B g < Suc i \<and> in_col ?C col g) G" for col
    by (rule filter_cong) (auto simp: in_col_hcol)
  with c'(2) have "row_rep UNIV ?C cs' (\<lambda>g. hcol ?B g < Suc i) G"
    by (simp add: row_rep_def)
  then have "rehashed st row G (Suc i) (st\<lparr>mb_mapper := set_row (mb_mapper st) row cs',
      mb_bak := set_row (mb_bak st) row (bs[i := c'])\<rparr>)"
    unfolding rehashed_def using s(3,4) by (intro exI [of _ cs'] exI [of _ "bs[i := c']"]) simp
  then show ?thesis
    using c'(1) bkt_get_row [OF row(2), of i] bkt_set_row [OF row(2), of i c'] i(1) s(1,3)
    by (simp add: set_row_twice)
qed

lemma rehash_row_ok:
  assumes m: "mapper_rep UNIV (mb_mapper st) Gs" "row < length Gs" "Gs ! row = []"
    and b: "has_row (mb_bak st) row bs" "row_rep UNIV (map_cols (mb_bak st)) bs (\<lambda>_. True) G" "0 < map_cols (mb_bak st)"
    and G: "cstrict (keycmp e) (map fst G)" "length G \<le> 2 ^ 31"
  shows "succeeds (rehash_row ph row st) (\<lambda>st'. \<exists>cs bs'.
    st' = st\<lparr>mb_mapper := set_row (mb_mapper st) row cs, mb_bak := set_row (mb_bak st) row bs'\<rparr> \<and>
    mapper_rep UNIV (mb_mapper st') (Gs[row := G]))"
proof -
  obtain cs0 where cs0: "has_row (mb_mapper st) row cs0" "row_rep UNIV (map_cols (mb_mapper st)) cs0 (\<lambda>_. True) []"
    using m by (auto simp: mapper_rep_def)
  have C: "0 < map_cols (mb_mapper st)"
    using m(1) by (simp add: mapper_rep_def)
  have "rehashed st row G 0 st"
    unfolding rehashed_def using cs0 b set_row_same [OF cs0(1)] set_row_same [OF b(1)]
    by (intro exI [of _ cs0] exI [of _ bs]) (simp add: row_rep_def)
  then have "succeeds (rehash_row ph row st) (rehashed st row G (map_cols (mb_bak st)))"
    unfolding rehash_row_def by (rule for_loop_inv) (rule rehash_step [OF cs0(1) b(1) C G])
  then show ?thesis
  proof (rule succeeds_mono)
    fix st'
    assume "rehashed st row G (map_cols (mb_bak st)) st'"
    then obtain cs bs' where s: "st' = st\<lparr>mb_mapper := set_row (mb_mapper st) row cs, mb_bak := set_row (mb_bak st) row bs'\<rparr>"
        "row_rep UNIV (map_cols (mb_mapper st)) cs (\<lambda>g. hcol (map_cols (mb_bak st)) g < map_cols (mb_bak st)) G"
      by (auto simp: rehashed_def)
    then have "row_rep UNIV (map_cols (mb_mapper st)) cs (\<lambda>_. True) G"
      using b(3) by (simp add: hcol_def)
    from mapper_rep_set [OF m(1,2) this] s(1) show "\<exists>cs bs'.
        st' = st\<lparr>mb_mapper := set_row (mb_mapper st) row cs, mb_bak := set_row (mb_bak st) row bs'\<rparr> \<and>
        mapper_rep UNIV (mb_mapper st') (Gs[row := G])"
      by auto
  qed
qed

text \<open>The backup of a row is moved into the empty row of the new matrix; the backups of the other
  rows stay.\<close>

definition moved :: "('c, 'o) mbkts \<Rightarrow> nat \<Rightarrow> ('k, 'v) group list list \<Rightarrow> ('c, 'o) mbkts \<Rightarrow> bool" where
  "moved st row Gs st' \<longleftrightarrow> mapper_rep UNIV (mb_mapper st') Gs \<and>
     map_cols (mb_mapper st') = map_cols (mb_mapper st) \<and> map_out st' = map_out st \<and>
     map_cols (mb_bak st') = map_cols (mb_bak st) \<and> mbks (mb_bak st') \<noteq> None \<and>
     (\<forall>r bs. r \<noteq> row \<longrightarrow> has_row (mb_bak st) r bs \<longrightarrow> has_row (mb_bak st') r bs)"

lemma rehash_bak_ok:
  assumes m: "mapper_rep UNIV (mb_mapper st) Gs" "row < length Gs" "Gs ! row = []"
    and b: "has_row (mb_bak st) row bs" "row_rep UNIV (map_cols (mb_bak st)) bs (\<lambda>_. True) G" "0 < map_cols (mb_bak st)"
    and G: "cstrict (keycmp e) (map fst G)" "length G \<le> 2 ^ 31"
  shows "succeeds (mbm_rehash_bak ph row st) (moved st row (Gs[row := G]))"
    and "succeeds (array_rehash_bak ph row st) (moved st row (Gs[row := G]))"
proof -
  obtain rows where rows: "mbks (mb_bak st) = Some rows" "row < length rows" "rows ! row = Some bs"
    using b(1) by (auto simp: has_row_def)
  obtain st' cs bs' where s: "rehash_row ph row st = Inr st'" "mapper_rep UNIV (mb_mapper st') (Gs[row := G])"
      "st' = st\<lparr>mb_mapper := set_row (mb_mapper st) row cs, mb_bak := set_row (mb_bak st) row bs'\<rparr>"
    using rehash_row_ok [OF assms] by (auto elim!: succeedsE)
  have "mbks (mb_bak st') = Some (rows[row := Some bs'])"
    using rows(1) s(3) by (simp add: set_row_def)
  then have "mbm_rehash_bak ph row st = Inr (st'\<lparr>mb_bak := (mb_bak st')\<lparr>mbks := Some (rows[row := None])\<rparr>\<rparr>)"
    using rows s(1) by (simp add: mbm_rehash_bak_def)
  then show "succeeds (mbm_rehash_bak ph row st) (moved st row (Gs[row := G]))"
    using s(2,3) rows(1) by (auto simp: moved_def has_row_def)
  show "succeeds (array_rehash_bak ph row st) (moved st row (Gs[row := G]))"
    using s b(1) rows(1) by (auto simp: array_rehash_bak_def moved_def)
qed

subsection \<open>Reducing a column\<close>

definition row_of :: "'c mapper \<Rightarrow> nat \<Rightarrow> 'c list" where
  "row_of m row = (THE cs. has_row m row cs)"

lemma row_of: "has_row m row cs \<Longrightarrow> row_of m row = cs"
  unfolding row_of_def by (rule the_equality) (auto dest: has_row_fun)

lemma res_map_ok:
  "\<forall>x \<in> set xs. f x = Inr (g x) \<Longrightarrow> res_map f xs = Inr (map g xs)"
  by (induction xs) auto

lemma nodes_ok:
  assumes "mapper_rep S m Gs" "col \<in> S" "col < map_cols m"
  shows "res_map (\<lambda>i. bkt_get m i col) [0..<map_rows m] = Inr (map (\<lambda>i. row_of m i ! col) [0..<length Gs])"
    and "list_all2 bkt_rep (map (\<lambda>i. row_of m i ! col) [0..<length Gs]) (map (filter (in_col (map_cols m) col)) Gs)"
proof -
  have row: "\<exists>cs. has_row m i cs \<and> row_of m i = cs \<and> length cs = map_cols m \<and>
      bkt_rep (cs ! col) (filter (in_col (map_cols m) col) (Gs ! i))" if "i < length Gs" for i
    using assms that row_of by (fastforce simp: mapper_rep_def row_rep_def)
  have "bkt_get m i col = Inr (row_of m i ! col)" if "i < length Gs" for i
    using row [OF that] bkt_get_row [of m i "row_of m i" col] assms(3) by auto
  moreover have "map_rows m = length Gs"
    using assms(1) by (simp add: mapper_rep_def)
  ultimately show "res_map (\<lambda>i. bkt_get m i col) [0..<map_rows m] = Inr (map (\<lambda>i. row_of m i ! col) [0..<length Gs])"
    by (simp add: res_map_ok)
  show "list_all2 bkt_rep (map (\<lambda>i. row_of m i ! col) [0..<length Gs]) (map (filter (in_col (map_cols m) col)) Gs)"
    using row by (auto simp: list_all2_conv_all_nth)
qed

lemma free_col_ok:
  assumes "mapper_rep S m Gs" "col \<in> S" "col < map_cols m"
  shows "succeeds (for_loop (\<lambda>i m. res_bind (bkt_get m i col) (\<lambda>c.
      res_bind (pch_shallow_free ph c) (bkt_set m i col))) (map_rows m) m)
    (\<lambda>m'. mapper_rep (S - {col}) m' Gs \<and> map_cols m' = map_cols m)"
proof -
  define I where "I i m' \<longleftrightarrow> map_rows m' = map_rows m \<and> map_cols m' = map_cols m \<and> mbks m' \<noteq> None \<and>
      (\<forall>row < length Gs. \<exists>cs. has_row m' row cs \<and> row_rep (if row < i then S - {col} else S) (map_cols m) cs (\<lambda>_. True) (Gs ! row))"
    for i m'
  have len: "map_rows m = length Gs"
    using assms(1) by (simp add: mapper_rep_def)
  have "succeeds (for_loop (\<lambda>i m. res_bind (bkt_get m i col) (\<lambda>c.
      res_bind (pch_shallow_free ph c) (bkt_set m i col))) (map_rows m) m) (I (map_rows m))"
  proof (rule for_loop_inv)
    show "I 0 m"
      using assms(1) by (simp add: I_def mapper_rep_def)
    fix i m'
    assume i: "i < map_rows m" and I: "I i m'"
    then obtain cs where cs: "has_row m' i cs" "row_rep S (map_cols m) cs (\<lambda>_. True) (Gs ! i)"
      unfolding I_def len by fastforce
    then have col: "col < length cs" "inv (cs ! col)"
      using assms(2,3) by (auto simp: row_rep_def bkt_rep_def)
    obtain c' where c': "pch_shallow_free ph (cs ! col) = Inr c'"
      using free_ok [OF inv_fr [OF col(2)]] by (auto elim!: succeedsE)
    have "row_rep (S - {col}) (map_cols m) (cs[col := c']) (\<lambda>_. True) (Gs ! i)"
      using cs(2) by (auto simp: row_rep_def)
    then have "\<exists>ds. has_row (set_row m' i (cs[col := c'])) row ds \<and>
        row_rep (if row < Suc i then S - {col} else S) (map_cols m) ds (\<lambda>_. True) (Gs ! row)" if "row < length Gs" for row
    proof (cases "row = i")
      case False
      then have "(if row < Suc i then S - {col} else S) = (if row < i then S - {col} else S)"
        by auto
      then show ?thesis
        using I that False cs(1) by (simp only: I_def has_row_set if_False)
    qed (use cs(1) in simp)
    then have "I (Suc i) (set_row m' i (cs[col := c']))"
      using I by (simp only: I_def set_row_simps) simp
    with c' show "succeeds (res_bind (bkt_get m' i col) (\<lambda>c. res_bind (pch_shallow_free ph c) (bkt_set m' i col))) (I (Suc i))"
      by (simp add: bkt_get_row [OF cs(1) col(1)] bkt_set_row [OF cs(1) col(1)])
  qed
  then show ?thesis
    by (rule succeeds_mono) (use assms(1) in \<open>auto simp: I_def mapper_rep_def\<close>)
qed

lemma reduce_col_ok:
  assumes m: "mapper_rep S m Gs" "col \<in> S" "col < map_cols m"
    and r: "reduces_ok e" "sum_list (map grp_size Gs) \<le> 2 ^ 31"
  shows "completes (reduce_col e ph col m) (\<lambda>(out, m').
    reduced_groups e M (map (filter (in_col (map_cols m) col)) Gs) out \<and>
    mapper_rep (S - {col}) m' Gs \<and> map_cols m' = map_cols m)"
proof -
  let ?ns = "map (\<lambda>i. row_of m i ! col) [0..<length Gs]" and ?F = "map (filter (in_col (map_cols m) col)) Gs"
  note nodes = nodes_ok [OF m]
  have rows: "list_all2 (grps_of e M) (map elems ?ns) ?F" and inv: "\<forall>c \<in> set ?ns. inv c"
    using nodes(2) by (auto simp: list_all2_conv_all_nth bkt_rep_def)
  have ok: "\<forall>c \<in> set ?ns. inv c \<and> (\<forall>x \<in> set (elems c). elem_ok e x)"
    using nodes(2) by (auto simp: list_all2_conv_all_nth bkt_rep_def intro: grps_of_elem_ok)
  have "grp_size (filter p G) \<le> grp_size G" for p G
    by (auto simp: grp_size_def intro!: sum_list_filter_le_nat)
  then have "sum_list (map grp_size ?F) \<le> sum_list (map grp_size Gs)"
    by (auto simp: comp_def intro!: sum_list_mono)
  then have len: "rows_len (map elems ?ns) \<le> 2 ^ 31"
    using rows_len_groups [OF rows] r(2) by linarith
  have "map (length \<circ> elems) ?ns = map (pch_get_len ph) ?ns"
    by (rule map_cong [OF refl]) (use inv len_elems in auto)
  then have fuel: "sum_list (map (length \<circ> elems) ?ns) < Suc (sum_list (map (pch_get_len ph) ?ns))"
    by (simp only: lessI)
  have "completes (reduce_or_groupkvs e (pch_iter_begin ph) (pch_iter_next_kvs ph)
      (Suc (sum_list (map (pch_get_len ph) ?ns))) ?ns) (reduced_groups e M ?F)"
    by (rule completes_mono [OF kvs_reduce.reduce_or_groupkvs_ok [OF kvs_reduce_ph ok r(1) len fuel]])
      (simp only: reduced_reduced_groups [OF rows])
  then show ?thesis
    unfolding reduce_col_def nodes(1)
    using free_col_ok [OF m] by (auto simp: lift_res_def elim!: completes_mono succeedsE)
qed

end

end
