(* ===== verification/Rbkts.thy ===== *)
theory Rbkts
  imports Reduce Psrs
begin

text \<open>
  The reduce buckets (\<^verbatim>\<open>metis/lib/rbktsmgr.c\<close>) and the application's argument and results
  (\<^verbatim>\<open>metis/lib/apphelper.c\<close>). There is one bucket per reduce task; the handler
  \<^verbatim>\<open>rbkt_pch\<close> is the array of pairs, or the array of keys with their values for map-group
  applications. The workers of a merge phase are modelled together, since they meet at barriers.
\<close>

section \<open>Buckets\<close>

datatype rpch = Hkvarr | Hkvslenarr

datatype ('k, 'v) rbkts = Rb_kv "('k, 'v) keyval parr list" | Rb_kvl "('k, 'v) keyvals_len parr list"

text \<open>The optional output order of the application, for either kind of output.\<close>

record ('k, 'v) outcmp =
  out_kv_cmp :: "(('k, 'v) keyval \<Rightarrow> ('k, 'v) keyval \<Rightarrow> int) option"
  out_kvl_cmp :: "(('k, 'v) keyvals_len \<Rightarrow> ('k, 'v) keyvals_len \<Rightarrow> int) option"

text \<open>The C library's \<^verbatim>\<open>qsort\<close>, at the two types it is used with.\<close>

record ('k, 'v) sorts =
  sort_kv :: "(('k, 'v) keyval \<Rightarrow> ('k, 'v) keyval \<Rightarrow> int) \<Rightarrow> ('k, 'v) keyval list \<Rightarrow> ('k, 'v) keyval list"
  sort_kvl :: "(('k, 'v) keyvals_len \<Rightarrow> ('k, 'v) keyvals_len \<Rightarrow> int) \<Rightarrow> ('k, 'v) keyvals_len list
      \<Rightarrow> ('k, 'v) keyvals_len list"
  sort_kvs :: "(('k, 'v) keyvals \<Rightarrow> ('k, 'v) keyvals \<Rightarrow> int) \<Rightarrow> ('k, 'v) keyvals list \<Rightarrow> ('k, 'v) keyvals list"

definition rbkts_init :: "rpch \<Rightarrow> nat \<Rightarrow> ('k, 'v) rbkts" where
  "rbkts_init pch n =
     (case pch of Hkvarr \<Rightarrow> Rb_kv (replicate n kva_init) | Hkvslenarr \<Rightarrow> Rb_kvl (replicate n kvl_init))"

text \<open>The handler of the other kind of output has a null pointer for the operation.\<close>

definition rbkts_emit_kv :: "('k, 'v) env \<Rightarrow> nat \<Rightarrow> 'k \<Rightarrow> 'v \<Rightarrow> ('k, 'v) rbkts \<Rightarrow> ('k, 'v) rbkts res" where
  "rbkts_emit_kv e cur_task key v rb =
     (case rb of
        Rb_kvl _ \<Rightarrow> Inl Null_deref
      | Rb_kv bs \<Rightarrow>
          res_bind (rd bs (int cur_task)) (\<lambda>b.
          res_bind (kva_insert_kv e b key v 0 0) (\<lambda>(b', _).
          res_bind (wr bs (int cur_task) b') (\<lambda>bs'. Inr (Rb_kv bs')))))"

definition rbkts_emit_kvs_len :: "nat \<Rightarrow> 'k \<Rightarrow> 'v vals_ptr \<Rightarrow> nat \<Rightarrow> ('k, 'v) rbkts \<Rightarrow> ('k, 'v) rbkts res" where
  "rbkts_emit_kvs_len cur_task key vals len rb =
     (case rb of
        Rb_kv _ \<Rightarrow> Inl Null_deref
      | Rb_kvl bs \<Rightarrow>
          res_bind (rd bs (int cur_task)) (\<lambda>b.
          res_bind (kvl_insert_kvslen b key vals len) (\<lambda>b'.
          res_bind (wr bs (int cur_task) b') (\<lambda>bs'. Inr (Rb_kvl bs')))))"

fun rbkts_emits :: "('k, 'v) env \<Rightarrow> nat \<Rightarrow> ('k, 'v) emit list \<Rightarrow> ('k, 'v) rbkts \<Rightarrow> ('k, 'v) rbkts res" where
  "rbkts_emits e cur_task [] rb = Inr rb"
| "rbkts_emits e cur_task (Emit_kv k v # xs) rb =
     res_bind (rbkts_emit_kv e cur_task k v rb) (rbkts_emits e cur_task xs)"
| "rbkts_emits e cur_task (Emit_kvs_len k vals n # xs) rb =
     res_bind (rbkts_emit_kvs_len cur_task k vals n rb) (rbkts_emits e cur_task xs)"

definition rbkts_pair_cmp :: "('k, 'v) env \<Rightarrow> ('k, 'v) outcmp \<Rightarrow> ('k, 'v) keyval \<Rightarrow> ('k, 'v) keyval \<Rightarrow> int" where
  "rbkts_pair_cmp e oc p1 p2 =
     (case out_kv_cmp oc of Some f \<Rightarrow> f p1 p2 | None \<Rightarrow> keycmp e (kva_get_key p1) (kva_get_key p2))"

definition rbkts_len_cmp :: "('k, 'v) env \<Rightarrow> ('k, 'v) outcmp \<Rightarrow> ('k, 'v) keyvals_len \<Rightarrow> ('k, 'v) keyvals_len \<Rightarrow> int" where
  "rbkts_len_cmp e oc p1 p2 =
     (case out_kvl_cmp oc of Some f \<Rightarrow> f p1 p2 | None \<Rightarrow> keycmp e (kvl_get_key p1) (kvl_get_key p2))"

section \<open>Merging\<close>

text \<open>One phase: with \<^verbatim>\<open>psrs\<close> all workers sort together, with merge sort each worker merges
  its own buckets.\<close>

fun merge_workers :: "('e \<Rightarrow> 'e \<Rightarrow> int) \<Rightarrow> nat \<Rightarrow> nat \<Rightarrow> 'e parr list \<Rightarrow> 'e parr list res" where
  "merge_workers pcmp ncpus 0 bs = Inr bs"
| "merge_workers pcmp ncpus (Suc n) bs =
     res_bind (merge_workers pcmp ncpus n bs) (\<lambda>bs'. mergesort pcmp bs' ncpus n)"

definition rbkts_merge :: "('k, 'v) env \<Rightarrow> ('k, 'v) outcmp \<Rightarrow> ('k, 'v) sorts \<Rightarrow> bool \<Rightarrow> nat \<Rightarrow> ('k, 'v) rbkts
    \<Rightarrow> ('k, 'v) rbkts res" where
  "rbkts_merge e oc qs use_psrs ncpus rb =
     (case rb of
        Rb_kv bs \<Rightarrow>
          res_bind (if use_psrs then psrs (sort_kv qs) (rbkts_pair_cmp e oc) bs ncpus
                    else merge_workers (rbkts_pair_cmp e oc) ncpus ncpus bs) (\<lambda>bs'. Inr (Rb_kv bs'))
      | Rb_kvl bs \<Rightarrow>
          res_bind (if use_psrs then psrs (sort_kvl qs) (rbkts_len_cmp e oc) bs ncpus
                    else merge_workers (rbkts_len_cmp e oc) ncpus ncpus bs) (\<lambda>bs'. Inr (Rb_kvl bs')))"

text \<open>Concatenating all buckets into the first.\<close>

definition cat_arrays :: "'e parr list \<Rightarrow> 'e parr list res" where
  "cat_arrays bs =
     (if length bs = 1 then Inr bs
      else
        let output = concat (map parr_elems bs);
            freed = map parr_shallow_free bs
        in res_bind (rd freed 0) (\<lambda>b. wr freed 0 (parr_set_elems b output (length output))))"

definition rbkts_cat :: "('k, 'v) rbkts \<Rightarrow> ('k, 'v) rbkts res" where
  "rbkts_cat rb =
     (case rb of
        Rb_kv bs \<Rightarrow> res_bind (cat_arrays bs) (\<lambda>bs'. Inr (Rb_kv bs'))
      | Rb_kvl bs \<Rightarrow> res_bind (cat_arrays bs) (\<lambda>bs'. Inr (Rb_kvl bs')))"

definition has_outcmp :: "('k, 'v) outcmp \<Rightarrow> ('k, 'v) rbkts \<Rightarrow> bool" where
  "has_outcmp oc rb =
     (case rb of Rb_kv _ \<Rightarrow> out_kv_cmp oc \<noteq> None | Rb_kvl _ \<Rightarrow> out_kvl_cmp oc \<noteq> None)"

text \<open>
  Merging and reducing the map output: the pairs are ordered by key only, each worker reduces its
  partition into the bucket of its number, and the buckets are concatenated.
\<close>

definition pair_cmp_keyonly :: "('k, 'v) env \<Rightarrow> ('k, 'v) keyvals \<Rightarrow> ('k, 'v) keyvals \<Rightarrow> int" where
  "pair_cmp_keyonly e p1 p2 = keycmp e (kvsa_get_key p1) (kvsa_get_key p2)"

definition reduce_segments :: "('k, 'v) env \<Rightarrow> ('k, 'v) keyvals parr list \<Rightarrow> ('k, 'v) emit list option res" where
  "reduce_segments e segs =
     reduce_or_groupkvs e (\<lambda>c. Inr (kvsa_iter_begin (Some c))) (kvsa_iter_next_kvs e)
       (Suc (sum_list (map kvsa_get_len segs))) segs"

text \<open>What \<open>reduce_or_groupkv\<close> emits when no callback is given.\<close>

fun gout_emit :: "('k, 'v) gout \<Rightarrow> ('k, 'v) emit list" where
  "gout_emit (Out_emit x) = [x]"
| "gout_emit (Out_group _) = []"

fun gout_group :: "('k, 'v) gout \<Rightarrow> ('k, 'v) keyvals list" where
  "gout_group (Out_group x) = [x]"
| "gout_group (Out_emit _) = []"

text \<open>The map output handed to the merge: arrays of grouped or of ungrouped pairs.\<close>

datatype ('k, 'v) map_colls = Out_kv "('k, 'v) keyval parr list" | Out_kvs "('k, 'v) keyvals parr list"

definition keyval_cmp_keyonly :: "('k, 'v) env \<Rightarrow> ('k, 'v) keyval \<Rightarrow> ('k, 'v) keyval \<Rightarrow> int" where
  "keyval_cmp_keyonly e p1 p2 = keycmp e (kva_get_key p1) (kva_get_key p2)"

definition reduce_pairs :: "('k, 'v) env \<Rightarrow> ('k, 'v) sorts \<Rightarrow> ('k, 'v) keyval parr list \<Rightarrow> ('k, 'v) emit list option res" where
  "reduce_pairs e qs segs =
     lift_res (res_bind (reduce_or_groupkv e (sort_kv qs) False segs) (\<lambda>out. Inr (concat (map gout_emit out))))"

fun emit_all :: "('k, 'v) env \<Rightarrow> nat \<Rightarrow> ('k, 'v) emit list list \<Rightarrow> ('k, 'v) rbkts \<Rightarrow> ('k, 'v) rbkts res" where
  "emit_all e lcpu [] rb = Inr rb"
| "emit_all e lcpu (xs # xss) rb = res_bind (rbkts_emits e lcpu xs rb) (emit_all e (lcpu + 1) xss)"

definition rbkts_merge_reduce :: "('k, 'v) env \<Rightarrow> ('k, 'v) outcmp \<Rightarrow> ('k, 'v) sorts \<Rightarrow> bool
    \<Rightarrow> ('k, 'v) map_colls \<Rightarrow> nat \<Rightarrow> ('k, 'v) rbkts \<Rightarrow> ('k, 'v) rbkts option res" where
  "rbkts_merge_reduce e oc qs use_psrs acolls ncpus rb =
     c_assert use_psrs
      (run_bind (case acolls of
           Out_kvs cs \<Rightarrow> psrs_reduce (sort_kvs qs) (pair_cmp_keyonly e) (reduce_segments e) cs ncpus
         | Out_kv cs \<Rightarrow> psrs_reduce (sort_kv qs) (keyval_cmp_keyonly e) (reduce_pairs e qs) cs ncpus) (\<lambda>outs.
       lift_res (res_bind (emit_all e 0 outs rb) (\<lambda>rb1.
         res_bind (if has_outcmp oc rb1 then rbkts_merge e oc qs True ncpus rb1 else Inr rb1) rbkts_cat))))"

text \<open>
  Handing a map-only bucket its pairs. No caller of the library uses it.
\<close>

definition rbkts_set_elems :: "('k, 'v) env \<Rightarrow> ('k, 'v) outcmp \<Rightarrow> ('k, 'v) sorts \<Rightarrow> bool \<Rightarrow> nat
    \<Rightarrow> ('k, 'v) keyval list \<Rightarrow> bool \<Rightarrow> ('k, 'v) rbkts \<Rightarrow> ('k, 'v) rbkts res" where
  "rbkts_set_elems e oc qs use_psrs ibkt elems bsorted rb =
     c_assert (atype e = Atype_maponly)
      (case rb of
         Rb_kvl _ \<Rightarrow> Inl Null_deref
       | Rb_kv bs \<Rightarrow>
           res_bind (rd bs (int ibkt)) (\<lambda>b.
           let xs = (if \<not> use_psrs \<and> (\<not> bsorted \<or> out_kv_cmp oc \<noteq> None)
                     then sort_kv qs (rbkts_pair_cmp e oc) elems else elems)
           in res_bind (wr bs (int ibkt) (kva_set_elems b xs (length xs))) (\<lambda>bs'. Inr (Rb_kv bs'))))"

section \<open>The application's argument and results\<close>

text \<open>What the code checks of the results structure: present, and empty.\<close>

record ('k, 'v) app_results =
  res_kv :: "('k, 'v) keyval list option"
  res_kvl :: "('k, 'v) keyvals_len list option"
  res_length :: nat

definition app_set_arg :: "('k, 'v) env \<Rightarrow> ('k, 'v) app_results option \<Rightarrow> rpch res" where
  "app_set_arg e results =
     c_assert (uses_vm e \<longrightarrow> reduce_func e = None \<and> combiner e = None)
      (case results of
         None \<Rightarrow> Inl Assert_failed
       | Some r \<Rightarrow>
           c_assert ((if atype e = Atype_mapgroup then res_kvl r = None else res_kv r = None) \<and> res_length r = 0)
            (Inr (if atype e = Atype_mapgroup then Hkvslenarr else Hkvarr)))"

definition app_set_final_results :: "('k, 'v) rbkts \<Rightarrow> ('k, 'v) app_results \<Rightarrow> ('k, 'v) app_results res" where
  "app_set_final_results rb r =
     (case rb of
        Rb_kvl bs \<Rightarrow> res_bind (rd bs 0) (\<lambda>b.
          Inr (r\<lparr>res_kvl := kvl_get_arr_elems b, res_length := kvl_get_len b\<rparr>))
      | Rb_kv bs \<Rightarrow> res_bind (rd bs 0) (\<lambda>b.
          Inr (r\<lparr>res_kv := kva_get_arr_elems b, res_length := kva_get_len b\<rparr>)))"

section \<open>What the buckets hold\<close>

text \<open>The emissions a bucket stands for, and the buckets in order.\<close>

definition kv_emit :: "('k, 'v) keyval \<Rightarrow> ('k, 'v) emit" where
  "kv_emit kv = Emit_kv (kv_key kv) (kv_val kv)"

definition kvl_emit :: "('k, 'v) keyvals_len \<Rightarrow> ('k, 'v) emit" where
  "kvl_emit x = Emit_kvs_len (kvl_key x) (kvl_vals x) (kvl_len x)"

fun rb_outs :: "('k, 'v) rbkts \<Rightarrow> ('k, 'v) emit list list" where
  "rb_outs (Rb_kv bs) = map (\<lambda>b. map kv_emit (parr_elems b)) bs"
| "rb_outs (Rb_kvl bs) = map (\<lambda>b. map kvl_emit (parr_elems b)) bs"

fun rb_ok :: "('k, 'v) rbkts \<Rightarrow> bool" where
  "rb_ok (Rb_kv bs) \<longleftrightarrow> (\<forall>b \<in> set bs. parr_inv b)"
| "rb_ok (Rb_kvl bs) \<longleftrightarrow> (\<forall>b \<in> set bs. parr_inv b)"

fun rb_kind :: "('k, 'v) rbkts \<Rightarrow> rpch" where
  "rb_kind (Rb_kv _) = Hkvarr"
| "rb_kind (Rb_kvl _) = Hkvslenarr"

fun emit_kind :: "('k, 'v) emit \<Rightarrow> rpch" where
  "emit_kind (Emit_kv _ _) = Hkvarr"
| "emit_kind (Emit_kvs_len _ _ _) = Hkvslenarr"

lemma rbkts_init_outs:
  "rb_outs (rbkts_init pch n) = replicate n []" "rb_ok (rbkts_init pch n)" "rb_kind (rbkts_init pch n) = pch"
  by (cases pch, simp_all add: rbkts_init_def kva_init_def kvl_init_def map_replicate_const parr_init_def parr_elems_def
      parr_buf_def parr_inv_def)+

definition emitted :: "('k, 'v) rbkts \<Rightarrow> nat \<Rightarrow> ('k, 'v) emit list \<Rightarrow> ('k, 'v) rbkts \<Rightarrow> bool" where
  "emitted rb i xs rb' \<longleftrightarrow> rb_ok rb' \<and> rb_kind rb' = rb_kind rb \<and> rb_outs rb' = (rb_outs rb)[i := rb_outs rb ! i @ xs]"

lemma parr_inv_update: "\<forall>b \<in> set bs. parr_inv b \<Longrightarrow> parr_inv b' \<Longrightarrow> \<forall>b \<in> set (bs[i := b']). parr_inv b"
  using set_update_subset_insert [of bs i b'] by blast

lemma rbkts_emit_kv_ok:
  assumes "rb_ok rb" "rb_kind rb = Hkvarr" "i < length (rb_outs rb)" "length (rb_outs rb ! i) < 2 ^ 31"
  shows "succeeds (rbkts_emit_kv e i k v rb) (emitted rb i [Emit_kv k v])"
proof -
  obtain bs where bs: "rb = Rb_kv bs"
    using assms(2) by (cases rb) auto
  have i: "i < length bs" "parr_inv (bs ! i)" "pa_len (bs ! i) < 2 ^ 31"
    using assms(1,3,4) by (auto simp: bs parr_inv_len)
  show ?thesis
    using kva_insert_kv_ok [OF i(2,3), of e k v 0 0]
  proof (rule succeedsE)
    fix r
    assume r: "kva_insert_kv e (bs ! i) k v 0 0 = Inr r"
      "case r of (b', b) \<Rightarrow> b \<and> parr_inv b' \<and> parr_elems b' = parr_elems (bs ! i) @
         [\<lparr>kv_key = copy_key e k 0, kv_val = v, kv_hash = 0\<rparr>] \<and> pa_len b' = pa_len (bs ! i) + 1"
    obtain b' where b': "r = (b', True)" "parr_inv b'"
        "map kv_emit (parr_elems b') = map kv_emit (parr_elems (bs ! i)) @ [Emit_kv k v]"
      using r(2) by (cases r) (simp add: kv_emit_def copy_key_def split: option.splits)
    have "rbkts_emit_kv e i k v rb = Inr (Rb_kv (bs[i := b']))"
      using r(1) b'(1) i(1) by (simp add: rbkts_emit_kv_def bs)
    then show ?thesis
      using b'(3) i(1) parr_inv_update [OF _ b'(2)] assms(1) by (simp add: emitted_def bs map_update)
  qed
qed

lemma rbkts_emit_kvs_len_ok:
  assumes "rb_ok rb" "rb_kind rb = Hkvslenarr" "i < length (rb_outs rb)" "length (rb_outs rb ! i) < 2 ^ 31"
  shows "succeeds (rbkts_emit_kvs_len i k vals n rb) (emitted rb i [Emit_kvs_len k vals n])"
proof -
  obtain bs where bs: "rb = Rb_kvl bs"
    using assms(2) by (cases rb) auto
  have i: "i < length bs" "parr_inv (bs ! i)" "pa_len (bs ! i) < 2 ^ 31"
    using assms(1,3,4) by (auto simp: bs parr_inv_len)
  show ?thesis
    using kvl_insert_kvslen_ok [OF i(2,3), of k vals n]
  proof (rule succeedsE)
    fix b'
    assume b': "kvl_insert_kvslen (bs ! i) k vals n = Inr b'" "parr_inv b' \<and> parr_elems b' = parr_elems (bs ! i) @
         [\<lparr>kvl_key = k, kvl_vals = vals, kvl_len = n\<rparr>] \<and> pa_len b' = pa_len (bs ! i) + 1"
    have "rbkts_emit_kvs_len i k vals n rb = Inr (Rb_kvl (bs[i := b']))"
      using b'(1) i(1) by (simp add: rbkts_emit_kvs_len_def bs)
    then show ?thesis
      using b'(2) i(1) parr_inv_update [of bs b' i] assms(1) by (simp add: emitted_def bs map_update kvl_emit_def)
  qed
qed

lemma rbkts_emits_ok:
  "rb_ok rb \<Longrightarrow> \<forall>x \<in> set xs. emit_kind x = rb_kind rb \<Longrightarrow> i < length (rb_outs rb) \<Longrightarrow>
     length (rb_outs rb ! i) + length xs \<le> 2 ^ 31 \<Longrightarrow> succeeds (rbkts_emits e i xs rb) (emitted rb i xs)"
proof (induction xs arbitrary: rb)
  case Nil
  then show ?case
    by (simp add: emitted_def)
next
  case (Cons x xs)
  have one: "succeeds (rbkts_emits e i [x] rb) (emitted rb i [x])"
    using Cons.prems rbkts_emit_kv_ok [of rb i e] rbkts_emit_kvs_len_ok [of rb i]
    by (cases x) (auto elim!: succeedsE)
  then obtain rb1 where rb1: "rbkts_emits e i [x] rb = Inr rb1" "emitted rb i [x] rb1"
    by (auto elim: succeedsE)
  have "succeeds (rbkts_emits e i xs rb1) (emitted rb1 i xs)"
    using Cons.prems rb1(2) by (intro Cons.IH) (auto simp: emitted_def)
  moreover have "rbkts_emits e i (x # xs) rb = rbkts_emits e i xs rb1"
    using rb1(1) by (cases x) (auto simp: res_bind_def split: sum.splits)
  moreover have "emitted rb1 i xs rb' \<Longrightarrow> emitted rb i (x # xs) rb'" for rb'
    using rb1(2) Cons.prems(3) by (simp add: emitted_def)
  ultimately show ?case
    by (simp add: succeeds_mono)
qed

end
