(* ===== verification/Append_Mgr.thy ===== *)
theory Append_Mgr
  imports Bktmgr Rbkts
begin

text \<open>
  The append bucket manager (\<^verbatim>\<open>metis/lib/appendbktmgr.c\<close>): buckets are arrays of ungrouped
  pairs, used for map-only applications and by the configurations that sort instead of grouping.
  The flag \<open>am_group_before_merge\<close> is the configuration
  \<^verbatim>\<open>SINGLE_APPEND_GROUP_MERGE_FIRST\<close>.
\<close>

section \<open>Operations\<close>

record ('k, 'v) appmgr =
  am_mapper :: "('k, 'v) keyval parr mapper"
  am_bak :: "('k, 'v) keyval parr mapper"
  am_out :: "('k, 'v) map_colls option"
  am_group_before_merge :: bool

definition appmgr0 :: "('k, 'v) appmgr" where
  "appmgr0 = \<lparr>am_mapper = mapper0, am_bak = mapper0, am_out = None, am_group_before_merge = False\<rparr>"

definition append_mbks_init :: "bool \<Rightarrow> nat \<Rightarrow> nat \<Rightarrow> ('k, 'v) appmgr \<Rightarrow> ('k, 'v) appmgr" where
  "append_mbks_init group_merge_first rows cols st =
     st\<lparr>am_mapper := \<lparr>map_rows = rows, map_cols = cols,
                     mbks = Some (replicate rows (Some (replicate cols kva_init)))\<rparr>,
        am_group_before_merge := group_merge_first,
        am_out := Some (if group_merge_first then Out_kvs (replicate (rows * cols) kvsa_init)
                        else Out_kv (replicate (rows * cols) kva_init))\<rparr>"

definition append_map_put :: "('k, 'v) env \<Rightarrow> nat \<Rightarrow> 'k \<Rightarrow> 'v \<Rightarrow> nat \<Rightarrow> nat
    \<Rightarrow> ('k, 'v) appmgr \<times> mstate list \<Rightarrow> (('k, 'v) appmgr \<times> mstate list) res" where
  "append_map_put e row key v keylen hash = (\<lambda>(st, est).
     let m = am_mapper st in
     c_assert (mbks m \<noteq> None)
      (res_bind (bkt_col m hash) (\<lambda>col.
       res_bind (bkt_get m row col) (\<lambda>c.
       res_bind (kva_insert_kv e c key v keylen hash) (\<lambda>(c', _).
       res_bind (bkt_set m row col c') (\<lambda>m'.
       res_bind (est_row (\<lambda>s. est_newpair s True) est row) (\<lambda>est'.
       Inr (st\<lparr>am_mapper := m'\<rparr>, est'))))))))"

definition append_do_reduce_task :: "('k, 'v) env \<Rightarrow>
    ((('k, 'v) keyval \<Rightarrow> ('k, 'v) keyval \<Rightarrow> int) \<Rightarrow> ('k, 'v) keyval list \<Rightarrow> ('k, 'v) keyval list)
    \<Rightarrow> nat \<Rightarrow> ('k, 'v) appmgr \<Rightarrow> (('k, 'v) emit list \<times> ('k, 'v) appmgr) res" where
  "append_do_reduce_task e qs col st =
     (if mbks (am_mapper st) = None then Inr ([], st)
      else c_assert (atype e \<noteq> Atype_maponly)
       (res_bind (res_map (\<lambda>i. bkt_get (am_mapper st) i col) [0..<map_rows (am_mapper st)]) (\<lambda>pnodes.
        res_bind (reduce_or_groupkv e qs False pnodes) (\<lambda>out.
        res_bind (for_loop (\<lambda>i m. res_bind (bkt_get m i col) (\<lambda>c. bkt_set m i col (kva_shallow_free c)))
          (map_rows (am_mapper st)) (am_mapper st)) (\<lambda>m'.
        Inr (concat (map gout_emit out), st\<lparr>am_mapper := m'\<rparr>))))))"

definition append_map_get_output :: "('k, 'v) appmgr \<Rightarrow> ('k, 'v) map_colls option \<times> nat" where
  "append_map_get_output st = (am_out st, map_rows (am_mapper st) * map_cols (am_mapper st))"

text \<open>The pairs of a backup bucket are put again one by one; their keys were copied before.\<close>

fun append_puts :: "('k, 'v) env \<Rightarrow> nat \<Rightarrow> ('k, 'v) keyval list \<Rightarrow> ('k, 'v) appmgr \<times> mstate list
    \<Rightarrow> (('k, 'v) appmgr \<times> mstate list) res" where
  "append_puts e row [] s = Inr s"
| "append_puts e row (p # ps) s =
     res_bind (append_map_put e row (kv_key p) (kv_val p) 0 (kv_hash p) s) (append_puts e row ps)"

definition append_rehash_bak :: "('k, 'v) env \<Rightarrow> nat \<Rightarrow> ('k, 'v) appmgr \<times> mstate list
    \<Rightarrow> (('k, 'v) appmgr \<times> mstate list) res" where
  "append_rehash_bak e row s =
     (if mbks (am_bak (fst s)) = None then Inr s
      else for_loop (\<lambda>i s.
             res_bind (bkt_get (am_bak (fst s)) row i) (\<lambda>c.
             res_bind (append_puts e row (parr_elems c) s) (\<lambda>(st, est).
             res_bind (bkt_set (am_bak st) row i (kva_shallow_free c)) (\<lambda>b.
             Inr (st\<lparr>am_bak := b\<rparr>, est))))) (map_cols (am_bak (fst s))) s)"

definition append_mbks_bak :: "('k, 'v) appmgr \<Rightarrow> ('k, 'v) appmgr" where
  "append_mbks_bak st = st\<lparr>am_bak := am_mapper st, am_mapper := mapper0\<rparr>"

definition append_map_prepare_merge :: "('k, 'v) env \<Rightarrow>
    ((('k, 'v) keyval \<Rightarrow> ('k, 'v) keyval \<Rightarrow> int) \<Rightarrow> ('k, 'v) keyval list \<Rightarrow> ('k, 'v) keyval list)
    \<Rightarrow> nat \<Rightarrow> ('k, 'v) appmgr \<Rightarrow> ('k, 'v) appmgr res" where
  "append_map_prepare_merge e qs row st =
     c_assert (map_cols (am_mapper st) = 1)
      (res_bind (bkt_get (am_mapper st) row 0) (\<lambda>c.
       case am_out st of
         None \<Rightarrow> Inl Null_deref
       | Some (Out_kv outs) \<Rightarrow>
           res_bind (wr outs (int row) c) (\<lambda>outs'.
           res_bind (bkt_set (am_mapper st) row 0 parr_init) (\<lambda>m.
           Inr (st\<lparr>am_out := Some (Out_kv outs'), am_mapper := m\<rparr>)))
       | Some (Out_kvs outs) \<Rightarrow>
           res_bind (reduce_or_groupkv e qs True [c]) (\<lambda>out.
           res_bind (rd outs (int row)) (\<lambda>o0.
           res_bind (fold (\<lambda>g acc. res_bind acc (\<lambda>a. kvsa_append_kvs a g)) (concat (map gout_group out)) (Inr o0)) (\<lambda>o1.
           res_bind (wr outs (int row) o1) (\<lambda>outs'.
           res_bind (bkt_set (am_mapper st) row 0 (kva_shallow_free c)) (\<lambda>m.
           Inr (st\<lparr>am_out := Some (Out_kvs outs'), am_mapper := m\<rparr>))))))))"

section \<open>The matrix represents the pairs put\<close>

definition app_row :: "nat \<Rightarrow> ('k, 'v) keyval parr list \<Rightarrow> ('k, 'v) keyval list \<Rightarrow> bool" where
  "app_row C cs P \<longleftrightarrow> length cs = C \<and>
     (\<forall>col < C. parr_inv (cs ! col) \<and> parr_elems (cs ! col) = filter (\<lambda>p. kv_hash p mod C = col) P)"

lemma app_row_put:
  assumes "has_row m row cs" "app_row (map_cols m) cs P" "0 < map_cols m" "length P < 2 ^ 31"
  shows "\<exists>c b. kva_insert_kv e (cs ! (h mod map_cols m)) k v l h = Inr (c, b) \<and>
    app_row (map_cols m) (cs[h mod map_cols m := c]) (P @ [\<lparr>kv_key = copy_key e k l, kv_val = v, kv_hash = h\<rparr>])"
proof -
  let ?C = "map_cols m"
  have col: "h mod ?C < ?C" "parr_inv (cs ! (h mod ?C))"
      "parr_elems (cs ! (h mod ?C)) = filter (\<lambda>p. kv_hash p mod ?C = h mod ?C) P"
    using assms by (auto simp: app_row_def)
  have "pa_len (cs ! (h mod ?C)) < 2 ^ 31"
    using parr_inv_len [OF col(2)] col(3) assms(4) by (metis length_filter_le order_le_less_trans)
  from kva_insert_kv_ok [OF col(2) this, of e k v l h] show ?thesis
    using assms(2) col by (auto simp: app_row_def nth_list_update elim!: succeedsE)
qed

lemma append_map_put_ok:
  assumes "has_row (am_mapper st) row cs" "app_row (map_cols (am_mapper st)) cs P" "0 < map_cols (am_mapper st)"
    and "length P < 2 ^ 31" "row < length est"
  shows "\<exists>cs' est'. append_map_put e row k v l h (st, est) =
      Inr (st\<lparr>am_mapper := set_row (am_mapper st) row cs'\<rparr>, est') \<and> length est' = length est \<and>
    app_row (map_cols (am_mapper st)) cs' (P @ [\<lparr>kv_key = copy_key e k l, kv_val = v, kv_hash = h\<rparr>])"
proof -
  let ?m = "am_mapper st"
  let ?col = "h mod map_cols ?m"
  obtain c b where c: "kva_insert_kv e (cs ! ?col) k v l h = Inr (c, b)"
      "app_row (map_cols ?m) (cs[?col := c]) (P @ [\<lparr>kv_key = copy_key e k l, kv_val = v, kv_hash = h\<rparr>])"
    using app_row_put [OF assms(1-4)] by blast
  have col: "?col < length cs"
    using assms(2,3) by (simp add: app_row_def)
  have "mbks ?m \<noteq> None"
    using assms(1) by (auto simp: has_row_def)
  with c assms(3,5) show ?thesis
    by (intro exI [of _ "cs[?col := c]"]) (simp add: append_map_put_def Let_def bkt_col_def bkt_get_row [OF assms(1) col] bkt_set_row [OF assms(1) col] est_row_def)
qed

text \<open>Putting pairs, whose keys need no copy, appends them to the row.\<close>

lemma append_puts_ok:
  assumes "has_row (am_mapper st) row cs" "app_row (map_cols (am_mapper st)) cs P" "0 < map_cols (am_mapper st)"
    and "length P + length ps \<le> 2 ^ 31" "row < length est"
  shows "\<exists>cs' est'. append_puts e row ps (st, est) =
      Inr (st\<lparr>am_mapper := set_row (am_mapper st) row cs'\<rparr>, est') \<and> length est' = length est \<and>
    app_row (map_cols (am_mapper st)) cs' (P @ ps)"
  using assms
proof (induction ps arbitrary: st cs P est)
  case Nil
  then show ?case
    using set_row_same [OF Nil.prems(1)] by (intro exI [of _ cs] exI [of _ est]) simp
next
  case (Cons p ps)
  let ?m = "am_mapper st"
  have "\<lparr>kv_key = copy_key e (kv_key p) 0, kv_val = kv_val p, kv_hash = kv_hash p\<rparr> = p"
    by (cases p) (simp add: copy_key_def split: option.splits)
  then obtain cs1 est1 where 1: "append_map_put e row (kv_key p) (kv_val p) 0 (kv_hash p) (st, est) =
      Inr (st\<lparr>am_mapper := set_row ?m row cs1\<rparr>, est1)" "length est1 = length est" "app_row (map_cols ?m) cs1 (P @ [p])"
    using append_map_put_ok [OF Cons.prems(1-3) _ Cons.prems(5), of e "kv_key p" "kv_val p" 0 "kv_hash p"] Cons.prems(4)
    by auto
  let ?st1 = "st\<lparr>am_mapper := set_row ?m row cs1\<rparr>"
  have "\<exists>cs' est'. append_puts e row ps (?st1, est1) =
      Inr (?st1\<lparr>am_mapper := set_row (am_mapper ?st1) row cs'\<rparr>, est') \<and> length est' = length est1 \<and>
    app_row (map_cols (am_mapper ?st1)) cs' ((P @ [p]) @ ps)"
    by (rule Cons.IH) (use 1 Cons.prems in auto)
  then show ?case
    using 1 by (auto simp: set_row_twice)
qed

text \<open>The pairs of a row in the order a rehash from \<open>B\<close> columns leaves them.\<close>

definition by_cols :: "nat \<Rightarrow> nat \<Rightarrow> ('k, 'v) keyval list \<Rightarrow> ('k, 'v) keyval list" where
  "by_cols B i P = concat (map (\<lambda>j. filter (\<lambda>p. kv_hash p mod B = j) P) [0..<i])"

lemma by_cols_Suc: "by_cols B (Suc i) P = by_cols B i P @ filter (\<lambda>p. kv_hash p mod B = i) P"
  by (simp add: by_cols_def)

lemma mset_by_cols: "mset (by_cols B i P) = mset (filter (\<lambda>p. kv_hash p mod B < i) P)"
proof (induction i)
  case (Suc i)
  have "mset (filter (\<lambda>p. kv_hash p mod B < Suc i) P) =
      mset (filter (\<lambda>p. kv_hash p mod B < i) P) + mset (filter (\<lambda>p. kv_hash p mod B = i) P)"
    by (induction P) auto
  with Suc show ?case
    by (simp add: by_cols_Suc)
qed (simp add: by_cols_def)

definition app_moved :: "('k, 'v) appmgr \<Rightarrow> mstate list \<Rightarrow> nat \<Rightarrow> ('k, 'v) keyval list \<Rightarrow> nat
    \<Rightarrow> ('k, 'v) appmgr \<times> mstate list \<Rightarrow> bool" where
  "app_moved st est row P i s \<longleftrightarrow> (\<exists>cs bs est'.
     s = (st\<lparr>am_mapper := set_row (am_mapper st) row cs, am_bak := set_row (am_bak st) row bs\<rparr>, est') \<and>
     length est' = length est \<and> app_row (map_cols (am_mapper st)) cs (by_cols (map_cols (am_bak st)) i P) \<and>
     length bs = map_cols (am_bak st) \<and>
     (\<forall>j. i \<le> j \<longrightarrow> j < length bs \<longrightarrow> parr_elems (bs ! j) = filter (\<lambda>p. kv_hash p mod length bs = j) P))"

lemma length_by_cols: "length (by_cols B i P) \<le> length P"
proof -
  have "length (by_cols B i P) = size (mset (by_cols B i P))"
    by simp
  also have "\<dots> \<le> length P"
    unfolding mset_by_cols size_mset by (rule length_filter_le)
  finally show ?thesis .
qed

lemma append_rehash_step:
  assumes rows: "has_row (am_mapper st) row cs0" "has_row (am_bak st) row bs0" "0 < map_cols (am_mapper st)"
    and l: "length P \<le> 2 ^ 31" "row < length est"
    and i: "i < map_cols (am_bak st)" "app_moved st est row P i s"
  shows "succeeds (res_bind (bkt_get (am_bak (fst s)) row i) (\<lambda>c.
       res_bind (append_puts e row (parr_elems c) s) (\<lambda>(st, est).
       res_bind (bkt_set (am_bak st) row i (kva_shallow_free c)) (\<lambda>b.
       Inr (st\<lparr>am_bak := b\<rparr>, est))))) (app_moved st est row P (Suc i))"
proof -
  let ?B = "map_cols (am_bak st)" and ?C = "map_cols (am_mapper st)"
  obtain cs1 bs1 est1 where s: "s = (st\<lparr>am_mapper := set_row (am_mapper st) row cs1,
      am_bak := set_row (am_bak st) row bs1\<rparr>, est1)" "length est1 = length est" "app_row ?C cs1 (by_cols ?B i P)"
      "length bs1 = ?B" "\<forall>j. i \<le> j \<longrightarrow> j < ?B \<longrightarrow> parr_elems (bs1 ! j) = filter (\<lambda>p. kv_hash p mod ?B = j) P"
    using i(2) by (auto simp: app_moved_def)
  let ?st1 = "st\<lparr>am_mapper := set_row (am_mapper st) row cs1, am_bak := set_row (am_bak st) row bs1\<rparr>"
  have row: "has_row (am_bak ?st1) row bs1" "i < length bs1" "has_row (am_mapper ?st1) row cs1"
    using rows s(4) i(1) by auto
  have len: "length (by_cols ?B i P) + length (parr_elems (bs1 ! i)) \<le> 2 ^ 31"
    using length_by_cols [of ?B "Suc i" P] s(5) i(1) l(1) by (simp add: by_cols_Suc)
  have "\<exists>cs' est'. append_puts e row (parr_elems (bs1 ! i)) (?st1, est1) =
      Inr (?st1\<lparr>am_mapper := set_row (am_mapper ?st1) row cs'\<rparr>, est') \<and> length est' = length est1 \<and>
    app_row (map_cols (am_mapper ?st1)) cs' (by_cols ?B i P @ parr_elems (bs1 ! i))"
    by (rule append_puts_ok) (use row len s rows(3) l(2) in auto)
  then obtain cs2 est2 where 2: "append_puts e row (parr_elems (bs1 ! i)) (?st1, est1) =
      Inr (?st1\<lparr>am_mapper := set_row (am_mapper st) row cs2\<rparr>, est2)" "length est2 = length est"
      "app_row ?C cs2 (by_cols ?B (Suc i) P)"
    using s i(1) by (auto simp: set_row_twice by_cols_Suc)
  have "app_moved st est row P (Suc i) (st\<lparr>am_mapper := set_row (am_mapper st) row cs2,
      am_bak := set_row (am_bak st) row (bs1[i := kva_shallow_free (bs1 ! i)])\<rparr>, est2)"
    unfolding app_moved_def using 2 s(4,5)
    by (intro exI [of _ cs2] exI [of _ "bs1[i := kva_shallow_free (bs1 ! i)]"] exI [of _ est2]) simp
  then show ?thesis
    using bkt_get_row [OF row(1,2)] bkt_set_row [OF row(1,2)] 2(1) by (simp add: s(1) set_row_twice)
qed

lemma append_rehash_ok:
  assumes m: "has_row (am_mapper st) row cs" "app_row (map_cols (am_mapper st)) cs []" "0 < map_cols (am_mapper st)"
    and b: "has_row (am_bak st) row bs" "app_row (map_cols (am_bak st)) bs P" "0 < map_cols (am_bak st)"
    and l: "length P \<le> 2 ^ 31" "row < length est"
  shows "succeeds (append_rehash_bak e row (st, est)) (\<lambda>(st', est'). \<exists>cs' P'.
    has_row (am_mapper st') row cs' \<and> map_cols (am_mapper st') = map_cols (am_mapper st) \<and>
    app_row (map_cols (am_mapper st)) cs' P' \<and> mset P' = mset P)"
proof -
  let ?B = "map_cols (am_bak st)"
  have "mbks (am_bak st) \<noteq> None"
    using b(1) by (auto simp: has_row_def)
  moreover have "app_moved st est row P 0 (st, est)"
    unfolding app_moved_def using m b set_row_same [OF m(1)] set_row_same [OF b(1)]
    by (intro exI [of _ cs] exI [of _ bs] exI [of _ est]) (auto simp: by_cols_def app_row_def)
  ultimately have "succeeds (append_rehash_bak e row (st, est)) (app_moved st est row P ?B)"
    unfolding append_rehash_bak_def fst_conv
    by (simp only: if_False) (rule for_loop_inv, assumption, rule append_rehash_step [OF m(1) b(1) m(3) l])
  moreover have "mset (by_cols ?B ?B P) = mset P"
    using b(3) by (simp add: mset_by_cols)
  ultimately show ?thesis
    using m(1) by (auto simp: app_moved_def elim!: succeeds_mono intro!: exI [of _ "by_cols ?B ?B P"])
qed

end
