(* ===== verification/Kvstore.thy ===== *)
theory Kvstore
  imports Bktmgr_Correct Append_Mgr
begin

text \<open>
  The key/value store (\<^verbatim>\<open>metis/lib/kvstore.c\<close>): it chooses a bucket manager, forwards the
  operations of the phases to it, and turns the estimates of a sampling run into a number of reduce
  tasks. The state holds the static variables of this file and those of the managers, the
  estimation and the reduce buckets; all exist side by side, and \<open>kv_imgr\<close> says which manager
  is in use. The configuration is the default one: B+trees, or arrays of pairs for map-only
  applications, and \<^verbatim>\<open>psrs\<close> for merging.
\<close>

section \<open>State\<close>

datatype imgr = Index_append | Index_btree | Index_array

record ('k, 'v) kvst =
  kv_imgr :: imgr
  kv_btree :: "(('k, 'v) btree, ('k, 'v) keyvals parr) mbkts"
  kv_array :: "(('k, 'v) keyvals parr, ('k, 'v) keyvals parr) mbkts"
  kv_append :: "('k, 'v) appmgr"
  kv_ncols :: nat
  kv_nrows :: nat
  kv_has_backup :: bool
  kv_bsampling :: bool
  nkeys_per_mapper :: "64 word"
  npairs_per_mapper :: "64 word"
  kv_est :: "mstate list"
  kv_rbkts :: "('k, 'v) rbkts option"

definition def_imgr :: imgr where
  "def_imgr = Index_btree"

definition use_psrs :: bool where
  "use_psrs = True"

definition nkeys_per_bkt :: "64 word" where
  "nkeys_per_bkt = 10"

definition kvst0 :: "nat \<Rightarrow> ('k, 'v) kvst" where
  "kvst0 ncpu = \<lparr>kv_imgr = Index_append, kv_btree = mbkts0, kv_array = mbkts0, kv_append = appmgr0, kv_ncols = 0,
     kv_nrows = 0, kv_has_backup = False, kv_bsampling = False, nkeys_per_mapper = 0, npairs_per_mapper = 0,
     kv_est = est_init ncpu, kv_rbkts = None\<rparr>"

section \<open>Dispatching to the managers\<close>

definition mgr_mbks_init :: "('k, 'v) env \<Rightarrow> nat \<Rightarrow> nat \<Rightarrow> ('k, 'v) kvst \<Rightarrow> ('k, 'v) kvst" where
  "mgr_mbks_init e rows cols s =
     (case kv_imgr s of
        Index_append \<Rightarrow> s\<lparr>kv_append := append_mbks_init False rows cols (kv_append s)\<rparr>
      | Index_btree \<Rightarrow> s\<lparr>kv_btree := mbm_mbks_init (hkvsbtree e) rows cols (kv_btree s)\<rparr>
      | Index_array \<Rightarrow> s\<lparr>kv_array := array_mbks_init e rows cols (kv_array s)\<rparr>)"

definition kvst_map_put :: "('k, 'v) env \<Rightarrow> nat \<Rightarrow> 'k \<Rightarrow> 'v \<Rightarrow> nat \<Rightarrow> nat \<Rightarrow> ('k, 'v) kvst \<Rightarrow> ('k, 'v) kvst res" where
  "kvst_map_put e row key v keylen hash s =
     (case kv_imgr s of
        Index_append \<Rightarrow> res_bind (append_map_put e row key v keylen hash (kv_append s, kv_est s)) (\<lambda>(m, est).
          Inr (s\<lparr>kv_append := m, kv_est := est\<rparr>))
      | Index_btree \<Rightarrow> res_bind (mbm_map_put (hkvsbtree e) row key v keylen hash (kv_btree s, kv_est s)) (\<lambda>(m, est).
          Inr (s\<lparr>kv_btree := m, kv_est := est\<rparr>))
      | Index_array \<Rightarrow> res_bind (array_map_put e row key v keylen hash (kv_array s, kv_est s)) (\<lambda>(m, est).
          Inr (s\<lparr>kv_array := m, kv_est := est\<rparr>)))"

definition mgr_mbks_bak :: "('k, 'v) kvst \<Rightarrow> ('k, 'v) kvst" where
  "mgr_mbks_bak s =
     (case kv_imgr s of
        Index_append \<Rightarrow> s\<lparr>kv_append := append_mbks_bak (kv_append s)\<rparr>
      | Index_btree \<Rightarrow> s\<lparr>kv_btree := mbm_mbks_bak (kv_btree s)\<rparr>
      | Index_array \<Rightarrow> s\<lparr>kv_array := array_mbks_bak (kv_array s)\<rparr>)"

definition mgr_rehash_bak :: "('k, 'v) env \<Rightarrow> nat \<Rightarrow> ('k, 'v) kvst \<Rightarrow> ('k, 'v) kvst res" where
  "mgr_rehash_bak e row s =
     (case kv_imgr s of
        Index_append \<Rightarrow> res_bind (append_rehash_bak e row (kv_append s, kv_est s)) (\<lambda>(m, est).
          Inr (s\<lparr>kv_append := m, kv_est := est\<rparr>))
      | Index_btree \<Rightarrow> res_bind (mbm_rehash_bak (hkvsbtree e) row (kv_btree s)) (\<lambda>m. Inr (s\<lparr>kv_btree := m\<rparr>))
      | Index_array \<Rightarrow> res_bind (array_rehash_bak (hkvsarr e) row (kv_array s)) (\<lambda>m. Inr (s\<lparr>kv_array := m\<rparr>)))"

definition mgr_do_reduce_task :: "('k, 'v) env \<Rightarrow> ('k, 'v) sorts \<Rightarrow> nat \<Rightarrow> ('k, 'v) kvst
    \<Rightarrow> (('k, 'v) emit list \<times> ('k, 'v) kvst) option res" where
  "mgr_do_reduce_task e qs col s =
     (case kv_imgr s of
        Index_append \<Rightarrow> run_bind (lift_res (append_do_reduce_task e (sort_kv qs) col (kv_append s))) (\<lambda>(out, m).
          ret (out, s\<lparr>kv_append := m\<rparr>))
      | Index_btree \<Rightarrow> run_bind (mbm_do_reduce_task e (hkvsbtree e) col (kv_btree s)) (\<lambda>(out, m).
          ret (out, s\<lparr>kv_btree := m\<rparr>))
      | Index_array \<Rightarrow> run_bind (array_do_reduce_task e (hkvsarr e) col (kv_array s)) (\<lambda>(out, m).
          ret (out, s\<lparr>kv_array := m\<rparr>)))"

definition mgr_map_prepare_merge :: "('k, 'v) env \<Rightarrow> ('k, 'v) sorts \<Rightarrow> nat \<Rightarrow> ('k, 'v) kvst \<Rightarrow> ('k, 'v) kvst res" where
  "mgr_map_prepare_merge e qs row s =
     (case kv_imgr s of
        Index_append \<Rightarrow> res_bind (append_map_prepare_merge e (sort_kv qs) row (kv_append s)) (\<lambda>m. Inr (s\<lparr>kv_append := m\<rparr>))
      | Index_btree \<Rightarrow> res_bind (mbm_map_prepare_merge row (kv_btree s)) (\<lambda>m. Inr (s\<lparr>kv_btree := m\<rparr>))
      | Index_array \<Rightarrow> res_bind (array_map_prepare_merge row (kv_array s)) (\<lambda>m. Inr (s\<lparr>kv_array := m\<rparr>)))"

definition mgr_map_get_output :: "('k, 'v) kvst \<Rightarrow> ('k, 'v) map_colls option" where
  "mgr_map_get_output s =
     (case kv_imgr s of
        Index_append \<Rightarrow> fst (append_map_get_output (kv_append s))
      | Index_btree \<Rightarrow> map_option Out_kvs (fst (mbm_map_get_output (kv_btree s)))
      | Index_array \<Rightarrow> map_option Out_kvs (fst (array_map_get_output (kv_array s))))"

section \<open>Operations\<close>

definition kvst_set_bktmgr :: "imgr \<Rightarrow> ('k, 'v) kvst \<Rightarrow> ('k, 'v) kvst" where
  "kvst_set_bktmgr idx s = s\<lparr>kv_imgr := idx\<rparr>"

definition kvst_sample_init :: "('k, 'v) env \<Rightarrow> nat \<Rightarrow> nat \<Rightarrow> nat \<Rightarrow> ('k, 'v) kvst \<Rightarrow> ('k, 'v) kvst" where
  "kvst_sample_init e ncpu rows cols s =
     (mgr_mbks_init e rows cols (kvst_set_bktmgr def_imgr (s\<lparr>kv_has_backup := False\<rparr>)))
       \<lparr>kv_ncols := cols, kv_nrows := rows, kv_est := est_init ncpu, kv_bsampling := True\<rparr>"

definition kvst_map_task_finished :: "nat \<Rightarrow> ('k, 'v) kvst \<Rightarrow> ('k, 'v) kvst res" where
  "kvst_map_task_finished row s =
     (if kv_bsampling s
      then res_bind (est_row est_task_finished (kv_est s) row) (\<lambda>est. Inr (s\<lparr>kv_est := est\<rparr>))
      else Inr s)"

text \<open>
  The search for the number of reduce tasks. The loop bound of the source is
  \<^verbatim>\<open>q < sqrt((double) ntasks)\<close>, written here without the square root.
\<close>

fun no_divisor :: "nat \<Rightarrow> nat \<Rightarrow> nat \<Rightarrow> bool" where
  "no_divisor 0 q n \<longleftrightarrow> True"
| "no_divisor (Suc fuel) q n \<longleftrightarrow> (if q * q < n then (if n mod q = 0 then False else no_divisor fuel (q + 1) n) else True)"

definition prime_test :: "nat \<Rightarrow> bool" where
  "prime_test n \<longleftrightarrow> no_divisor n 2 n"

partial_function (option) next_tasks :: "nat \<Rightarrow> nat option" where
  "next_tasks ntasks = (if prime_test ntasks then Some ntasks else next_tasks (ntasks + 1))"

declare next_tasks.simps [code]

definition sum_estimates :: "mstate list \<Rightarrow> int \<Rightarrow> 64 word \<times> 64 word \<times> nat \<Rightarrow> 64 word \<times> 64 word \<times> nat" where
  "sum_estimates ms ntotal acc =
     fold (\<lambda>st (nkeys, npairs, nvalid).
        if est_get_finished st \<noteq> 0
        then (case est_estimate st ntotal of (k, p) \<Rightarrow> (nkeys + k, npairs + p, nvalid + 1))
        else (nkeys, npairs, nvalid)) ms acc"

definition kvst_sample_finished :: "int \<Rightarrow> ('k, 'v) kvst \<Rightarrow> (nat \<times> ('k, 'v) kvst) option res" where
  "kvst_sample_finished ntotal s =
     (if length (kv_est s) < kv_nrows s then Inl Out_of_bounds
      else
      case sum_estimates (take (kv_nrows s) (kv_est s)) ntotal (nkeys_per_mapper s, npairs_per_mapper s, 0) of
        (nkeys, npairs, nvalid) \<Rightarrow>
          if nvalid = 0 then Inl Div_by_zero
          else
            let nkeys' = nkeys div of_nat nvalid; npairs' = npairs div of_nat nvalid;
                s' = (mgr_mbks_bak (s\<lparr>nkeys_per_mapper := nkeys', npairs_per_mapper := npairs'\<rparr>))
                       \<lparr>kv_has_backup := True, kv_bsampling := False\<rparr>
            in case next_tasks (unat (nkeys' div nkeys_per_bkt)) of
                 None \<Rightarrow> Inr None
               | Some ntasks \<Rightarrow> ret (ntasks, s'))"

definition kvst_map_worker_init :: "('k, 'v) env \<Rightarrow> nat \<Rightarrow> ('k, 'v) kvst \<Rightarrow> ('k, 'v) kvst res" where
  "kvst_map_worker_init e row s =
     (if kv_has_backup s then c_assert (atype e \<noteq> Atype_maponly) (mgr_rehash_bak e row s) else Inr s)"

definition kvst_init :: "('k, 'v) env \<Rightarrow> rpch \<Rightarrow> nat \<Rightarrow> nat \<Rightarrow> nat \<Rightarrow> ('k, 'v) kvst \<Rightarrow> ('k, 'v) kvst" where
  "kvst_init e pch rows cols nbkts s =
     (mgr_mbks_init e rows cols
        (kvst_set_bktmgr (if atype e = Atype_maponly then Index_append else def_imgr)
          (s\<lparr>kv_nrows := rows, kv_ncols := cols\<rparr>)))\<lparr>kv_rbkts := Some (rbkts_init pch nbkts)\<rparr>"

definition kvst_destroy :: "('k, 'v) kvst \<Rightarrow> ('k, 'v) kvst" where
  "kvst_destroy s = s\<lparr>kv_rbkts := None\<rparr>"

definition with_rbkts :: "(('k, 'v) rbkts \<Rightarrow> ('k, 'v) rbkts res) \<Rightarrow> ('k, 'v) kvst \<Rightarrow> ('k, 'v) kvst res" where
  "with_rbkts f s =
     (case kv_rbkts s of
        None \<Rightarrow> Inl Null_deref
      | Some rb \<Rightarrow> res_bind (f rb) (\<lambda>rb'. Inr (s\<lparr>kv_rbkts := Some rb'\<rparr>)))"

text \<open>A reduce task emits into the bucket of its number.\<close>

definition kvst_reduce_do_task :: "('k, 'v) env \<Rightarrow> ('k, 'v) sorts \<Rightarrow> nat \<Rightarrow> ('k, 'v) kvst
    \<Rightarrow> ('k, 'v) kvst option res" where
  "kvst_reduce_do_task e qs col s =
     c_assert (atype e \<noteq> Atype_maponly)
      (run_bind (mgr_do_reduce_task e qs col s) (\<lambda>(out, s'). lift_res (with_rbkts (rbkts_emits e col out) s')))"

definition kvst_map_worker_finished :: "('k, 'v) env \<Rightarrow> ('k, 'v) sorts \<Rightarrow> nat \<Rightarrow> bool \<Rightarrow> ('k, 'v) kvst
    \<Rightarrow> ('k, 'v) kvst res" where
  "kvst_map_worker_finished e qs row reduce_skipped s =
     (if reduce_skipped then c_assert (\<not> kv_bsampling s) (mgr_map_prepare_merge e qs row s) else Inr s)"

definition kvst_merge :: "('k, 'v) env \<Rightarrow> ('k, 'v) outcmp \<Rightarrow> ('k, 'v) sorts \<Rightarrow> nat \<Rightarrow> bool \<Rightarrow> ('k, 'v) kvst
    \<Rightarrow> ('k, 'v) kvst option res" where
  "kvst_merge e oc qs ncpus reduce_skipped s =
     (case kv_rbkts s of
        None \<Rightarrow> Inl Null_deref
      | Some rb \<Rightarrow>
          run_bind (if atype e = Atype_maponly \<or> \<not> reduce_skipped
                    then lift_res (rbkts_merge e oc qs use_psrs ncpus rb)
                    else case mgr_map_get_output s of
                           None \<Rightarrow> Inl Null_deref
                         | Some acolls \<Rightarrow> rbkts_merge_reduce e oc qs use_psrs acolls ncpus rb) (\<lambda>rb'.
          ret (s\<lparr>kv_rbkts := Some rb'\<rparr>)))"

definition kvst_reduce_put :: "('k, 'v) env \<Rightarrow> nat \<Rightarrow> 'k \<Rightarrow> 'v \<Rightarrow> ('k, 'v) kvst \<Rightarrow> ('k, 'v) kvst res" where
  "kvst_reduce_put e cur_task key v s = with_rbkts (rbkts_emit_kv e cur_task key v) s"

section \<open>The number of reduce tasks\<close>

lemma no_divisor_iff:
  assumes "n \<le> fuel + q" "0 < q"
  shows "no_divisor fuel q n \<longleftrightarrow> (\<forall>d. q \<le> d \<and> d * d < n \<longrightarrow> \<not> d dvd n)"
  using assms
proof (induction fuel arbitrary: q)
  case 0
  have "n \<le> d * d" if "q \<le> d" for d
  proof -
    have "n \<le> d" "1 \<le> d"
      using that 0 by simp_all
    then show ?thesis
      using mult_le_mono [of n d 1 d] by simp
  qed
  then show ?case
    by (auto dest: leD)
next
  case (Suc fuel)
  have IH: "no_divisor fuel (q + 1) n \<longleftrightarrow> (\<forall>d. q + 1 \<le> d \<and> d * d < n \<longrightarrow> \<not> d dvd n)"
    using Suc.prems by (intro Suc.IH) auto
  have big: "n \<le> d * d" if "n \<le> q * q" "q \<le> d" for d
    using that mult_le_mono [of q d q d] by simp
  have split: "q \<le> d \<longleftrightarrow> d = q \<or> q + 1 \<le> d" for d
    by auto
  show ?case
  proof (cases "q * q < n")
    case True
    then have "no_divisor (Suc fuel) q n \<longleftrightarrow> \<not> q dvd n \<and> no_divisor fuel (q + 1) n"
      by (simp add: dvd_eq_mod_eq_0)
    then show ?thesis
      using True unfolding IH split by blast
  next
    case False
    then show ?thesis
      using big by (auto simp: not_less dest: leD)
  qed
qed

lemma prime_test_iff: "prime_test n \<longleftrightarrow> (\<forall>d. 2 \<le> d \<and> d * d < n \<longrightarrow> \<not> d dvd n)"
  unfolding prime_test_def by (rule no_divisor_iff) simp_all

lemma prime_test_above: "\<exists>m \<ge> n. prime_test m"
proof -
  let ?N = "prod id {1..n} + 1 :: nat"
  define p where "p = (LEAST d. 2 \<le> d \<and> d dvd ?N)"
  have "1 \<le> prod id {1..n}"
    by (rule prod_ge_1) simp
  then have "2 \<le> ?N \<and> ?N dvd ?N"
    by simp
  then have p: "2 \<le> p" "p dvd ?N"
    unfolding p_def by (metis (mono_tags, lifting) LeastI)+
  have "\<not> p \<le> n"
  proof
    assume "p \<le> n"
    then have "p dvd prod id {1..n}"
      using p(1) by (metis atLeastAtMost_iff dvd_prodI finite_atLeastAtMost id_apply le_trans one_le_numeral)
    with p have "p dvd 1"
      by (metis dvd_add_right_iff)
    with p(1) show False
      by simp
  qed
  moreover have "prime_test p"
    unfolding prime_test_iff
  proof (intro allI impI notI)
    fix d
    assume d: "2 \<le> d \<and> d * d < p" "d dvd p"
    then have "d < p"
      using mult_le_mono [of 1 d d d] by linarith
    moreover have "2 \<le> d \<and> d dvd ?N"
      using d p(2) by (meson dvd_trans)
    ultimately show False
      unfolding p_def by (metis (mono_tags, lifting) not_less_Least)
  qed
  ultimately show ?thesis
    by (intro exI [of _ p]) simp
qed

lemma next_tasks_least:
  assumes "prime_test (n + k)"
  shows "\<exists>m. next_tasks n = Some m \<and> n \<le> m \<and> m \<le> n + k \<and> prime_test m \<and> (\<forall>j. n \<le> j \<and> j < m \<longrightarrow> \<not> prime_test j)"
  using assms
proof (induction k arbitrary: n)
  case 0
  then show ?case
    by (subst next_tasks.simps) auto
next
  case (Suc k)
  show ?case
  proof (cases "prime_test n")
    case True
    then show ?thesis
      by (subst next_tasks.simps) auto
  next
    case False
    from Suc.prems Suc.IH [of "n + 1"] obtain m where m: "next_tasks (n + 1) = Some m" "n + 1 \<le> m" "m \<le> n + 1 + k"
        "prime_test m" "\<forall>j. n + 1 \<le> j \<and> j < m \<longrightarrow> \<not> prime_test j"
      by auto
    have "\<not> prime_test j" if "n \<le> j" "j < m" for j
      using that m(5) False by (cases "j = n") auto
    with m False show ?thesis
      by (subst next_tasks.simps) auto
  qed
qed

text \<open>C18. The search for the number of reduce tasks ends, whatever the estimate, with the least number
  from the estimate on that no smaller number divides whose square is below it.\<close>

theorem next_tasks_ends:
  "\<exists>m. next_tasks n = Some m \<and> n \<le> m \<and> (\<forall>d. 2 \<le> d \<and> d * d < m \<longrightarrow> \<not> d dvd m) \<and>
     (\<forall>j. n \<le> j \<and> j < m \<longrightarrow> (\<exists>d. 2 \<le> d \<and> d * d < j \<and> d dvd j))"
proof -
  obtain k where "prime_test (n + k)"
    using prime_test_above [of n] le_Suc_ex by metis
  from next_tasks_least [OF this] show ?thesis
    unfolding prime_test_iff by blast
qed

theorem next_tasks_ends_witness:
  "next_tasks 24 = Some 25 \<and> (\<exists>m. next_tasks 24 = Some m \<and> 24 \<le> m \<and> (\<forall>d. 2 \<le> d \<and> d * d < m \<longrightarrow> \<not> d dvd m))"
proof
  show "next_tasks 24 = Some 25"
    by code_simp
  show "\<exists>m. next_tasks 24 = Some m \<and> 24 \<le> m \<and> (\<forall>d. 2 \<le> d \<and> d * d < m \<longrightarrow> \<not> d dvd m)"
    using next_tasks_ends [of 24] by blast
qed

end
