(* ===== verification/Sched.thy ===== *)
theory Sched
  imports Kvstore
begin

text \<open>
  The scheduler (\<^verbatim>\<open>metis/lib/mr-sched.c\<close>): hashing, the workers of the map and the reduce
  phase, sampling, set-up and the whole run. The workers of a phase run concurrently; a schedule
  is the sequence of the worker numbers in the order in which the workers take their steps. A step
  of a map worker is one access to shared state: starting (which moves its row out of the backup),
  fetching a split, emitting one pair, finishing a task. A step of a reduce worker is fetching a
  task number or performing the task.
\<close>

unbundle bit_operations_syntax

section \<open>Hashing\<close>

text \<open>The bytes of the key are signed characters; the hash is a 64-bit \<^verbatim>\<open>size_t\<close>.\<close>

definition hash_byte :: "64 word \<Rightarrow> 8 word \<Rightarrow> 64 word" where
  "hash_byte hash c = (push_bit 5 hash + hash) + ucast (scast c :: 32 word)"

definition default_hasher :: "8 word list \<Rightarrow> nat \<Rightarrow> nat res" where
  "default_hasher str key_size =
     (if key_size \<le> length str
      then Inr (unat (foldl hash_byte 5381 (take key_size str) mod (2 ^ 32 - 1)))
      else Inl Out_of_bounds)"

section \<open>Parameters and state\<close>

text \<open>
  \<open>mp_bytes\<close> gives the memory behind a key, which the default hash function reads. The map
  function gets a split and emits pairs through \<^verbatim>\<open>mr_map_emit\<close>; its model returns them.
\<close>

record ('k, 'v, 's) mr_param =
  mp_env :: "('k, 'v) env"
  mp_results :: "('k, 'v) app_results option"
  mp_outcmp :: "('k, 'v) outcmp"
  mp_tasks :: nat
  mp_map_func :: "split \<Rightarrow> ('k \<times> 'v \<times> nat) list res"
  mp_split_func :: "'s splitter"
  mp_split_arg :: 's
  mp_part_func :: "('k \<Rightarrow> nat \<Rightarrow> nat res) option"
  mp_bytes :: "'k \<Rightarrow> 8 word list"
  mp_nr_cpus :: nat

text \<open>The platform: the size of the arrays of workers, the number of cores, and \<^verbatim>\<open>qsort\<close>.\<close>

record ('k, 'v) platform =
  jos_ncpu :: nat
  core_count :: nat
  qsorts :: "('k, 'v) sorts"

record mr_state =
  ms_nr_cpus :: nat
  ms_ps :: presplitter_state
  ms_nsampled_splits :: nat
  ms_merge_nsplits :: nat
  ms_skip_reduce_phase :: bool
  ms_tasks :: nat

definition def_gr_tasks_per_cpu :: nat where
  "def_gr_tasks_per_cpu = 16"

definition def_sample_reduce_tasks :: nat where
  "def_sample_reduce_tasks = 10000"

definition sample_percent :: nat where
  "sample_percent = 5"

definition part_func :: "('k, 'v, 's) mr_param \<Rightarrow> 'k \<Rightarrow> nat \<Rightarrow> nat res" where
  "part_func p = (case mp_part_func p of Some f \<Rightarrow> f | None \<Rightarrow> (\<lambda>k n. default_hasher (mp_bytes p k) n))"

definition mr_map_emit :: "('k, 'v, 's) mr_param \<Rightarrow> nat \<Rightarrow> 'k \<Rightarrow> 'v \<Rightarrow> nat \<Rightarrow> ('k, 'v) kvst \<Rightarrow> ('k, 'v) kvst res" where
  "mr_map_emit p cur_lcpu key v keylen s =
     res_bind (part_func p key keylen) (\<lambda>hash. kvst_map_put (mp_env p) cur_lcpu key v keylen hash s)"

section \<open>The map phase\<close>

datatype ('k, 'v) mpc = M_start | M_fetch | M_emit "('k \<times> 'v \<times> nat) list" | M_done

record ('k, 'v) map_run =
  mw_ps :: presplitter_state
  mw_store :: "('k, 'v) kvst"
  mw_pcs :: "('k, 'v) mpc list"

definition mr_map_worker :: "('k, 'v, 's) mr_param \<Rightarrow> ('k, 'v) sorts \<Rightarrow> bool \<Rightarrow> nat \<Rightarrow> ('k, 'v) map_run
    \<Rightarrow> ('k, 'v) map_run res" where
  "mr_map_worker p qs skip_reduce w r =
     res_bind (rd (mw_pcs r) (int w)) (\<lambda>pc.
     case pc of
       M_start \<Rightarrow>
         res_bind (kvst_map_worker_init (mp_env p) w (mw_store r)) (\<lambda>s.
         Inr (r\<lparr>mw_store := s, mw_pcs := (mw_pcs r)[w := M_fetch]\<rparr>))
     | M_fetch \<Rightarrow>
         res_bind (presplitter (mw_ps r)) (\<lambda>(ma, ps).
         case ma of
           None \<Rightarrow>
             res_bind (kvst_map_worker_finished (mp_env p) qs w skip_reduce (mw_store r)) (\<lambda>s.
             Inr (r\<lparr>mw_ps := ps, mw_store := s, mw_pcs := (mw_pcs r)[w := M_done]\<rparr>))
         | Some sp \<Rightarrow>
             res_bind (mp_map_func p sp) (\<lambda>es.
             Inr (r\<lparr>mw_ps := ps, mw_pcs := (mw_pcs r)[w := M_emit es]\<rparr>)))
     | M_emit [] \<Rightarrow>
         res_bind (kvst_map_task_finished w (mw_store r)) (\<lambda>s.
         Inr (r\<lparr>mw_store := s, mw_pcs := (mw_pcs r)[w := M_fetch]\<rparr>))
     | M_emit ((k, v, l) # es) \<Rightarrow>
         res_bind (mr_map_emit p w k v l (mw_store r)) (\<lambda>s.
         Inr (r\<lparr>mw_store := s, mw_pcs := (mw_pcs r)[w := M_emit es]\<rparr>))
     | M_done \<Rightarrow> Inr r)"

fun run_workers :: "(nat \<Rightarrow> 'r \<Rightarrow> 'r option res) \<Rightarrow> nat list \<Rightarrow> 'r \<Rightarrow> 'r option res" where
  "run_workers step [] r = ret r"
| "run_workers step (w # ws) r = run_bind (step w r) (run_workers step ws)"

text \<open>
  \<^verbatim>\<open>mr_run_task(MAP)\<close> returns when all workers have been joined. A schedule that leaves a
  worker unfinished is an incomplete run, \<open>None\<close>.
\<close>

definition map_phase :: "('k, 'v, 's) mr_param \<Rightarrow> ('k, 'v) sorts \<Rightarrow> bool \<Rightarrow> nat list \<Rightarrow> nat \<Rightarrow> presplitter_state
    \<Rightarrow> ('k, 'v) kvst \<Rightarrow> (presplitter_state \<times> ('k, 'v) kvst) option res" where
  "map_phase p qs skip_reduce sched ncpus ps s =
     run_bind (run_workers (\<lambda>w r. lift_res (mr_map_worker p qs skip_reduce w r)) sched
         \<lparr>mw_ps = ps, mw_store = s, mw_pcs = replicate ncpus M_start\<rparr>) (\<lambda>r.
     if \<forall>pc \<in> set (mw_pcs r). pc = M_done then ret (mw_ps r, mw_store r) else Inr None)"

section \<open>The reduce phase\<close>

datatype rpc = R_fetch | R_task nat | R_done

record ('k, 'v) red_run =
  rw_pos :: nat
  rw_store :: "('k, 'v) kvst"
  rw_pcs :: "rpc list"

definition mr_reduce_worker :: "('k, 'v, 's) mr_param \<Rightarrow> ('k, 'v) sorts \<Rightarrow> nat \<Rightarrow> nat \<Rightarrow> ('k, 'v) red_run
    \<Rightarrow> ('k, 'v) red_run option res" where
  "mr_reduce_worker p qs tasks w r =
     c_assert (atype (mp_env p) \<noteq> Atype_maponly)
      (run_bind (lift_res (rd (rw_pcs r) (int w))) (\<lambda>pc.
       case pc of
         R_fetch \<Rightarrow>
           ret (r\<lparr>rw_pos := rw_pos r + 1,
                  rw_pcs := (rw_pcs r)[w := (if tasks \<le> rw_pos r then R_done else R_task (rw_pos r))]\<rparr>)
       | R_task cur_task \<Rightarrow>
           run_bind (kvst_reduce_do_task (mp_env p) qs cur_task (rw_store r)) (\<lambda>s.
           ret (r\<lparr>rw_store := s, rw_pcs := (rw_pcs r)[w := R_fetch]\<rparr>))
       | R_done \<Rightarrow> ret r))"

definition reduce_phase :: "('k, 'v, 's) mr_param \<Rightarrow> ('k, 'v) sorts \<Rightarrow> nat \<Rightarrow> nat list \<Rightarrow> nat \<Rightarrow> ('k, 'v) kvst
    \<Rightarrow> ('k, 'v) kvst option res" where
  "reduce_phase p qs tasks sched ncpus s =
     run_bind (run_workers (mr_reduce_worker p qs tasks) sched
         \<lparr>rw_pos = 0, rw_store = s, rw_pcs = replicate ncpus R_fetch\<rparr>) (\<lambda>r.
     if \<forall>pc \<in> set (rw_pcs r). pc = R_done then ret (rw_store r) else Inr None)"

section \<open>Setting up and running\<close>

definition n_sampled :: "nat \<Rightarrow> nat \<Rightarrow> nat" where
  "n_sampled ntotal nr_cpus =
     (let n = sample_percent * ntotal div 100;
          n' = (if n < nr_cpus then min nr_cpus ntotal else n)
      in if n' = 0 then 1 else n')"

definition mr_sample :: "('k, 'v, 's) mr_param \<Rightarrow> ('k, 'v) platform \<Rightarrow> nat list \<Rightarrow> mr_state \<Rightarrow> ('k, 'v) kvst
    \<Rightarrow> (nat \<times> mr_state \<times> ('k, 'v) kvst) option res" where
  "mr_sample p pf sched ms s =
     (let ntotal = presplitter_nsplits (ms_ps ms); nsampled = n_sampled ntotal (ms_nr_cpus ms) in
      run_bind (lift_res (presplitter_prep_sample (ms_ps ms) nsampled)) (\<lambda>ps.
      let s1 = kvst_sample_init (mp_env p) (jos_ncpu pf) (ms_nr_cpus ms) (ms_tasks ms) s in
      run_bind (map_phase p (qsorts pf) (ms_skip_reduce_phase ms) sched (ms_nr_cpus ms) ps s1) (\<lambda>(ps', s2).
      run_bind (kvst_sample_finished (int ntotal) s2) (\<lambda>(ntasks, s3).
      ret (ntasks, ms\<lparr>ms_ps := presplitter_done_sample ps', ms_nsampled_splits := nsampled\<rparr>, s3)))))"

definition mr_setup :: "('k, 'v, 's) mr_param \<Rightarrow> ('k, 'v) platform \<Rightarrow> nat list \<Rightarrow> ('k, 'v) kvst
    \<Rightarrow> (mr_state \<times> ('k, 'v) kvst) option res" where
  "mr_setup p pf sched s =
     run_bind (lift_res (app_set_arg (mp_env p) (mp_results p))) (\<lambda>pch.
     c_assert (mp_nr_cpus p \<le> core_count pf)
     (let nr_cpus = (if mp_nr_cpus p = 0 then core_count pf else mp_nr_cpus p) in
      run_bind (case presplitter_init (mp_split_func p) (mp_split_arg p) nr_cpus of
                  None \<Rightarrow> Inr None | Some m \<Rightarrow> lift_res m) (\<lambda>ps.
      let skip = (atype (mp_env p) = Atype_maponly);
          ms = \<lparr>ms_nr_cpus = nr_cpus, ms_ps = ps, ms_nsampled_splits = 0, ms_merge_nsplits = 0,
                ms_skip_reduce_phase = skip, ms_tasks = mp_tasks p\<rparr>
      in if skip then
           ret (ms\<lparr>ms_merge_nsplits := nr_cpus\<rparr>, kvst_init (mp_env p) pch nr_cpus 1 nr_cpus s)
         else
           run_bind (if mp_tasks p = 0
                     then run_bind (mr_sample p pf sched (ms\<lparr>ms_tasks := def_sample_reduce_tasks\<rparr>) s) (\<lambda>(ntasks, ms', s').
                          ret (ms'\<lparr>ms_tasks := max ntasks (nr_cpus * def_gr_tasks_per_cpu)\<rparr>, s'))
                     else ret (ms, s)) (\<lambda>(ms', s').
           ret (ms'\<lparr>ms_merge_nsplits := ms_tasks ms'\<rparr>,
                kvst_init (mp_env p) pch nr_cpus (ms_tasks ms') (ms_tasks ms') s')))))"

text \<open>The merge phase with \<^verbatim>\<open>psrs\<close> uses all workers at once.\<close>

definition mr_run_scheduler :: "('k, 'v, 's) mr_param \<Rightarrow> ('k, 'v) platform \<Rightarrow> nat list \<Rightarrow> nat list \<Rightarrow> nat list
    \<Rightarrow> ('k, 'v) kvst \<Rightarrow> (('k, 'v) app_results \<times> ('k, 'v) kvst) option res" where
  "mr_run_scheduler p pf sample_sched map_sched red_sched s =
     run_bind (mr_setup p pf sample_sched s) (\<lambda>(ms, s0).
     run_bind (map_phase p (qsorts pf) (ms_skip_reduce_phase ms) map_sched (ms_nr_cpus ms) (ms_ps ms) s0) (\<lambda>(ps, s1).
     run_bind (if ms_skip_reduce_phase ms then ret s1
               else reduce_phase p (qsorts pf) (ms_tasks ms) red_sched (ms_nr_cpus ms) s1) (\<lambda>s2.
     run_bind (kvst_merge (mp_env p) (mp_outcmp p) (qsorts pf) (ms_nr_cpus ms) (ms_skip_reduce_phase ms) s2) (\<lambda>s3.
     case (kv_rbkts s3, mp_results p) of
       (Some rb, Some res) \<Rightarrow> run_bind (lift_res (app_set_final_results rb res)) (\<lambda>res'. ret (res', s3))
     | _ \<Rightarrow> Inl Null_deref))))"

definition mr_finalize :: "('k, 'v) kvst \<Rightarrow> ('k, 'v) kvst" where
  "mr_finalize s = kvst_destroy s"

definition mr_reduce_emit :: "('k, 'v) env \<Rightarrow> nat \<Rightarrow> 'k \<Rightarrow> 'v \<Rightarrow> ('k, 'v) kvst \<Rightarrow> ('k, 'v) kvst res" where
  "mr_reduce_emit e cur_task key v s = kvst_reduce_put e cur_task key v s"

end
