(* ===== verification/Sched_Map.thy ===== *)
theory Sched_Map
  imports Sched
begin

text \<open>
  The map phase: whatever the interleaving of the workers, no step faults, and when all workers are
  done the rows of the bucket matrix hold the groups of exactly the pairs that the map function
  emits on the splits of the phase, together with what the backup of a sampling run held.
\<close>

section \<open>What an application promises\<close>

definition split_ok :: "('k, 'v, 's) mr_param \<Rightarrow> ('k \<Rightarrow> nat) \<Rightarrow> split \<Rightarrow> bool" where
  "split_ok p H sp \<longleftrightarrow> (case mp_map_func p sp of
     Inl _ \<Rightarrow> False
   | Inr es \<Rightarrow> \<forall>(k, v, l) \<in> set es. part_func p k l = Inr (H k) \<and> keycopy_ok (mp_env p) k l)"

definition put_of :: "('k \<Rightarrow> nat) \<Rightarrow> 'k \<times> 'v \<times> nat \<Rightarrow> ('k, 'v) put" where
  "put_of H = (\<lambda>(k, v, l). (k, v, l, H k))"

definition split_puts :: "('k, 'v, 's) mr_param \<Rightarrow> ('k \<Rightarrow> nat) \<Rightarrow> split \<Rightarrow> ('k, 'v) put list" where
  "split_puts p H sp = (case mp_map_func p sp of Inl _ \<Rightarrow> [] | Inr es \<Rightarrow> map (put_of H) es)"

locale mr_job =
  fixes p :: "('k, 'v, 's) mr_param" and M :: "'v list \<Rightarrow> 'm" and H :: "'k \<Rightarrow> nat"
  assumes job_env: "mr_env (mp_env p)" and job_summary: "value_summary (mp_env p) M"
    and job_hash: "hash_ok (mp_env p) H"
    and job_reduces: "atype (mp_env p) \<noteq> Atype_maponly" "reduces_ok (mp_env p)"
    and job_out: "reduce_func (mp_env p) = Some rf \<Longrightarrow> length (rf k vs) \<le> 1"

sublocale mr_job \<subseteq> bt: grouped "mp_env p" M "hkvsbtree (mp_env p)" "bt_inv (mp_env p)" bt_elems bt_it_ok
    bt_rest freeable
  by (rule grouped_btree [OF job_env job_summary])

section \<open>Counting with multisets\<close>

lemma mset_pending_update:
  "w < length xs \<Longrightarrow> mset (concat (map f (xs[w := x]))) + mset (f (xs ! w)) = mset (concat (map f xs)) + mset (f x)"
proof (induction xs arbitrary: w)
  case (Cons y xs)
  show ?case
  proof (cases w)
    case (Suc w')
    with Cons.IH [of w'] Cons.prems show ?thesis
      by (simp add: ac_simps)
  qed (simp add: ac_simps)
qed simp

lemma mset_pending_update_same:
  "w < length xs \<Longrightarrow> f x = f (xs ! w) \<Longrightarrow> mset (concat (map f (xs[w := x]))) = mset (concat (map f xs))"
  using mset_pending_update [of w xs f x] by simp

lemma mset_balance:
  fixes A :: "'a multiset"
  assumes "A' + a = A + y" "B' + b = B + x" "y + x + R' = a + b + R" "A + B + R = T"
  shows "A' + B' + R' = T"
proof -
  have "(A' + B' + R') + (a + b) = (A' + a) + (B' + b) + R'"
    by (simp only: ac_simps)
  also have "\<dots> = (A + B) + (y + x + R')"
    by (simp only: assms(1,2) ac_simps)
  also have "\<dots> = (A + B + R) + (a + b)"
    unfolding assms(3) by (simp only: ac_simps)
  finally show ?thesis
    by (simp add: assms(4))
qed

lemma length_nth_concat: "w < length xs \<Longrightarrow> length (xs ! w) \<le> length (concat xs)"
  by (induction xs arbitrary: w) (auto simp: nth_Cons split: nat.splits intro: trans_le_add2)

lemma sum_list_update:
  fixes f :: "'a \<Rightarrow> nat"
  shows "w < length xs \<Longrightarrow> sum_list (map f (xs[w := x])) + f (xs ! w) = sum_list (map f xs) + f x"
  by (induction xs arbitrary: w) (auto simp: nth_Cons split: nat.splits)

section \<open>Fair schedules\<close>

text \<open>
  If every step of a worker that has not finished lowers a measure, each worker finishes when the
  schedule gives it more turns than the measure at the start.
\<close>

lemma run_workers_fair:
  assumes step: "\<And>w r. w < n \<Longrightarrow> I r \<Longrightarrow>
      completes (step w r) (\<lambda>r'. I r' \<and> mu r' + (if fin r w then 0 else 1) \<le> (mu r :: nat) \<and> (\<forall>v. fin r v \<longrightarrow> fin r' v))"
  shows "set sched \<subseteq> {..<n} \<Longrightarrow> I r \<Longrightarrow> completes (run_workers step sched r)
    (\<lambda>r'. I r' \<and> mu r' \<le> mu r \<and> (\<forall>v. fin r v \<longrightarrow> fin r' v) \<and> (\<forall>w. fin r' w \<or> mu r' + count_list sched w \<le> mu r))"
proof (induction sched arbitrary: r)
  case (Cons w ws)
  obtain r1 where r1: "step w r = Inr (Some r1)" "I r1" "mu r1 + (if fin r w then 0 else 1) \<le> mu r" "\<forall>v. fin r v \<longrightarrow> fin r1 v"
    using step [of w r] Cons.prems by (auto simp: completes_iff)
  obtain r2 where r2: "run_workers step ws r1 = Inr (Some r2)" "I r2" "mu r2 \<le> mu r1" "\<forall>v. fin r1 v \<longrightarrow> fin r2 v"
      "\<forall>v. fin r2 v \<or> mu r2 + count_list ws v \<le> mu r1"
    using Cons.IH [of r1] r1 Cons.prems(1) by (auto simp: completes_iff)
  have "fin r2 v \<or> mu r2 + count_list (w # ws) v \<le> mu r" for v
    using r1(3,4) r2(4) spec [OF r2(5), of v] by (cases "v = w"; cases "fin r w") auto
  then show ?case
    using r1 r2 by auto
qed (auto simp: ret_def completes_def)

section \<open>The invariant\<close>

fun pending :: "('k \<Rightarrow> nat) \<Rightarrow> ('k, 'v) mpc \<Rightarrow> ('k, 'v) put list" where
  "pending H (M_emit es) = map (put_of H) es"
| "pending H _ = []"

fun pending_ok :: "('k, 'v, 's) mr_param \<Rightarrow> ('k \<Rightarrow> nat) \<Rightarrow> ('k, 'v) mpc \<Rightarrow> bool" where
  "pending_ok p H (M_emit es) \<longleftrightarrow> (\<forall>(k, v, l) \<in> set es. part_func p k l = Inr (H k) \<and> keycopy_ok (mp_env p) k l)"
| "pending_ok p H _ \<longleftrightarrow> True"

text \<open>
  The groups of the rows: a worker that has not started has an empty row, the others have what the
  backup held (\<open>Bs\<close>) and what they have put since (\<open>P\<close>).
\<close>

definition row_groups :: "('k, 'v) env \<Rightarrow> ('k, 'v) group list list \<Rightarrow> ('k, 'v) mpc list \<Rightarrow> ('k, 'v) put list list
    \<Rightarrow> ('k, 'v) group list list" where
  "row_groups e Bs pcs P =
     map (\<lambda>w. if pcs ! w = M_start then [] else fold (put_group e) (P ! w) (Bs ! w)) [0..<length pcs]"

lemma row_groups_update:
  assumes "w < length pcs" "length P = length pcs"
  shows "row_groups e Bs (pcs[w := x]) (P[w := y]) =
    (row_groups e Bs pcs P)[w := if x = M_start then [] else fold (put_group e) y (Bs ! w)]"
  using assms by (intro nth_equalityI) (auto simp: row_groups_def nth_list_update)

lemma row_groups_length [simp]: "length (row_groups e Bs pcs P) = length pcs"
  by (simp add: row_groups_def)

lemma row_groups_nth:
  "w < length pcs \<Longrightarrow> row_groups e Bs pcs P ! w = (if pcs ! w = M_start then [] else fold (put_group e) (P ! w) (Bs ! w))"
  by (simp add: row_groups_def)

definition put_good :: "('k, 'v) env \<Rightarrow> ('k \<Rightarrow> nat) \<Rightarrow> ('k, 'v) put \<Rightarrow> bool" where
  "put_good e H = (\<lambda>(k, v, l, h). keycopy_ok e k l \<and> h = H k)"

text \<open>The control part: which splits have been handed out and where their pairs are.\<close>

definition ctl_inv :: "('k, 'v, 's) mr_param \<Rightarrow> ('k \<Rightarrow> nat) \<Rightarrow> nat \<Rightarrow> presplitter_state \<Rightarrow> ('k, 'v) put multiset
    \<Rightarrow> nat \<Rightarrow> ('k, 'v) mpc list \<Rightarrow> ('k, 'v) put list list \<Rightarrow> bool" where
  "ctl_inv p H n ps0 T i pcs P \<longleftrightarrow>
     i \<le> ps_nsplits ps0 + length (filter (\<lambda>pc. pc = M_done) pcs) \<and>
     (M_done \<in> set pcs \<longrightarrow> ps_nsplits ps0 \<le> i) \<and>
     mset (concat P) + mset (concat (map (pending H) pcs)) +
       mset (concat (map (split_puts p H) (drop i (take (ps_nsplits ps0) (ps_ma ps0))))) = T \<and>
     length pcs = n \<and> length P = n \<and> (\<forall>pc \<in> set pcs. pending_ok p H pc) \<and>
     (\<forall>w < n. pcs ! w = M_start \<longrightarrow> P ! w = []) \<and> (\<forall>q \<in> set (concat P). put_good (mp_env p) H q)"

lemma start_update: "v < length pcs \<Longrightarrow> pcs[w := x] ! v = M_start \<Longrightarrow> x \<noteq> M_start \<Longrightarrow> v \<noteq> w \<and> pcs ! v = M_start"
  by (cases "v = w") auto

lemma set_concat_update: "set (concat (P[w := y])) \<subseteq> set (concat P) \<union> set y"
  using set_update_subset_insert [of P w y] by auto

lemma ctl_inv_update:
  assumes inv: "ctl_inv p H n ps0 T i pcs P" and w: "w < n" "x \<noteq> M_start" "pending_ok p H x"
    and i': "i \<le> i'" "i' \<le> ps_nsplits ps0 + length (filter (\<lambda>pc. pc = M_done) (pcs[w := x]))"
      "x = M_done \<longrightarrow> ps_nsplits ps0 \<le> i'"
    and y: "\<forall>q \<in> set y. put_good (mp_env p) H q"
    and bal: "mset y + mset (pending H x) + mset (concat (map (split_puts p H) (drop i' (take (ps_nsplits ps0) (ps_ma ps0))))) =
      mset (P ! w) + mset (pending H (pcs ! w)) + mset (concat (map (split_puts p H) (drop i (take (ps_nsplits ps0) (ps_ma ps0)))))"
  shows "ctl_inv p H n ps0 T i' (pcs[w := x]) (P[w := y])"
proof -
  have len: "w < length pcs" "w < length P" "length pcs = n" "length P = n"
    using inv w(1) by (auto simp: ctl_inv_def)
  note upd = mset_pending_update [OF len(2), of "\<lambda>x. x" y, simplified] mset_pending_update [OF len(1), of "pending H" x]
  have "mset (concat (P[w := y])) + mset (concat (map (pending H) (pcs[w := x]))) +
      mset (concat (map (split_puts p H) (drop i' (take (ps_nsplits ps0) (ps_ma ps0))))) = T"
    using inv by (intro mset_balance [OF upd bal]) (simp add: ctl_inv_def)
  moreover have "M_done \<in> set (pcs[w := x]) \<longrightarrow> ps_nsplits ps0 \<le> i'"
    using inv i' set_update_subset_insert [of pcs w x] by (auto simp: ctl_inv_def)
  moreover have "\<forall>pc \<in> set (pcs[w := x]). pending_ok p H pc"
    using inv w(3) set_update_subset_insert [of pcs w x] by (auto simp: ctl_inv_def)
  moreover have "P[w := y] ! v = []" if "v < n" "pcs[w := x] ! v = M_start" for v
    using inv start_update [OF _ that(2) w(2)] that(1) len by (auto simp: ctl_inv_def)
  moreover have "\<forall>q \<in> set (concat (P[w := y])). put_good (mp_env p) H q"
    using inv y set_concat_update [of P w y] by (auto simp: ctl_inv_def simp del: set_concat)
  ultimately show ?thesis
    using i'(2) len by (simp add: ctl_inv_def)
qed

lemma done_update:
  assumes "w < length pcs" "pcs ! w \<noteq> M_done"
  shows "length (filter (\<lambda>pc. pc = M_done) (pcs[w := x])) = length (filter (\<lambda>pc. pc = M_done) pcs) + (if x = M_done then 1 else 0)"
  using assms(2) by (subst upd_conv_take_nth_drop [OF assms(1)], subst (3) id_take_nth_drop [OF assms(1)]) simp

lemma presplitter_idx:
  assumes "ps_nsplits ps0 \<le> length (ps_ma ps0)" "i < 2 ^ 31 - 1"
  shows "presplitter (ps0\<lparr>ps_idx := int i\<rparr>) =
    Inr (if i < ps_nsplits ps0 then Some (ps_ma ps0 ! i) else None, ps0\<lparr>ps_idx := int (i + 1)\<rparr>)"
proof -
  have "int i mod 2 ^ 64 = int i"
    using assms(2) by simp
  moreover have "s32 (int i + 1) = int (i + 1)"
    using assms(2) by (simp add: s32_def)
  ultimately show ?thesis
    using assms(1) by (simp add: presplitter_def Let_def)
qed

context mr_job
begin

text \<open>The backup still holds the rows of the workers that have not started.\<close>

definition backup_ok :: "bool \<Rightarrow> ('k, 'v) group list list \<Rightarrow> ('k, 'v) btree mapper \<Rightarrow> ('k, 'v) mpc list \<Rightarrow> bool" where
  "backup_ok hb Bs bak pcs \<longleftrightarrow>
     (if hb then 0 < map_cols bak \<and> mbks bak \<noteq> None \<and>
        (\<forall>w < length pcs. pcs ! w = M_start \<longrightarrow> (\<exists>bs. has_row bak w bs \<and> bt.row_rep UNIV (map_cols bak) bs (\<lambda>_. True) (Bs ! w)))
      else \<forall>w < length pcs. Bs ! w = [])"

lemma backup_ok_update: "backup_ok hb Bs bak pcs \<Longrightarrow> x \<noteq> M_start \<Longrightarrow> backup_ok hb Bs bak (pcs[w := x])"
  using start_update [of _ pcs w x] by (auto simp: backup_ok_def)

lemma backup_ok_moved:
  assumes "backup_ok True Bs bak pcs" "x \<noteq> M_start" "map_cols bak' = map_cols bak" "mbks bak' \<noteq> None"
    and "\<forall>r bs. r \<noteq> w \<longrightarrow> has_row bak r bs \<longrightarrow> has_row bak' r bs"
  shows "backup_ok True Bs bak' (pcs[w := x])"
  using assms by (fastforce simp: backup_ok_def dest: start_update)

text \<open>The store part.\<close>

definition store_inv :: "bool \<Rightarrow> nat \<Rightarrow> ('k, 'v) group list list \<Rightarrow> ('k, 'v) rbkts option \<Rightarrow> ('k, 'v) kvst
    \<Rightarrow> ('k, 'v) mpc list \<Rightarrow> ('k, 'v) put list list \<Rightarrow> bool" where
  "store_inv hb C Bs rb s pcs P \<longleftrightarrow>
     kv_imgr s = Index_btree \<and> kv_has_backup s = hb \<and> kv_rbkts s = rb \<and> length pcs \<le> length (kv_est s) \<and>
     map_cols (mb_mapper (kv_btree s)) = C \<and>
     bt.mapper_rep UNIV (mb_mapper (kv_btree s)) (row_groups (mp_env p) Bs pcs P) \<and>
     backup_ok hb Bs (mb_bak (kv_btree s)) pcs"

definition base_ok :: "nat \<Rightarrow> ('k, 'v) group list list \<Rightarrow> nat \<Rightarrow> bool" where
  "base_ok n Bs sz \<longleftrightarrow> length Bs = n \<and> (\<forall>w < n. groups_ok (mp_env p) H (Bs ! w) \<and> grp_size (Bs ! w) + sz \<le> 2 ^ 31)"

lemma groups_ok_fold:
  "groups_ok (mp_env p) H G \<Longrightarrow> \<forall>q \<in> set qs. put_good (mp_env p) H q \<Longrightarrow>
     groups_ok (mp_env p) H (fold (put_group (mp_env p)) qs G)"
proof (induction qs arbitrary: G)
  case (Cons q qs)
  obtain k v l h where q: "q = (k, v, l, h)"
    by (cases q)
  have "groups_ok (mp_env p) H (put_group (mp_env p) q G)"
    using Cons.prems unfolding q by (intro bt.groups_ok_put job_hash) (auto simp: put_good_def put_ok_def)
  with Cons show ?case
    by simp
qed simp

lemma row_groups_start:
  assumes "w < length pcs" "length P = length pcs" "P ! w = []"
  shows "row_groups (mp_env p) Bs (pcs[w := M_fetch]) P = (row_groups (mp_env p) Bs pcs P)[w := Bs ! w]"
proof -
  have "P[w := []] = P"
    using list_update_id [of P w] assms(3) by simp
  then show ?thesis
    using row_groups_update [of w pcs P "mp_env p" Bs M_fetch "[]"] assms by simp
qed

lemma worker_init_ok:
  assumes inv: "store_inv hb C Bs rb s pcs P" and base: "base_ok (length pcs) Bs sz"
    and w: "w < length pcs" "length P = length pcs" "pcs ! w = M_start" "P ! w = []"
  shows "succeeds (kvst_map_worker_init (mp_env p) w s) (\<lambda>s'. store_inv hb C Bs rb s' (pcs[w := M_fetch]) P)"
proof (cases hb)
  case False
  then have "Bs ! w = []" and "row_groups (mp_env p) Bs pcs P ! w = []"
    using inv w by (auto simp: store_inv_def backup_ok_def row_groups_nth)
  then have "row_groups (mp_env p) Bs (pcs[w := M_fetch]) P = row_groups (mp_env p) Bs pcs P"
    using row_groups_start [OF w(1,2,4)] by (metis list_update_id)
  with False inv show ?thesis
    by (simp add: store_inv_def kvst_map_worker_init_def backup_ok_update)
next
  case True
  let ?b = "kv_btree s"
  obtain bs where bs: "has_row (mb_bak ?b) w bs" "bt.row_rep UNIV (map_cols (mb_bak ?b)) bs (\<lambda>_. True) (Bs ! w)"
    using inv w(1,3) True by (auto simp: store_inv_def backup_ok_def)
  have G: "groups_ok (mp_env p) H (Bs ! w)" "grp_size (Bs ! w) \<le> 2 ^ 31"
    using base w(1) by (auto simp: base_ok_def)
  have m: "bt.mapper_rep UNIV (mb_mapper ?b) (row_groups (mp_env p) Bs pcs P)" "0 < map_cols (mb_bak ?b)"
    using inv True by (auto simp: store_inv_def backup_ok_def)
  have "succeeds (mbm_rehash_bak (hkvsbtree (mp_env p)) w ?b)
      (bt.moved ?b w ((row_groups (mp_env p) Bs pcs P)[w := Bs ! w]))"
    using G groups_ok_length [OF G(1)] w(1,3)
    by (intro bt.rehash_bak_ok(1) [OF m(1) _ _ bs m(2)]) (auto simp: row_groups_nth groups_ok_def)
  then obtain b where b: "mbm_rehash_bak (hkvsbtree (mp_env p)) w ?b = Inr b"
      "bt.moved ?b w ((row_groups (mp_env p) Bs pcs P)[w := Bs ! w]) b"
    by (auto elim: succeedsE)
  have "kvst_map_worker_init (mp_env p) w s = Inr (s\<lparr>kv_btree := b\<rparr>)"
    using b(1) inv True job_reduces(1) by (simp add: store_inv_def kvst_map_worker_init_def mgr_rehash_bak_def)
  moreover have "backup_ok True Bs (mb_bak b) (pcs[w := M_fetch])"
    using inv True b(2) by (intro backup_ok_moved [of _ "mb_bak ?b"]) (auto simp: store_inv_def bt.moved_def)
  ultimately show ?thesis
    using inv True b(2) row_groups_start [OF w(1,2,4)] by (simp add: store_inv_def bt.moved_def)
qed

lemma map_emit_ok:
  assumes inv: "store_inv hb C Bs rb s pcs P" and base: "base_ok (length pcs) Bs sz"
    and w: "w < length pcs" "length P = length pcs" "pcs ! w = M_emit ((k, v, l) # es)"
    and ok: "pending_ok p H (pcs ! w)" "\<forall>q \<in> set (P ! w). put_good (mp_env p) H q" "length (P ! w) < sz"
  shows "succeeds (mr_map_emit p w k v l s)
    (\<lambda>s'. store_inv hb C Bs rb s' (pcs[w := M_emit es]) (P[w := P ! w @ [put_of H (k, v, l)]]))"
proof -
  let ?G = "row_groups (mp_env p) Bs pcs P" and ?b = "kv_btree s"
  have row: "?G ! w = fold (put_group (mp_env p)) (P ! w) (Bs ! w)"
    using w by (simp add: row_groups_nth)
  have B: "groups_ok (mp_env p) H (Bs ! w)" "grp_size (Bs ! w) + sz \<le> 2 ^ 31"
    using base w(1) by (auto simp: base_ok_def)
  have part: "part_func p k l = Inr (H k)" "put_ok (mp_env p) (k, v, l, H k)"
    using ok(1) w(3) by (auto simp: put_ok_def)
  have "succeeds (mbm_map_put (hkvsbtree (mp_env p)) w k v l (H k) (?b, kv_est s)) (\<lambda>(b', est').
      bt.mapper_rep UNIV (mb_mapper b') (?G[w := put_group (mp_env p) (k, v, l, H k) (?G ! w)]) \<and>
      mb_bak b' = mb_bak ?b \<and> map_cols (mb_mapper b') = map_cols (mb_mapper ?b) \<and>
      length est' = length (kv_est s))"
  proof (rule bt.map_put_ok)
    show "groups_ok (mp_env p) H (?G ! w)"
      unfolding row by (rule groups_ok_fold [OF B(1) ok(2)])
    show "grp_size (?G ! w) < 2 ^ 31"
      unfolding row grp_size_fold using B(2) ok(3) by simp
  qed (use inv w(1) job_hash part(2) in \<open>auto simp: store_inv_def\<close>)
  moreover have "row_groups (mp_env p) Bs (pcs[w := M_emit es]) (P[w := P ! w @ [put_of H (k, v, l)]]) =
      ?G[w := put_group (mp_env p) (k, v, l, H k) (?G ! w)]"
    using row_groups_update [OF w(1,2), of "mp_env p" Bs "M_emit es" "P ! w @ [put_of H (k, v, l)]"]
    by (simp add: row put_of_def)
  ultimately show ?thesis
    using inv part(1)
    by (auto simp: mr_map_emit_def kvst_map_put_def store_inv_def backup_ok_update elim!: succeeds_mono)
qed

lemma store_inv_pc:
  assumes "store_inv hb C Bs rb s pcs P" "w < length pcs" "length P = length pcs" "pcs ! w \<noteq> M_start" "x \<noteq> M_start"
  shows "store_inv hb C Bs rb s (pcs[w := x]) P"
proof -
  have "row_groups (mp_env p) Bs (pcs[w := x]) P = row_groups (mp_env p) Bs pcs P"
    using row_groups_update [OF assms(2,3), of "mp_env p" Bs x "P ! w"] assms(2,4,5)
    by (simp add: row_groups_nth list_update_same_conv)
  with assms show ?thesis
    by (simp add: store_inv_def backup_ok_update)
qed

lemma task_finished_ok:
  assumes "store_inv hb C Bs rb s pcs P" "w < length pcs"
  shows "succeeds (kvst_map_task_finished w s) (\<lambda>s'. store_inv hb C Bs rb s' pcs P)"
  using assms by (auto simp: store_inv_def kvst_map_task_finished_def est_row_def)

section \<open>One step\<close>

definition map_inv :: "bool \<Rightarrow> nat \<Rightarrow> nat \<Rightarrow> ('k, 'v) group list list \<Rightarrow> ('k, 'v) rbkts option \<Rightarrow> presplitter_state
    \<Rightarrow> ('k, 'v) put multiset \<Rightarrow> ('k, 'v) map_run \<Rightarrow> bool" where
  "map_inv hb n C Bs rb ps0 T r \<longleftrightarrow> (\<exists>i P. mw_ps r = ps0\<lparr>ps_idx := int i\<rparr> \<and>
     ctl_inv p H n ps0 T i (mw_pcs r) P \<and> store_inv hb C Bs rb (mw_store r) (mw_pcs r) P)"

text \<open>What a phase starts from: splits that the map function accepts, no counter near its limit.\<close>

definition phase_ok :: "nat \<Rightarrow> ('k, 'v) group list list \<Rightarrow> presplitter_state \<Rightarrow> ('k, 'v) put multiset \<Rightarrow> bool" where
  "phase_ok n Bs ps0 T \<longleftrightarrow> base_ok n Bs (size T) \<and> ps_nsplits ps0 \<le> length (ps_ma ps0) \<and>
     ps_nsplits ps0 + n < 2 ^ 31 \<and> (\<forall>sp \<in> set (take (ps_nsplits ps0) (ps_ma ps0)). split_ok p H sp)"

lemma map_invI:
  "mw_ps r = ps0\<lparr>ps_idx := int i\<rparr> \<Longrightarrow> ctl_inv p H n ps0 T i (mw_pcs r) P \<Longrightarrow> store_inv hb C Bs rb (mw_store r) (mw_pcs r) P \<Longrightarrow>
     map_inv hb n C Bs rb ps0 T r"
  unfolding map_inv_def by blast

lemma ctl_length:
  assumes "ctl_inv p H n ps0 T i pcs P" "w < n" "pending H (pcs ! w) \<noteq> []"
  shows "length (P ! w) < size T"
proof -
  have w: "w < length P" "w < length pcs"
    using assms by (auto simp: ctl_inv_def)
  have "length (pending H (pcs ! w)) \<le> length (concat (map (pending H) pcs))"
    using length_nth_concat [of w "map (pending H) pcs"] w(2) by simp
  moreover have "0 < length (pending H (pcs ! w))"
    using assms(3) by simp
  ultimately have "0 < length (concat (map (pending H) pcs))"
    by linarith
  moreover have "size T = length (concat P) + length (concat (map (pending H) pcs)) +
      length (concat (map (split_puts p H) (drop i (take (ps_nsplits ps0) (ps_ma ps0)))))"
    using assms(1) by (auto simp: ctl_inv_def simp del: length_concat)
  ultimately show ?thesis
    using length_nth_concat [OF w(1)] by linarith
qed

lemma fetch_bound:
  assumes ok: "phase_ok n Bs ps0 T" and ctl: "ctl_inv p H n ps0 T i pcs P" and w: "w < n" "pcs ! w = M_fetch"
  shows "i < 2 ^ 31 - 1"
proof -
  have len: "w < length pcs" "length pcs = n"
    using ctl w(1) by (auto simp: ctl_inv_def)
  have "length (filter (\<lambda>pc. pc = M_done) pcs) < length pcs"
    using nth_mem [OF len(1)] w(2) by (intro length_filter_less [of "pcs ! w"]) auto
  then show ?thesis
    using ctl ok len(2) by (auto simp: ctl_inv_def phase_ok_def)
qed

text \<open>A worker takes a split, or finds that there is none left.\<close>

lemma fetch_ok:
  assumes ok: "phase_ok n Bs ps0 T" and ctl: "ctl_inv p H n ps0 T i (mw_pcs r) P"
    and st: "store_inv hb C Bs rb (mw_store r) (mw_pcs r) P" "mw_ps r = ps0\<lparr>ps_idx := int i\<rparr>"
    and w: "w < n" "mw_pcs r ! w = M_fetch"
  shows "succeeds (mr_map_worker p qs False w r) (map_inv hb n C Bs rb ps0 T)"
proof -
  let ?S = "take (ps_nsplits ps0) (ps_ma ps0)"
  have len: "w < length (mw_pcs r)" "length P = length (mw_pcs r)" "w < length P"
    using ctl w(1) by (auto simp: ctl_inv_def)
  have small: "i < 2 ^ 31 - 1"
    by (rule fetch_bound [OF ok ctl w])
  have y: "\<forall>q \<in> set (P ! w). put_good (mp_env p) H q"
    using ctl len(3) by (auto simp: ctl_inv_def)
  have done_eq: "length (filter (\<lambda>pc. pc = M_done) ((mw_pcs r)[w := x])) =
      length (filter (\<lambda>pc. pc = M_done) (mw_pcs r)) + (if x = M_done then 1 else 0)" for x
    using done_update [OF len(1)] w(2) by simp
  have nsp: "ps_nsplits ps0 \<le> length (ps_ma ps0)"
    using ok by (simp add: phase_ok_def)
  show ?thesis
  proof (cases "i < ps_nsplits ps0")
    case False
    have "ctl_inv p H n ps0 T (i + 1) ((mw_pcs r)[w := M_done]) (P[w := P ! w])"
      using ctl False by (intro ctl_inv_update [OF ctl w(1) _ _ _ _ _ y]) (simp_all add: w(2) done_eq ctl_inv_def)
    moreover have "store_inv hb C Bs rb (mw_store r) ((mw_pcs r)[w := M_done]) P"
      using st(1) len w(2) by (intro store_inv_pc) auto
    ultimately show ?thesis
      using False len(1) w(2) presplitter_idx [OF nsp small] st(2)
      by (auto simp: mr_map_worker_def kvst_map_worker_finished_def intro!: map_invI)
  next
    case True
    let ?sp = "ps_ma ps0 ! i"
    have lenS: "i < length ?S"
      using True nsp by simp
    have S: "drop i ?S = ?sp # drop (i + 1) ?S"
      using Cons_nth_drop_Suc [OF lenS, symmetric] by (simp only: nth_take [OF True] Suc_eq_plus1)
    have "?sp \<in> set ?S"
      using nth_mem [OF lenS] by (simp only: nth_take [OF True])
    then have "split_ok p H ?sp"
      using ok by (simp only: phase_ok_def)
    then obtain es where es: "mp_map_func p ?sp = Inr es"
        "\<forall>(k, v, l) \<in> set es. part_func p k l = Inr (H k) \<and> keycopy_ok (mp_env p) k l"
      by (auto simp: split_ok_def split: sum.splits)
    have "ctl_inv p H n ps0 T (i + 1) ((mw_pcs r)[w := M_emit es]) (P[w := P ! w])"
      using True es by (intro ctl_inv_update [OF ctl w(1) _ _ _ _ _ y])
        (simp_all add: w(2) done_eq S split_puts_def)
    moreover have "store_inv hb C Bs rb (mw_store r) ((mw_pcs r)[w := M_emit es]) P"
      using st(1) len w(2) by (intro store_inv_pc) auto
    ultimately show ?thesis
      using True len(1) w(2) presplitter_idx [OF nsp small] st(2) es(1)
      by (auto simp: mr_map_worker_def intro!: map_invI)
  qed
qed

lemma map_step_ok:
  assumes ok: "phase_ok n Bs ps0 T" and inv: "map_inv hb n C Bs rb ps0 T r" and w: "w < n"
  shows "succeeds (mr_map_worker p qs False w r) (map_inv hb n C Bs rb ps0 T)"
proof -
  obtain i P where i: "mw_ps r = ps0\<lparr>ps_idx := int i\<rparr>" and ctl: "ctl_inv p H n ps0 T i (mw_pcs r) P"
    and st: "store_inv hb C Bs rb (mw_store r) (mw_pcs r) P"
    using inv by (auto simp: map_inv_def)
  have len: "length (mw_pcs r) = n" "length P = length (mw_pcs r)" "w < length (mw_pcs r)" "w < length P"
    using ctl w by (auto simp: ctl_inv_def)
  have y: "\<forall>q \<in> set (P ! w). put_good (mp_env p) H q"
    using ctl len(4) by (auto simp: ctl_inv_def)
  have pok: "pending_ok p H (mw_pcs r ! w)"
    using ctl len(3) by (auto simp: ctl_inv_def)
  have base: "base_ok (length (mw_pcs r)) Bs (size T)"
    using ok len(1) by (simp add: phase_ok_def)
  have bound: "i \<le> ps_nsplits ps0 + length (filter (\<lambda>pc. pc = M_done) (mw_pcs r))"
    using ctl by (simp add: ctl_inv_def)
  note ctl' = ctl_inv_update [OF ctl w _ _ order_refl]
  show ?thesis
  proof (cases "mw_pcs r ! w")
    case M_start
    then have "P ! w = []"
      using ctl w by (simp add: ctl_inv_def)
    note st' = worker_init_ok [OF st base len(3,2) M_start this]
    have "ctl_inv p H n ps0 T i ((mw_pcs r)[w := M_fetch]) (P[w := P ! w])"
      using bound by (intro ctl') (simp_all add: M_start y done_update len(3))
    then show ?thesis
      using st' M_start len(3) i
      by (auto simp: mr_map_worker_def elim!: succeedsE intro!: map_invI)
  next
    case M_fetch
    show ?thesis
      by (rule fetch_ok [OF ok ctl st i w M_fetch])
  next
    case M_done
    with inv len(3) show ?thesis
      by (simp add: mr_map_worker_def)
  next
    case (M_emit es)
    show ?thesis
    proof (cases es)
      case Nil
      have "ctl_inv p H n ps0 T i ((mw_pcs r)[w := M_fetch]) (P[w := P ! w])"
        using bound by (intro ctl') (simp_all add: M_emit Nil y done_update len(3))
      then show ?thesis
        using task_finished_ok [OF store_inv_pc [OF st len(3,2), of M_fetch] , of w] M_emit Nil len(3) i
        by (auto simp: mr_map_worker_def elim!: succeedsE intro!: map_invI)
    next
      case (Cons q es')
      obtain k v l where q: "q = (k, v, l)"
        by (cases q)
      have pc: "mw_pcs r ! w = M_emit ((k, v, l) # es')"
        using M_emit Cons q by simp
      have "length (P ! w) < size T"
        using pc by (intro ctl_length [OF ctl w]) simp
      note st' = map_emit_ok [OF st base len(3,2) pc pok y this]
      have "put_good (mp_env p) H (put_of H (k, v, l))"
        using pok pc by (auto simp: put_good_def put_of_def)
      then have "ctl_inv p H n ps0 T i ((mw_pcs r)[w := M_emit es']) (P[w := P ! w @ [put_of H (k, v, l)]])"
        using bound pok y by (intro ctl') (auto simp: pc done_update len(3))
      then show ?thesis
        using st' pc len(3) i by (auto simp: mr_map_worker_def elim!: succeedsE intro!: map_invI)
    qed
  qed
qed

end

section \<open>Progress\<close>

fun pc_work :: "('k, 'v) mpc \<Rightarrow> nat" where
  "pc_work M_start = 2"
| "pc_work M_fetch = 1"
| "pc_work (M_emit es) = length es + 2"
| "pc_work M_done = 0"

definition split_work :: "('k, 'v, 's) mr_param \<Rightarrow> split \<Rightarrow> nat" where
  "split_work p sp = (case mp_map_func p sp of Inl _ \<Rightarrow> 2 | Inr es \<Rightarrow> length es + 2)"

definition map_work :: "('k, 'v, 's) mr_param \<Rightarrow> ('k, 'v) map_run \<Rightarrow> nat" where
  "map_work p r = sum_list (map (split_work p) (drop (nat (ps_idx (mw_ps r))) (take (ps_nsplits (mw_ps r)) (ps_ma (mw_ps r))))) +
     sum_list (map pc_work (mw_pcs r))"

lemma done_keeps: "pcs ! w \<noteq> M_done \<Longrightarrow> pcs ! v = M_done \<Longrightarrow> pcs[w := x] ! v = M_done"
  by (cases "v = w") auto

lemma map_step_work:
  assumes step: "mr_map_worker p qs skip w r = Inr r'" and w: "w < length (mw_pcs r)"
    and fetch: "mw_pcs r ! w = M_fetch \<Longrightarrow> 0 \<le> ps_idx (mw_ps r) \<and> ps_idx (mw_ps r) < 2 ^ 31 - 1"
    and nsp: "ps_nsplits (mw_ps r) \<le> length (ps_ma (mw_ps r))"
  shows "map_work p r' + (if mw_pcs r ! w = M_done then 0 else 1) \<le> map_work p r"
    and "mw_pcs r ! v = M_done \<longrightarrow> mw_pcs r' ! v = M_done"
proof -
  note upd = sum_list_update [OF w, of pc_work]
  have "map_work p r' + (if mw_pcs r ! w = M_done then 0 else 1) \<le> map_work p r \<and>
      (mw_pcs r ! v = M_done \<longrightarrow> mw_pcs r' ! v = M_done)"
  proof (cases "mw_pcs r ! w")
    case M_fetch
    define i where "i = nat (ps_idx (mw_ps r))"
    let ?ps = "mw_ps r"
    have i: "?ps = ?ps\<lparr>ps_idx := int i\<rparr>" "i < 2 ^ 31 - 1"
      using fetch [OF M_fetch] by (auto simp: i_def)
    have get: "presplitter ?ps =
        Inr (if i < ps_nsplits ?ps then Some (ps_ma ?ps ! i) else None, ?ps\<lparr>ps_idx := int (i + 1)\<rparr>)"
      using presplitter_idx [OF nsp i(2)] i(1) by simp
    show ?thesis
    proof (cases "i < ps_nsplits ?ps")
      case True
      have lenS: "i < length (take (ps_nsplits ?ps) (ps_ma ?ps))"
        using True nsp by simp
      obtain es where es: "mp_map_func p (ps_ma ?ps ! i) = Inr es"
          "r' = r\<lparr>mw_ps := ?ps\<lparr>ps_idx := int (i + 1)\<rparr>, mw_pcs := (mw_pcs r)[w := M_emit es]\<rparr>"
        using step w True by (cases "mp_map_func p (ps_ma ?ps ! i)") (auto simp: mr_map_worker_def M_fetch get)
      have "sum_list (map (split_work p) (drop i (take (ps_nsplits ?ps) (ps_ma ?ps)))) =
          length es + 2 + sum_list (map (split_work p) (drop (Suc i) (take (ps_nsplits ?ps) (ps_ma ?ps))))"
        unfolding Cons_nth_drop_Suc [OF lenS, symmetric] by (simp only: nth_take [OF True]) (simp add: split_work_def es(1))
      then show ?thesis
        using upd [of "M_emit es"] M_fetch unfolding es(2)
        by (simp add: map_work_def i_def [symmetric] nat_add_distrib done_keeps)
    next
      case False
      then obtain s where "r' = r\<lparr>mw_ps := ?ps\<lparr>ps_idx := int (i + 1)\<rparr>, mw_store := s, mw_pcs := (mw_pcs r)[w := M_done]\<rparr>"
        using step w by (auto simp: mr_map_worker_def M_fetch get res_bind_def split: sum.splits)
      then show ?thesis
        using upd [of M_done] M_fetch False by (simp add: map_work_def i_def [symmetric] done_keeps)
    qed
  next
    case (M_emit es)
    with step w upd [of M_fetch] upd [of "M_emit (tl es)"] show ?thesis
      by (auto simp: mr_map_worker_def map_work_def done_keeps res_bind_def split: sum.splits list.splits prod.splits)
  qed (use step w upd [of M_fetch] in \<open>auto simp: mr_map_worker_def map_work_def done_keeps res_bind_def split: sum.splits\<close>)
  then show "map_work p r' + (if mw_pcs r ! w = M_done then 0 else 1) \<le> map_work p r"
    and "mw_pcs r ! v = M_done \<longrightarrow> mw_pcs r' ! v = M_done"
    by auto
qed

section \<open>The whole phase\<close>

definition fair :: "nat \<Rightarrow> nat \<Rightarrow> nat list \<Rightarrow> bool" where
  "fair n work sched \<longleftrightarrow> (\<forall>w \<in> set sched. w < n) \<and> (\<forall>w \<in> {..<n}. work < count_list sched w)"

lemma fair_iff: "fair n work sched \<longleftrightarrow> (\<forall>w \<in> set sched. w < n) \<and> (\<forall>w < n. work < count_list sched w)"
  by (auto simp: fair_def)

definition phase_puts :: "('k, 'v, 's) mr_param \<Rightarrow> ('k \<Rightarrow> nat) \<Rightarrow> presplitter_state \<Rightarrow> ('k, 'v) put list" where
  "phase_puts p H ps = concat (map (split_puts p H) (drop (nat (ps_idx ps)) (take (ps_nsplits ps) (ps_ma ps))))"

definition phase_work :: "('k, 'v, 's) mr_param \<Rightarrow> nat \<Rightarrow> presplitter_state \<Rightarrow> nat" where
  "phase_work p n ps = sum_list (map (split_work p) (drop (nat (ps_idx ps)) (take (ps_nsplits ps) (ps_ma ps)))) + 2 * n"

context mr_job
begin

definition mapped :: "bool \<Rightarrow> nat \<Rightarrow> nat \<Rightarrow> ('k, 'v) group list list \<Rightarrow> ('k, 'v) rbkts option \<Rightarrow> ('k, 'v) put multiset
    \<Rightarrow> ('k, 'v) kvst \<Rightarrow> bool" where
  "mapped hb n C Bs rb T s \<longleftrightarrow> (\<exists>P. length P = n \<and> mset (concat P) = T \<and> (\<forall>q \<in> set (concat P). put_good (mp_env p) H q) \<and>
     kv_imgr s = Index_btree \<and> kv_has_backup s = hb \<and> kv_rbkts s = rb \<and> n \<le> length (kv_est s) \<and>
     map_cols (mb_mapper (kv_btree s)) = C \<and>
     bt.mapper_rep UNIV (mb_mapper (kv_btree s)) (map (\<lambda>w. fold (put_group (mp_env p)) (P ! w) (Bs ! w)) [0..<n]))"

lemma map_inv_mapped:
  assumes "map_inv hb n C Bs rb ps0 T r" "\<forall>pc \<in> set (mw_pcs r). pc = M_done" "0 < n"
  shows "mapped hb n C Bs rb T (mw_store r)" and "\<exists>i. mw_ps r = ps0\<lparr>ps_idx := i\<rparr>"
proof -
  obtain i P where i: "mw_ps r = ps0\<lparr>ps_idx := int i\<rparr>" and ctl: "ctl_inv p H n ps0 T i (mw_pcs r) P"
    and st: "store_inv hb C Bs rb (mw_store r) (mw_pcs r) P"
    using assms(1) by (auto simp: map_inv_def)
  show "\<exists>i. mw_ps r = ps0\<lparr>ps_idx := i\<rparr>"
    using i by blast
  have len: "length (mw_pcs r) = n" "length P = n"
    using ctl by (auto simp: ctl_inv_def)
  have all: "mw_pcs r = replicate n M_done"
    using assms(2) len(1) by (metis replicate_length_same)
  then have i': "ps_nsplits ps0 \<le> i"
    using ctl assms(3) by (simp add: ctl_inv_def)
  have T: "mset (concat P) = T"
    using ctl i' by (simp add: ctl_inv_def all)
  have "row_groups (mp_env p) Bs (mw_pcs r) P = map (\<lambda>w. fold (put_group (mp_env p)) (P ! w) (Bs ! w)) [0..<n]"
    by (simp add: row_groups_def all)
  then show "mapped hb n C Bs rb T (mw_store r)"
    using st ctl len T unfolding mapped_def store_inv_def by (intro exI [of _ P]) (simp add: ctl_inv_def)
qed

lemma map_phase_ok:
  assumes ok: "phase_ok n Bs ps0 (mset (phase_puts p H ps0))" "ps_idx ps0 = int i0" "0 < n" "i0 \<le> ps_nsplits ps0"
    and st: "store_inv hb C Bs rb s (replicate n M_start) (replicate n [])"
    and fair: "fair n (phase_work p n ps0) sched"
  shows "completes (map_phase p qs False sched n ps0 s)
    (\<lambda>(ps', s'). (\<exists>i. ps' = ps0\<lparr>ps_idx := i\<rparr>) \<and> mapped hb n C Bs rb (mset (phase_puts p H ps0)) s')"
proof -
  let ?T = "mset (phase_puts p H ps0)" and ?r0 = "\<lparr>mw_ps = ps0, mw_store = s, mw_pcs = replicate n M_start\<rparr>"
  let ?I = "map_inv hb n C Bs rb ps0 ?T"
  have "ctl_inv p H n ps0 ?T i0 (replicate n M_start) (replicate n [])"
    using ok(2,4) by (auto simp: ctl_inv_def phase_puts_def)
  then have I0: "?I ?r0"
    using ok(2) st by (intro map_invI [where i = i0]) auto
  have step: "completes (lift_res (mr_map_worker p qs False w r)) (\<lambda>r'. ?I r' \<and>
      map_work p r' + (if mw_pcs r ! w = M_done then 0 else 1) \<le> map_work p r \<and>
      (\<forall>v. mw_pcs r ! v = M_done \<longrightarrow> mw_pcs r' ! v = M_done))" if w: "w < n" "?I r" for w r
  proof -
    obtain r' where r': "mr_map_worker p qs False w r = Inr r'" "?I r'"
      using map_step_ok [OF ok(1) w(2,1)] by (auto elim: succeedsE)
    obtain i P where i: "mw_ps r = ps0\<lparr>ps_idx := int i\<rparr>" "ctl_inv p H n ps0 ?T i (mw_pcs r) P"
      using w(2) by (auto simp: map_inv_def)
    have "w < length (mw_pcs r)" "ps_nsplits (mw_ps r) \<le> length (ps_ma (mw_ps r))"
      using i ok(1) w(1) by (auto simp: ctl_inv_def phase_ok_def)
    note work = map_step_work [OF r'(1) this(1) _ this(2)]
    have fetch: "0 \<le> ps_idx (mw_ps r) \<and> ps_idx (mw_ps r) < 2 ^ 31 - 1" if "mw_pcs r ! w = M_fetch"
      using fetch_bound [OF ok(1) i(2) w(1) that] i(1) by simp
    show ?thesis
      using r' work(1) [OF fetch] work(2) [OF fetch] by simp
  qed
  have work: "map_work p ?r0 = phase_work p n ps0"
    using ok(2) by (simp add: map_work_def phase_work_def sum_list_replicate)
  have "completes (run_workers (\<lambda>w r. lift_res (mr_map_worker p qs False w r)) sched ?r0)
      (\<lambda>r'. ?I r' \<and> (\<forall>w < n. mw_pcs r' ! w = M_done))"
    using run_workers_fair [of n ?I _ "map_work p" "\<lambda>r v. mw_pcs r ! v = M_done", OF step, of sched ?r0] fair I0
    unfolding work fair_iff by (fastforce elim: completes_mono)
  then obtain r where r: "run_workers (\<lambda>w r. lift_res (mr_map_worker p qs False w r)) sched ?r0 = Inr (Some r)"
      "?I r" "\<forall>w < n. mw_pcs r ! w = M_done"
    by (auto elim: completesE)
  have "length (mw_pcs r) = n"
    using r(2) by (auto simp: map_inv_def ctl_inv_def)
  then have all: "\<forall>pc \<in> set (mw_pcs r). pc = M_done"
    using r(3) by (auto simp: in_set_conv_nth)
  show ?thesis
    using map_inv_mapped [OF r(2) all ok(3)] all by (simp add: map_phase_def r(1))
qed

end

end
