(* ===== verification/Sched_Reduce.thy ===== *)
theory Sched_Reduce
  imports Sched_Map
begin

text \<open>
  The reduce phase: whatever the interleaving of the workers, every column of the bucket matrix is
  reduced once, into the bucket of its number, and the workers finish.
\<close>

section \<open>Control\<close>

fun rpc_work :: "rpc \<Rightarrow> nat" where
  "rpc_work R_fetch = 1"
| "rpc_work (R_task _) = 2"
| "rpc_work R_done = 0"

definition red_work :: "nat \<Rightarrow> ('k, 'v) red_run \<Rightarrow> nat" where
  "red_work tasks r = 2 * (tasks - rw_pos r) + sum_list (map rpc_work (rw_pcs r))"

text \<open>The tasks that have been handed out and are no longer being worked on.\<close>

definition rdone :: "nat \<Rightarrow> nat \<Rightarrow> rpc list \<Rightarrow> nat set" where
  "rdone tasks pos pcs = {c. c < tasks \<and> c < pos \<and> R_task c \<notin> set pcs}"

definition rctl :: "nat \<Rightarrow> nat \<Rightarrow> nat \<Rightarrow> rpc list \<Rightarrow> bool" where
  "rctl n tasks pos pcs \<longleftrightarrow> length pcs = n \<and> (R_done \<in> set pcs \<longrightarrow> tasks \<le> pos) \<and>
     (\<forall>c. R_task c \<in> set pcs \<longrightarrow> c < tasks \<and> c < pos) \<and>
     (\<forall>v w c. v < n \<longrightarrow> w < n \<longrightarrow> pcs ! v = R_task c \<longrightarrow> pcs ! w = R_task c \<longrightarrow> v = w)"

lemma set_update_other:
  assumes "w < length xs" "\<forall>v < length xs. xs ! v = y \<longrightarrow> v = w"
  shows "y \<in> set (xs[w := x]) \<longleftrightarrow> y = x"
  using assms by (auto simp: in_set_conv_nth nth_list_update split: if_splits)

lemma set_update_keep:
  assumes "w < length xs" "xs ! w \<noteq> y"
  shows "y \<in> set (xs[w := x]) \<longleftrightarrow> y = x \<or> y \<in> set xs"
  using assms by (auto simp: in_set_conv_nth nth_list_update split: if_splits)

lemma rctl_fetch:
  assumes "rctl n tasks pos pcs" "w < n" "pcs ! w = R_fetch"
  defines "x \<equiv> if tasks \<le> pos then R_done else R_task pos"
  shows "rctl n tasks (pos + 1) (pcs[w := x])" "rdone tasks (pos + 1) (pcs[w := x]) = rdone tasks pos pcs"
proof -
  have w: "w < length pcs"
    using assms by (simp add: rctl_def)
  have keep: "y \<in> set (pcs[w := x]) \<longleftrightarrow> y = x \<or> y \<in> set pcs" if "y \<noteq> R_fetch" for y
    using set_update_keep [OF w, of y x] assms(3) that by auto
  have fresh: "R_task pos \<notin> set pcs"
    using assms(1) by (auto simp: rctl_def)
  have "pcs ! v \<noteq> R_task pos" if "v < n" for v
    using fresh that assms(1) by (metis nth_mem rctl_def)
  then have uniq: "v = u" if "v < n" "u < n" "pcs[w := x] ! v = R_task c" "pcs[w := x] ! u = R_task c" for v u c
    using assms(1) that w by (cases "v = w"; cases "u = w") (auto simp: rctl_def x_def split: if_splits)
  have "R_done \<in> set (pcs[w := x]) \<longrightarrow> tasks \<le> pos + 1"
    using keep [of R_done] assms(1) by (auto simp: rctl_def x_def split: if_splits)
  moreover have "R_task c \<in> set (pcs[w := x]) \<longrightarrow> c < tasks \<and> c < pos + 1" for c
  proof -
    have "R_task c \<in> set pcs \<longrightarrow> c < tasks \<and> c < pos"
      using assms(1) by (simp add: rctl_def)
    then show ?thesis
      using keep [of "R_task c"] by (auto simp: x_def split: if_splits)
  qed
  moreover have "length (pcs[w := x]) = n"
    using assms(1) by (simp add: rctl_def)
  ultimately show "rctl n tasks (pos + 1) (pcs[w := x])"
    using uniq unfolding rctl_def by blast
  show "rdone tasks (pos + 1) (pcs[w := x]) = rdone tasks pos pcs"
    using keep fresh by (auto simp: rdone_def x_def less_Suc_eq split: if_splits)
qed

lemma rctl_task:
  assumes "rctl n tasks pos pcs" "w < n" "pcs ! w = R_task c"
  shows "rctl n tasks pos (pcs[w := R_fetch])" "rdone tasks pos (pcs[w := R_fetch]) = insert c (rdone tasks pos pcs)"
    "c < tasks" "c \<notin> rdone tasks pos pcs"
proof -
  have w: "w < length pcs"
    using assms by (simp add: rctl_def)
  have c: "R_task c \<in> set pcs"
    using assms(3) nth_mem [OF w] by simp
  have keep: "y \<in> set (pcs[w := R_fetch]) \<longleftrightarrow> y \<in> set pcs" if "y \<noteq> R_fetch" "y \<noteq> R_task c" for y
    using set_update_keep [OF w, of y R_fetch] assms(3) that by auto
  have gone: "R_task c \<notin> set (pcs[w := R_fetch])"
    using set_update_other [OF w, of "R_task c" R_fetch] assms by (auto simp: rctl_def)
  have "v = u" if "v < n" "u < n" "pcs[w := R_fetch] ! v = R_task d" "pcs[w := R_fetch] ! u = R_task d" for v u d
    using assms(1) that w by (cases "v = w"; cases "u = w") (auto simp: rctl_def)
  moreover have "R_task d \<in> set (pcs[w := R_fetch]) \<longrightarrow> R_task d \<in> set pcs" for d
    using keep [of "R_task d"] gone by (cases "d = c") auto
  ultimately show "rctl n tasks pos (pcs[w := R_fetch])"
    using assms(1) keep [of R_done] unfolding rctl_def by (metis length_list_update rpc.distinct(3) rpc.distinct(5))
  show "rdone tasks pos (pcs[w := R_fetch]) = insert c (rdone tasks pos pcs)"
  proof -
    have "R_task d \<in> set (pcs[w := R_fetch]) \<longleftrightarrow> d \<noteq> c \<and> R_task d \<in> set pcs" for d
      using keep [of "R_task d"] gone by (cases "d = c") auto
    moreover have "c < tasks" "c < pos"
      using c assms(1) by (auto simp: rctl_def)
    ultimately show ?thesis
      by (auto simp: rdone_def)
  qed
  show "c < tasks" "c \<notin> rdone tasks pos pcs"
    using c assms(1) by (auto simp: rctl_def rdone_def)
qed

section \<open>The output of a task\<close>

definition out_kind :: "('k, 'v) env \<Rightarrow> rpch" where
  "out_kind e = (if atype e = Atype_mapgroup then Hkvslenarr else Hkvarr)"

lemma cstrict_distinct: "comparator cmp \<Longrightarrow> cstrict cmp xs \<Longrightarrow> distinct xs"
  unfolding cstrict_def by (induction xs) (auto simp: comparator.cmp_refl)

context mr_job
begin

lemma red_out_kind:
  assumes "red_out (mp_env p) M k vs out"
  shows "\<forall>x \<in> set out. emit_kind x = out_kind (mp_env p)" "length out \<le> 1"
  using assms job_reduces(1) job_out
  by (cases "atype (mp_env p)"; cases "vm (mp_env p)"; auto simp: red_out_def out_kind_def)+

lemma reduced_groups_out:
  assumes "reduced_groups (mp_env p) M Gs out"
  shows "\<forall>x \<in> set out. emit_kind x = out_kind (mp_env p)" "length out \<le> sum_list (map length Gs)"
proof -
  obtain ks outs where ks: "out = concat outs" "list_all2 (\<lambda>k. red_out (mp_env p) M k (gvals (mp_env p) k Gs)) ks outs"
      "cstrict (keycmp (mp_env p)) ks" "\<forall>k \<in> set ks. \<exists>G \<in> set Gs. \<exists>g \<in> set G. fst g = k"
    using assms by (auto simp: reduced_groups_def)
  from ks(2) have "(\<forall>x \<in> set (concat outs). emit_kind x = out_kind (mp_env p)) \<and> length (concat outs) \<le> length ks"
  proof (induction rule: list_all2_induct)
    case (Cons k ks out outs)
    with red_out_kind [OF Cons(1)] show ?case
      by auto
  qed simp
  moreover have "length ks \<le> sum_list (map length Gs)"
  proof -
    have "set ks \<subseteq> set (map fst (concat Gs))"
      using ks(4) by force
    then have "card (set ks) \<le> length (map fst (concat Gs))"
      by (meson List.finite_set card_length card_mono le_trans)
    then show ?thesis
      using distinct_card [OF cstrict_distinct [OF bt.kc.comparator_axioms ks(3)]] by (simp add: length_concat)
  qed
  ultimately show "\<forall>x \<in> set out. emit_kind x = out_kind (mp_env p)" "length out \<le> sum_list (map length Gs)"
    using ks(1) by auto
qed

section \<open>The invariant\<close>

definition rows_ok :: "('k, 'v) group list list \<Rightarrow> bool" where
  "rows_ok Gs \<longleftrightarrow> (\<forall>G \<in> set Gs. groups_ok (mp_env p) H G) \<and> sum_list (map grp_size Gs) \<le> 2 ^ 31"

lemma rows_ok_col: "rows_ok Gs \<Longrightarrow> sum_list (map length (map (filter q) Gs)) \<le> 2 ^ 31"
proof -
  assume ok: "rows_ok Gs"
  have "length (filter q G) \<le> grp_size G" if "G \<in> set Gs" for G
  proof -
    have "groups_ok (mp_env p) H G"
      using ok that by (simp add: rows_ok_def)
    then show ?thesis
      using groups_ok_length length_filter_le le_trans by blast
  qed
  then have "sum_list (map (length \<circ> filter q) Gs) \<le> sum_list (map grp_size Gs)"
    by (intro sum_list_mono) simp
  then show ?thesis
    using ok by (simp add: rows_ok_def)
qed

definition rb_cols :: "nat \<Rightarrow> ('k, 'v) group list list \<Rightarrow> nat set \<Rightarrow> ('k, 'v) rbkts \<Rightarrow> bool" where
  "rb_cols tasks Gs D rb \<longleftrightarrow> rb_ok rb \<and> rb_kind rb = out_kind (mp_env p) \<and> length (rb_outs rb) = tasks \<and>
     (\<forall>c < tasks. if c \<in> D then reduced_groups (mp_env p) M (map (filter (in_col tasks c)) Gs) (rb_outs rb ! c)
                  else rb_outs rb ! c = [])"

definition rstore :: "nat \<Rightarrow> ('k, 'v) group list list \<Rightarrow> nat set \<Rightarrow> ('k, 'v) kvst \<Rightarrow> bool" where
  "rstore tasks Gs D s \<longleftrightarrow> kv_imgr s = Index_btree \<and> map_cols (mb_mapper (kv_btree s)) = tasks \<and>
     bt.mapper_rep (UNIV - D) (mb_mapper (kv_btree s)) Gs \<and> (\<exists>rb. kv_rbkts s = Some rb \<and> rb_cols tasks Gs D rb)"

lemma do_task_ok:
  assumes s: "rstore tasks Gs D s" and c: "c < tasks" "c \<notin> D" and ok: "rows_ok Gs"
  shows "completes (kvst_reduce_do_task (mp_env p) qs c s) (rstore tasks Gs (insert c D))"
proof -
  let ?m = "mb_mapper (kv_btree s)" and ?F = "map (filter (in_col tasks c)) Gs"
  have m: "bt.mapper_rep (UNIV - D) ?m Gs" "map_cols ?m = tasks" "mbks ?m \<noteq> None"
    using s by (auto simp: rstore_def bt.mapper_rep_def)
  obtain rb where rb: "kv_rbkts s = Some rb" "rb_cols tasks Gs D rb"
    using s by (auto simp: rstore_def)
  have "completes (reduce_col (mp_env p) (hkvsbtree (mp_env p)) c ?m) (\<lambda>(out, m').
      reduced_groups (mp_env p) M ?F out \<and> bt.mapper_rep (UNIV - D - {c}) m' Gs \<and> map_cols m' = tasks)"
    using bt.reduce_col_ok [OF m(1), of c] c ok job_reduces(2) m(2) by (auto simp: rows_ok_def)
  then obtain out m' where out: "reduce_col (mp_env p) (hkvsbtree (mp_env p)) c ?m = Inr (Some (out, m'))"
      "reduced_groups (mp_env p) M ?F out" "bt.mapper_rep (UNIV - insert c D) m' Gs" "map_cols m' = tasks"
    by (auto simp: Diff_insert2 [symmetric] Diff_insert [symmetric] elim!: completesE)
  have "succeeds (rbkts_emits (mp_env p) c out rb) (emitted rb c out)"
  proof (rule rbkts_emits_ok)
    show "length (rb_outs rb ! c) + length out \<le> 2 ^ 31"
      using reduced_groups_out(2) [OF out(2)] rows_ok_col [OF ok, of "in_col tasks c"] rb(2) c
      by (auto simp: rb_cols_def)
  qed (use rb(2) c reduced_groups_out(1) [OF out(2)] in \<open>auto simp: rb_cols_def\<close>)
  then obtain rb' where rb': "rbkts_emits (mp_env p) c out rb = Inr rb'" "emitted rb c out rb'"
    by (auto elim: succeedsE)
  have "rb_cols tasks Gs (insert c D) rb'"
    using rb(2) rb'(2) c out(2) by (auto simp: rb_cols_def emitted_def nth_list_update)
  moreover have "kvst_reduce_do_task (mp_env p) qs c s = ret (s\<lparr>kv_btree := (kv_btree s)\<lparr>mb_mapper := m'\<rparr>, kv_rbkts := Some rb'\<rparr>)"
    using s m(3) out(1) rb(1) rb'(1) job_reduces(1)
    by (simp add: kvst_reduce_do_task_def mgr_do_reduce_task_def rstore_def mbm_do_reduce_task_def with_rbkts_def ret_def lift_res_def)
  ultimately show ?thesis
    using s out(3,4) by (simp add: rstore_def)
qed

section \<open>The whole phase\<close>

definition red_inv :: "nat \<Rightarrow> nat \<Rightarrow> ('k, 'v) group list list \<Rightarrow> ('k, 'v) red_run \<Rightarrow> bool" where
  "red_inv n tasks Gs r \<longleftrightarrow> rctl n tasks (rw_pos r) (rw_pcs r) \<and> rstore tasks Gs (rdone tasks (rw_pos r) (rw_pcs r)) (rw_store r)"

lemma red_step_ok:
  assumes inv: "red_inv n tasks Gs r" and w: "w < n" and ok: "rows_ok Gs"
  shows "completes (mr_reduce_worker p qs tasks w r) (\<lambda>r'. red_inv n tasks Gs r' \<and>
    red_work tasks r' + (if rw_pcs r ! w = R_done then 0 else 1) \<le> red_work tasks r \<and>
    (\<forall>v. rw_pcs r ! v = R_done \<longrightarrow> rw_pcs r' ! v = R_done))"
proof -
  have len: "w < length (rw_pcs r)"
    using inv w by (simp add: red_inv_def rctl_def)
  note upd = sum_list_update [OF len, of rpc_work]
  have keeps: "rw_pcs r ! w \<noteq> R_done \<Longrightarrow> rw_pcs r ! v = R_done \<Longrightarrow> (rw_pcs r)[w := x] ! v = R_done" for v x
    by (cases "v = w") auto
  show ?thesis
  proof (cases "rw_pcs r ! w")
    case R_fetch
    show ?thesis
      using inv rctl_fetch [OF _ w R_fetch, of tasks "rw_pos r"] upd [of "if tasks \<le> rw_pos r then R_done else R_task (rw_pos r)"]
        keeps R_fetch len job_reduces(1)
      by (auto simp: mr_reduce_worker_def red_inv_def red_work_def)
  next
    case (R_task c)
    have D: "rctl n tasks (rw_pos r) ((rw_pcs r)[w := R_fetch])"
        "rdone tasks (rw_pos r) ((rw_pcs r)[w := R_fetch]) = insert c (rdone tasks (rw_pos r) (rw_pcs r))"
        "c < tasks" "c \<notin> rdone tasks (rw_pos r) (rw_pcs r)"
      using inv rctl_task [OF _ w R_task] by (auto simp: red_inv_def)
    have "completes (kvst_reduce_do_task (mp_env p) qs c (rw_store r))
        (rstore tasks Gs (rdone tasks (rw_pos r) ((rw_pcs r)[w := R_fetch])))"
      unfolding D(2) using inv by (intro do_task_ok D(3,4) ok) (simp add: red_inv_def)
    then show ?thesis
      using D(1) upd [of R_fetch] keeps R_task len job_reduces(1)
      by (auto simp: mr_reduce_worker_def red_inv_def red_work_def elim!: completes_mono)
  next
    case R_done
    then show ?thesis
      using inv len job_reduces(1) by (simp add: mr_reduce_worker_def)
  qed
qed

lemma reduce_phase_ok:
  assumes s: "rstore tasks Gs {} s" and ok: "rows_ok Gs" "0 < n" and fair: "fair n (2 * tasks + n) sched"
  shows "completes (reduce_phase p qs tasks sched n s) (rstore tasks Gs {..<tasks})"
proof -
  let ?r0 = "\<lparr>rw_pos = 0, rw_store = s, rw_pcs = replicate n R_fetch\<rparr>"
  have I0: "red_inv n tasks Gs ?r0"
    using s by (auto simp: red_inv_def rctl_def rdone_def)
  have work: "red_work tasks ?r0 = 2 * tasks + n"
    by (simp add: red_work_def sum_list_replicate)
  have "completes (run_workers (mr_reduce_worker p qs tasks) sched ?r0)
      (\<lambda>r'. red_inv n tasks Gs r' \<and> (\<forall>w < n. rw_pcs r' ! w = R_done))"
    using run_workers_fair [of n "red_inv n tasks Gs" "mr_reduce_worker p qs tasks" "red_work tasks" "\<lambda>r v. rw_pcs r ! v = R_done",
        OF red_step_ok [OF _ _ ok(1)], of sched ?r0] fair I0
    unfolding work fair_iff by (fastforce elim: completes_mono)
  then obtain r where r: "run_workers (mr_reduce_worker p qs tasks) sched ?r0 = Inr (Some r)"
      "red_inv n tasks Gs r" "\<forall>w < n. rw_pcs r ! w = R_done"
    by (auto elim: completesE)
  have len: "length (rw_pcs r) = n"
    using r(2) by (simp add: red_inv_def rctl_def)
  have all: "\<forall>pc \<in> set (rw_pcs r). pc = R_done"
    using r(3) len by (auto simp: in_set_conv_nth)
  have "R_done \<in> set (rw_pcs r)"
    using r(3) len ok(2) nth_mem [of 0 "rw_pcs r"] by auto
  then have "tasks \<le> rw_pos r"
    using r(2) by (auto simp: red_inv_def rctl_def)
  then have "rdone tasks (rw_pos r) (rw_pcs r) = {..<tasks}"
    using all by (auto simp: rdone_def)
  then show ?thesis
    using all r(2) by (simp add: reduce_phase_def r(1) red_inv_def)
qed

end

end
