(* ===== verification/Sched_Run.thy ===== *)
theory Sched_Run
  imports Sched_Reduce
begin

text \<open>
  A whole run of the library (\<^verbatim>\<open>mr_run_scheduler\<close>): what the results are in terms of the
  pairs that the map function emits on the splits of the input, for runs with a given number of
  reduce tasks and for runs that sample first.
\<close>

section \<open>The result of a job\<close>

text \<open>The values emitted for a key, and what may be returned for the emitted pairs: every key
  once, with the output for some arrangement of its values.\<close>

definition key_values :: "('k, 'v) env \<Rightarrow> 'k \<Rightarrow> ('k, 'v) put multiset \<Rightarrow> 'v multiset" where
  "key_values e k T = image_mset (\<lambda>q. fst (snd q)) (filter_mset (\<lambda>q. keycmp e k (fst q) = 0) T)"

definition job_result :: "('k, 'v) env \<Rightarrow> ('v list \<Rightarrow> 'm) \<Rightarrow> ('k, 'v) put multiset \<Rightarrow> ('k, 'v) emit multiset \<Rightarrow> bool" where
  "job_result e M T out \<longleftrightarrow> (\<exists>ks outs. out = mset (concat outs) \<and>
     list_all2 (\<lambda>k out. \<exists>vs. mset vs = key_values e k T \<and> vs \<noteq> [] \<and> red_out e M k vs out) ks outs \<and>
     sorted_wrt (\<lambda>x y. keycmp e x y \<noteq> 0) ks \<and> (\<forall>q \<in># T. \<exists>k \<in> set ks. keycmp e k (fst q) = 0))"

lemma list_all2_concat: "list_all2 (list_all2 P) xss yss \<Longrightarrow> list_all2 P (concat xss) (concat yss)"
  by (induction rule: list_all2_induct) (auto intro: list_all2_appendI)

lemma concat_concat_map_eq: "concat (map (\<lambda>x. concat (f x)) xs) = concat (concat (map f xs))"
  by (induction xs) simp_all

lemma sorted_wrt_concat:
  assumes "\<And>x. x \<in> set xs \<Longrightarrow> sorted_wrt R (f x)"
    and "\<And>x y a b. x \<in> set xs \<Longrightarrow> y \<in> set xs \<Longrightarrow> x \<noteq> y \<Longrightarrow> a \<in> set (f x) \<Longrightarrow> b \<in> set (f y) \<Longrightarrow> R a b" and "distinct xs"
  shows "sorted_wrt R (concat (map f xs))"
  using assms
proof (induction xs)
  case (Cons x xs)
  have "sorted_wrt R (concat (map f xs))"
    using Cons.prems by (intro Cons.IH) (simp_all, blast)
  moreover have "R a b" if "a \<in> set (f x)" "b \<in> set (concat (map f xs))" for a b
    using that Cons.prems(2) [of x _ a b] Cons.prems(3) by auto
  ultimately show ?case
    using Cons.prems(1) [of x] by (simp add: sorted_wrt_append del: set_concat)
qed simp

section \<open>Groups and values\<close>

definition row_vals :: "('k, 'v) env \<Rightarrow> 'k \<Rightarrow> ('k, 'v) group list \<Rightarrow> 'v list" where
  "row_vals e k G = concat (map (\<lambda>g. snd (snd g)) (filter (\<lambda>g. keycmp e k (fst g) = 0) G))"

lemma gvals_rows: "gvals e k Gs = concat (map (row_vals e k) Gs)"
  by (simp add: gvals_def row_vals_def [abs_def])

lemma groups_okD:
  assumes "\<forall>G \<in> set Gs. groups_ok e H G" "G \<in> set Gs" "g \<in> set G"
  shows "fst (snd g) = H (fst g)" "snd (snd g) \<noteq> []"
proof -
  have "groups_ok e H G"
    using assms by blast
  with assms(3) show "fst (snd g) = H (fst g)" "snd (snd g) \<noteq> []"
    by (cases g; auto simp: groups_ok_def)+
qed

context mr_env
begin

lemma keycmp_eq_right: "keycmp e a b = 0 \<Longrightarrow> keycmp e k a = 0 \<longleftrightarrow> keycmp e k b = 0"
  by (metis kc.cmp_eq_sym kc.cmp_trans kc.cmp_le_ge order_antisym order_refl)

lemma row_vals_put:
  assumes "keycopy_ok e k l"
  shows "mset (row_vals e k' (put_group e (k, v, l, h) G)) =
    mset (row_vals e k' G) + (if keycmp e k' k = 0 then {#v#} else {#})"
proof (induction G)
  case Nil
  have "keycmp e k' (copy_key e k l) = 0 \<longleftrightarrow> keycmp e k' k = 0"
    using keycmp_eq_right [of "copy_key e k l" k] copy_key_cmp(1) [OF assms] by blast
  then show ?case
    by (simp add: row_vals_def put_group_def)
next
  case (Cons g G)
  obtain k1 h1 vs where g: "g = (k1, h1, vs)"
    by (cases g)
  have c: "keycmp e k' (copy_key e k l) = 0 \<longleftrightarrow> keycmp e k' k = 0"
    using keycmp_eq_right [of "copy_key e k l" k] copy_key_cmp(1) [OF assms] by blast
  have eq: "keycmp e k k1 = 0 \<Longrightarrow> keycmp e k' k = 0 \<longleftrightarrow> keycmp e k' k1 = 0"
    by (rule keycmp_eq_right)
  show ?case
    using Cons c eq by (auto simp: row_vals_def put_group_def g)
qed

lemma row_vals_groups:
  "\<forall>q \<in> set qs. put_good e H q \<Longrightarrow>
     mset (row_vals e k (fold (put_group e) qs G)) = mset (row_vals e k G) + key_values e k (mset qs)"
proof (induction qs arbitrary: G)
  case (Cons q qs)
  obtain k0 v l h where q: "q = (k0, v, l, h)"
    by (cases q)
  have "keycopy_ok e k0 l"
    using Cons.prems by (simp add: put_good_def q)
  from row_vals_put [OF this, of k v h G] Cons.IH [of "put_group e q G"] Cons.prems show ?case
    by (simp add: q key_values_def)
qed (simp add: key_values_def)

lemma gvals_groups:
  "\<forall>qs \<in> set Q. \<forall>q \<in> set qs. put_good e H q \<Longrightarrow> mset (gvals e k (map (groups e) Q)) = key_values e k (mset (concat Q))"
proof (induction Q)
  case (Cons qs Q)
  have "mset (row_vals e k (groups e qs)) = key_values e k (mset qs)"
    using row_vals_groups [of qs H k "[]"] Cons.prems by (simp add: groups_def row_vals_def)
  with Cons show ?case
    by (simp add: gvals_rows key_values_def)
qed (simp add: gvals_def key_values_def)

end

lemma key_values_empty: "key_values e k T = {#} \<longleftrightarrow> (\<forall>q \<in># T. keycmp e k (fst q) \<noteq> 0)"
  by (induction T) (auto simp: key_values_def)

lemma gvals_ne:
  assumes "\<forall>G \<in> set Gs. groups_ok e H G"
  shows "gvals e k Gs \<noteq> [] \<longleftrightarrow> (\<exists>G \<in> set Gs. \<exists>g \<in> set G. keycmp e k (fst g) = 0)"
proof -
  have "gvals e k Gs \<noteq> [] \<longleftrightarrow> (\<exists>G \<in> set Gs. \<exists>g \<in> set G. keycmp e k (fst g) = 0 \<and> snd (snd g) \<noteq> [])"
    by (simp only: gvals_def concat_eq_Nil_conv set_map set_filter ball_simps bex_simps) blast
  then show ?thesis
    using groups_okD(2) [OF assms] by blast
qed

section \<open>All columns\<close>

lemma in_col_iff: "in_col C c g \<longleftrightarrow> fst (snd g) mod C = c"
  by (cases g) (simp add: in_col_def)

lemma gvals_col:
  assumes "\<forall>G \<in> set Gs. groups_ok e H G" "hash_ok e H" "H k mod C = c"
  shows "gvals e k (map (filter (in_col C c)) Gs) = gvals e k Gs"
proof -
  have "filter (\<lambda>g. keycmp e k (fst g) = 0) (filter (in_col C c) G) = filter (\<lambda>g. keycmp e k (fst g) = 0) G"
    if "G \<in> set Gs" for G
  proof -
    have "in_col C c g" if g: "g \<in> set G" "keycmp e k (fst g) = 0" for g
    proof -
      have "fst (snd g) = H (fst g)"
        by (rule groups_okD(1) [OF assms(1) \<open>G \<in> set Gs\<close> g(1)])
      then show ?thesis
        using hash_okD [OF assms(2) g(2)] assms(3) by (simp add: in_col_iff)
    qed
    then show ?thesis
      by (auto simp: filter_filter intro: filter_cong)
  qed
  then show ?thesis
    unfolding gvals_def map_map comp_def by (metis (mono_tags, lifting) map_cong)
qed

context mr_job
begin

lemma rows_result:
  assumes red: "\<And>c. c < tasks \<Longrightarrow> reduced_groups (mp_env p) M (map (filter (in_col tasks c)) Gs) (outs c)"
    and ok: "\<forall>G \<in> set Gs. groups_ok (mp_env p) H G" "0 < tasks"
    and T: "\<And>k. mset (gvals (mp_env p) k Gs) = key_values (mp_env p) k T"
  shows "job_result (mp_env p) M T (mset (concat (map outs [0..<tasks])))"
proof -
  let ?e = "mp_env p" and ?col = "\<lambda>c. map (filter (in_col tasks c)) Gs"
  define good where "good c ks os \<longleftrightarrow> outs c = concat os \<and> list_all2 (\<lambda>k. red_out ?e M k (gvals ?e k (?col c))) ks os \<and>
      cstrict (keycmp ?e) ks \<and> (\<forall>k \<in> set ks. \<exists>G \<in> set (?col c). \<exists>g \<in> set G. fst g = k) \<and>
      (\<forall>G \<in> set (?col c). \<forall>g \<in> set G. \<exists>k \<in> set ks. keycmp ?e k (fst g) = 0)" for c ks os
  have "\<exists>ks os. good c ks os" if "c < tasks" for c
    using red [OF that] by (simp only: reduced_groups_def good_def)
  then obtain kf ofs where good: "\<And>c. c < tasks \<Longrightarrow> good c (kf c) (ofs c)"
    by metis
  have f: "\<And>c. c < tasks \<Longrightarrow> outs c = concat (ofs c)"
      "\<And>c. c < tasks \<Longrightarrow> list_all2 (\<lambda>k. red_out ?e M k (gvals ?e k (?col c))) (kf c) (ofs c)"
      "\<And>c. c < tasks \<Longrightarrow> cstrict (keycmp ?e) (kf c)"
      "\<And>c. c < tasks \<Longrightarrow> \<forall>k \<in> set (kf c). \<exists>G \<in> set (?col c). \<exists>g \<in> set G. fst g = k"
      "\<And>c. c < tasks \<Longrightarrow> \<forall>G \<in> set (?col c). \<forall>g \<in> set G. \<exists>k \<in> set (kf c). keycmp ?e k (fst g) = 0"
    using good unfolding good_def by blast+
  have hash: "fst (snd g) = H (fst g)" if "G \<in> set Gs" "g \<in> set G" for G g
    by (rule groups_okD(1) [OF ok(1) that])
  have col: "H k mod tasks = c" "gvals ?e k Gs \<noteq> []" if c: "c < tasks" and k: "k \<in> set (kf c)" for c k
  proof -
    obtain G g where g: "G \<in> set Gs" "g \<in> set G" "in_col tasks c g" "fst g = k"
      using f(4) [OF c] k by auto
    then show "H k mod tasks = c"
      using hash [OF g(1,2)] by (auto simp: in_col_iff)
    show "gvals ?e k Gs \<noteq> []"
      using gvals_ne [OF ok(1)] g bt.kc.cmp_refl by blast
  qed
  have "list_all2 (\<lambda>k out. \<exists>vs. mset vs = key_values ?e k T \<and> vs \<noteq> [] \<and> red_out ?e M k vs out) (kf c) (ofs c)" if "c < tasks" for c
  proof (rule list.rel_mono_strong [OF f(2) [OF that]])
    fix k out
    assume k: "k \<in> set (kf c)" "red_out ?e M k (gvals ?e k (?col c)) out"
    then show "\<exists>vs. mset vs = key_values ?e k T \<and> vs \<noteq> [] \<and> red_out ?e M k vs out"
      using col [OF that k(1)] T gvals_col [OF ok(1) job_hash, of k tasks c] by auto
  qed
  then have 1: "list_all2 (\<lambda>k out. \<exists>vs. mset vs = key_values ?e k T \<and> vs \<noteq> [] \<and> red_out ?e M k vs out)
      (concat (map kf [0..<tasks])) (concat (map ofs [0..<tasks]))"
    by (intro list_all2_concat) (simp add: list_all2_conv_all_nth)
  have 2: "sorted_wrt (\<lambda>x y. keycmp ?e x y \<noteq> 0) (concat (map kf [0..<tasks]))"
  proof (rule sorted_wrt_concat)
    show "sorted_wrt (\<lambda>x y. keycmp ?e x y \<noteq> 0) (kf c)" if "c \<in> set [0..<tasks]" for c
    proof -
      have "cstrict (keycmp ?e) (kf c)"
        using f(3) that by simp
      then show ?thesis
        unfolding cstrict_def by (rule sorted_wrt_mono_rel [rotated]) simp
    qed
    show "keycmp ?e a b \<noteq> 0" if "c \<in> set [0..<tasks]" "d \<in> set [0..<tasks]" "c \<noteq> d" "a \<in> set (kf c)" "b \<in> set (kf d)" for c d a b
      using col(1) [of c a] col(1) [of d b] that hash_okD [OF job_hash, of a b] by auto
  qed simp
  have 3: "\<forall>q \<in># T. \<exists>k \<in> set (concat (map kf [0..<tasks])). keycmp ?e k (fst q) = 0"
  proof
    fix q
    assume "q \<in># T"
    then have "gvals ?e (fst q) Gs \<noteq> []"
      using T [of "fst q"] key_values_empty [of ?e "fst q" T] bt.kc.cmp_refl by (metis mset_zero_iff)
    then obtain G g where g: "G \<in> set Gs" "g \<in> set G" "keycmp ?e (fst q) (fst g) = 0"
      using gvals_ne [OF ok(1)] by blast
    define c where "c = H (fst g) mod tasks"
    have c: "c < tasks" "filter (in_col tasks c) G \<in> set (?col c)" "g \<in> set (filter (in_col tasks c) G)"
      using ok(2) g hash [OF g(1,2)] by (auto simp: c_def in_col_iff)
    then obtain k where k: "k \<in> set (kf c)" "keycmp ?e k (fst g) = 0"
      using f(5) [OF c(1)] by blast
    then have "keycmp ?e k (fst q) = 0"
      using bt.keycmp_eq_right [OF g(3), of k] by simp
    then show "\<exists>k \<in> set (concat (map kf [0..<tasks])). keycmp ?e k (fst q) = 0"
      using k(1) c(1) by auto
  qed
  have "concat (map outs [0..<tasks]) = concat (concat (map ofs [0..<tasks]))"
  proof -
    have "map outs [0..<tasks] = map (\<lambda>c. concat (ofs c)) [0..<tasks]"
      using f(1) by simp
    then show ?thesis
      by (simp only: concat_concat_map_eq)
  qed
  with 1 2 3 show ?thesis
    unfolding job_result_def by (intro exI [of _ "concat (map kf [0..<tasks])"] exI [of _ "concat (map ofs [0..<tasks])"]) simp
qed

end

section \<open>Merging and returning the results\<close>

text \<open>The number of results is small enough for the final sort to use one worker.\<close>

definition results_fit :: "('k, 'v) env \<Rightarrow> ('v list \<Rightarrow> 'm) \<Rightarrow> ('k, 'v) put multiset \<Rightarrow> nat \<Rightarrow> bool" where
  "results_fit e M T n \<longleftrightarrow> (\<forall>out. job_result e M T out \<longrightarrow> psrs_single (size out) n)"

text \<open>The results the application gets, as emissions, and their order.\<close>

definition results_kv :: "('k, 'v) app_results \<Rightarrow> ('k, 'v) keyval list" where
  "results_kv r = take (res_length r) (case res_kv r of None \<Rightarrow> [] | Some xs \<Rightarrow> xs)"

definition results_kvl :: "('k, 'v) app_results \<Rightarrow> ('k, 'v) keyvals_len list" where
  "results_kvl r = take (res_length r) (case res_kvl r of None \<Rightarrow> [] | Some xs \<Rightarrow> xs)"

definition results_emits :: "('k, 'v) env \<Rightarrow> ('k, 'v) app_results \<Rightarrow> ('k, 'v) emit list" where
  "results_emits e r =
     (if atype e = Atype_mapgroup then map kvl_emit (results_kvl r) else map kv_emit (results_kv r))"

definition results_sorted :: "('k, 'v) env \<Rightarrow> ('k, 'v) outcmp \<Rightarrow> ('k, 'v) app_results \<Rightarrow> bool" where
  "results_sorted e oc r =
     (if atype e = Atype_mapgroup then csorted (rbkts_len_cmp e oc) (results_kvl r)
      else csorted (rbkts_pair_cmp e oc) (results_kv r))"

text \<open>The output orders are orders, and \<^verbatim>\<open>qsort\<close> sorts.\<close>

definition merge_env_ok :: "('k, 'v) env \<Rightarrow> ('k, 'v) outcmp \<Rightarrow> ('k, 'v) sorts \<Rightarrow> bool" where
  "merge_env_ok e oc qs \<longleftrightarrow> comparator (rbkts_pair_cmp e oc) \<and> comparator (rbkts_len_cmp e oc) \<and>
     qsort_impl (sort_kv qs) \<and> qsort_impl (sort_kvl qs)"

lemma merge_env_default:
  assumes "comparator (keycmp e)" "qsort_impl (sort_kv qs)" "qsort_impl (sort_kvl qs)"
  shows "merge_env_ok e \<lparr>out_kv_cmp = None, out_kvl_cmp = None\<rparr> qs"
  using assms(2,3) comparator_on [OF assms(1), of kva_get_key] comparator_on [OF assms(1), of kvl_get_key]
  by (simp add: merge_env_ok_def rbkts_pair_cmp_def [abs_def] rbkts_len_cmp_def [abs_def])

lemma mset_concat_maps: "mset (concat (map (map f) xss)) = image_mset f (mset (concat xss))"
  by (simp add: map_concat [symmetric])

lemma parr_elems_take: "take (pa_len a) (case pa_arr a of None \<Rightarrow> [] | Some xs \<Rightarrow> xs) = parr_elems a"
  by (simp add: parr_elems_def split: option.split)

lemma merge_final:
  assumes rb: "rb_ok rb" "rb_kind rb = out_kind e" "rb_outs rb \<noteq> []" and env: "merge_env_ok e oc qs"
    and n: "0 < n" "psrs_single (length (concat (rb_outs rb))) n"
  shows "succeeds (rbkts_merge e oc qs use_psrs n rb) (\<lambda>rb'. succeeds (app_set_final_results rb' res) (\<lambda>res'.
    mset (results_emits e res') = mset (concat (rb_outs rb)) \<and> results_sorted e oc res'))"
proof (cases rb)
  case (Rb_kv bs)
  have len: "length (concat (rb_outs rb)) = psrs_total bs" and kind: "atype e \<noteq> Atype_mapgroup"
    using rb psrs_total_length [of bs] by (auto simp: Rb_kv out_kind_def length_concat comp_def)
  have "succeeds (psrs (sort_kv qs) (rbkts_pair_cmp e oc) bs n) (\<lambda>cs. csorted (rbkts_pair_cmp e oc) (parr_elems (cs ! 0)) \<and>
      mset (parr_elems (cs ! 0)) = mset (concat (map parr_elems bs)) \<and> (\<forall>a \<in> set (tl cs). parr_elems a = []) \<and> cs \<noteq> [])"
    using rb env n len by (intro psrs_single_ok) (auto simp: Rb_kv merge_env_ok_def)
  moreover have "mset (concat (rb_outs rb)) = image_mset kv_emit (mset (concat (map parr_elems bs)))"
    using mset_concat_maps [of kv_emit "map parr_elems bs"] by (simp add: Rb_kv comp_def)
  ultimately show ?thesis
    using kind
    by (auto simp: Rb_kv rbkts_merge_def use_psrs_def app_set_final_results_def results_emits_def results_sorted_def results_kv_def
        kva_get_arr_elems_def kva_get_len_def parr_elems_take rd_def elim!: succeeds_mono)
next
  case (Rb_kvl bs)
  have len: "length (concat (rb_outs rb)) = psrs_total bs" and kind: "atype e = Atype_mapgroup"
    using rb psrs_total_length [of bs] by (auto simp: Rb_kvl out_kind_def length_concat comp_def split: if_splits)
  have "succeeds (psrs (sort_kvl qs) (rbkts_len_cmp e oc) bs n) (\<lambda>cs. csorted (rbkts_len_cmp e oc) (parr_elems (cs ! 0)) \<and>
      mset (parr_elems (cs ! 0)) = mset (concat (map parr_elems bs)) \<and> (\<forall>a \<in> set (tl cs). parr_elems a = []) \<and> cs \<noteq> [])"
    using rb env n len by (intro psrs_single_ok) (auto simp: Rb_kvl merge_env_ok_def)
  moreover have "mset (concat (rb_outs rb)) = image_mset kvl_emit (mset (concat (map parr_elems bs)))"
    using mset_concat_maps [of kvl_emit "map parr_elems bs"] by (simp add: Rb_kvl comp_def)
  ultimately show ?thesis
    using kind
    by (auto simp: Rb_kvl rbkts_merge_def use_psrs_def app_set_final_results_def results_emits_def results_sorted_def results_kvl_def
        kvl_get_arr_elems_def kvl_get_len_def parr_elems_take rd_def elim!: succeeds_mono)
qed

section \<open>The phases after the set-up\<close>

context mr_env
begin

lemma key_values_size:
  "sorted_wrt (\<lambda>x y. keycmp e x y \<noteq> 0) ks \<Longrightarrow> sum_list (map (\<lambda>k. size (key_values e k T)) ks) \<le> size T"
proof (induction ks arbitrary: T)
  case (Cons k ks)
  let ?R = "filter_mset (\<lambda>q. keycmp e k (fst q) \<noteq> 0) T"
  have "key_values e k' ?R = key_values e k' T" if "k' \<in> set ks" for k'
  proof -
    have "keycmp e k k' \<noteq> 0"
      using Cons.prems that by simp
    then have "keycmp e k' (fst q) = 0 \<longrightarrow> keycmp e k (fst q) \<noteq> 0" for q
      using keycmp_eq_right [of k' "fst q" k] by blast
    then show ?thesis
      unfolding key_values_def filter_filter_mset by (metis (mono_tags, lifting) filter_mset_cong)
  qed
  then have "sum_list (map (\<lambda>k. size (key_values e k ?R)) ks) = sum_list (map (\<lambda>k. size (key_values e k T)) ks)"
    by (metis (mono_tags, lifting) map_cong)
  moreover have "size T = size (key_values e k T) + size ?R"
    using multiset_partition [of T "\<lambda>q. keycmp e k (fst q) = 0"] by (simp add: key_values_def flip: size_union)
  ultimately show ?case
    using Cons.IH [of ?R] Cons.prems by simp
qed simp

end

lemma mset_concat_append:
  "length A = length B \<Longrightarrow> mset (concat (map2 (@) A B)) = mset (concat A) + mset (concat B)"
  by (induction A B rule: list_induct2) simp_all

lemma groups_sizes: "sum_list (map grp_size (map (groups e) Q)) = length (concat Q)"
  by (induction Q) (simp_all add: groups_def grp_size_fold)

context mr_job
begin

lemma job_result_size:
  assumes "job_result (mp_env p) M T out"
  shows "size out \<le> size T"
proof -
  obtain ks outs where ks: "out = mset (concat outs)"
      "list_all2 (\<lambda>k out. \<exists>vs. mset vs = key_values (mp_env p) k T \<and> vs \<noteq> [] \<and> red_out (mp_env p) M k vs out) ks outs"
      "sorted_wrt (\<lambda>x y. keycmp (mp_env p) x y \<noteq> 0) ks"
    using assms by (auto simp: job_result_def)
  from ks(2) have "length (concat outs) \<le> sum_list (map (\<lambda>k. size (key_values (mp_env p) k T)) ks)"
  proof (induction rule: list_all2_induct)
    case (Cons k ks out outs)
    then obtain vs where vs: "mset vs = key_values (mp_env p) k T" "vs \<noteq> []" "red_out (mp_env p) M k vs out"
      by blast
    have "length out \<le> size (key_values (mp_env p) k T)"
      using red_out_kind(2) [OF vs(3)] vs(2) unfolding vs(1) [symmetric] by (cases vs) auto
    with Cons show ?case
      by simp
  qed simp
  then show ?thesis
    using bt.key_values_size [OF ks(3), of T] ks(1) by simp
qed

lemma results_fit_size:
  assumes "psrs_single (size T) n"
  shows "results_fit (mp_env p) M T n"
  using assms job_result_size unfolding results_fit_def psrs_single_def by (meson le_less_trans)

text \<open>What the rows of the matrix represent after the map phase, when the backup held the groups
  of \<open>Q0\<close>.\<close>

lemma mapped_rows:
  assumes "mapped hb n C (map (groups (mp_env p)) Q0) rb T s" "length Q0 = n" "\<forall>qs \<in> set Q0. \<forall>q \<in> set qs. put_good (mp_env p) H q"
    and "length (concat Q0) + size T \<le> 2 ^ 31"
  obtains Gs where "bt.mapper_rep UNIV (mb_mapper (kv_btree s)) Gs" "rows_ok Gs"
    "\<And>k. mset (gvals (mp_env p) k Gs) = key_values (mp_env p) k (mset (concat Q0) + T)"
proof -
  let ?g = "groups (mp_env p)"
  obtain P where P: "length P = n" "mset (concat P) = T" "\<forall>q \<in> set (concat P). put_good (mp_env p) H q"
      "bt.mapper_rep UNIV (mb_mapper (kv_btree s)) (map (\<lambda>w. fold (put_group (mp_env p)) (P ! w) (map ?g Q0 ! w)) [0..<n])"
    using assms(1) by (auto simp: mapped_def)
  define Q where "Q = map2 (@) Q0 P"
  have T: "mset (concat Q) = mset (concat Q0) + T"
    using mset_concat_append [of Q0 P] assms(2) P(1,2) by (simp add: Q_def)
  have "set (concat Q) = set (concat Q0) \<union> set (concat P)"
    using T P(2) by (metis set_mset_mset set_mset_union)
  then have good: "\<forall>qs \<in> set Q. \<forall>q \<in> set qs. put_good (mp_env p) H q"
    using assms(3) P(3) by auto
  have rows: "map (\<lambda>w. fold (put_group (mp_env p)) (P ! w) (map ?g Q0 ! w)) [0..<n] = map ?g Q"
    using P(1) assms(2) by (intro nth_equalityI) (simp_all add: Q_def groups_def)
  show thesis
  proof (rule that)
    show "bt.mapper_rep UNIV (mb_mapper (kv_btree s)) (map ?g Q)"
      using P(4) by (simp only: rows)
    have "groups_ok (mp_env p) H (?g qs)" if "qs \<in> set Q" for qs
      using groups_ok_fold [of "[]" qs] good that by (simp add: groups_def groups_ok_def)
    moreover have "length (concat Q) = length (concat Q0) + size T"
      using T by (metis size_mset size_union)
    ultimately show "rows_ok (map ?g Q)"
      using assms(4) unfolding rows_ok_def groups_sizes by simp
    show "mset (gvals (mp_env p) k (map ?g Q)) = key_values (mp_env p) k (mset (concat Q0) + T)" for k
      using bt.gvals_groups [OF good] T by simp
  qed
qed

lemma reduced_result:
  assumes "rstore C Gs {..<C} s" "rows_ok Gs" "0 < C"
    and "\<And>k. mset (gvals (mp_env p) k Gs) = key_values (mp_env p) k T"
  obtains rb where "kv_rbkts s = Some rb" "rb_ok rb" "rb_kind rb = out_kind (mp_env p)" "rb_outs rb \<noteq> []"
    "job_result (mp_env p) M T (mset (concat (rb_outs rb)))"
proof -
  obtain rb where rb: "kv_rbkts s = Some rb" "rb_cols C Gs {..<C} rb"
    using assms(1) by (auto simp: rstore_def)
  have outs: "rb_outs rb = map (\<lambda>c. rb_outs rb ! c) [0..<C]"
    using rb(2) map_nth [of "rb_outs rb"] by (simp add: rb_cols_def)
  have "job_result (mp_env p) M T (mset (concat (map (\<lambda>c. rb_outs rb ! c) [0..<C])))"
    using rb(2) assms by (intro rows_result [of _ Gs]) (auto simp: rb_cols_def rows_ok_def)
  moreover have "rb_outs rb \<noteq> []"
    using rb(2) assms(3) by (auto simp: rb_cols_def)
  ultimately show thesis
    using that [OF rb(1)] rb(2) outs by (simp add: rb_cols_def)
qed

lemma run_ok:
  assumes init: "mr_setup p pf ss s = Inr (Some (ms, s0))" "\<not> ms_skip_reduce_phase ms" "ms_nr_cpus ms = n" "ms_tasks ms = C"
    and pos: "0 < n" "0 < C"
    and st: "store_inv hb C (map (groups (mp_env p)) Q0) (Some rb0) s0 (replicate n M_start) (replicate n [])"
      "rb_ok rb0" "rb_kind rb0 = out_kind (mp_env p)" "rb_outs rb0 = replicate C []"
    and Q0: "length Q0 = n" "\<forall>qs \<in> set Q0. \<forall>q \<in> set qs. put_good (mp_env p) H q"
    and ps: "phase_ok n (map (groups (mp_env p)) Q0) (ms_ps ms) (mset (phase_puts p H (ms_ps ms)))"
      "ps_idx (ms_ps ms) = int i0" "i0 \<le> ps_nsplits (ms_ps ms)"
    and fair: "fair n (phase_work p n (ms_ps ms)) msch" "fair n (2 * C + n) rsch"
    and size: "length (concat Q0) + length (phase_puts p H (ms_ps ms)) \<le> 2 ^ 31"
      "results_fit (mp_env p) M (mset (concat Q0 @ phase_puts p H (ms_ps ms))) n"
    and env: "merge_env_ok (mp_env p) (mp_outcmp p) (qsorts pf)" "mp_results p = Some res0"
  shows "completes (mr_run_scheduler p pf ss msch rsch s) (\<lambda>(res, s').
    job_result (mp_env p) M (mset (concat Q0 @ phase_puts p H (ms_ps ms))) (mset (results_emits (mp_env p) res)) \<and>
    results_sorted (mp_env p) (mp_outcmp p) res)"
proof -
  let ?T = "mset (phase_puts p H (ms_ps ms))" and ?e = "mp_env p" and ?oc = "mp_outcmp p" and ?qs = "qsorts pf"
  obtain ps1 s1 where s1: "map_phase p ?qs False msch n (ms_ps ms) s0 = Inr (Some (ps1, s1))"
      "mapped hb n C (map (groups ?e) Q0) (Some rb0) ?T s1"
    using map_phase_ok [OF ps(1,2) pos(1) ps(3) st(1) fair(1), of ?qs] by (auto elim!: completesE)
  obtain Gs where Gs: "bt.mapper_rep UNIV (mb_mapper (kv_btree s1)) Gs" "rows_ok Gs"
      "\<And>k. mset (gvals ?e k Gs) = key_values ?e k (mset (concat Q0) + ?T)"
    using mapped_rows [OF s1(2) Q0] size(1) by auto
  have "rstore C Gs {} s1"
    using Gs(1) s1(2) st(2-4) by (auto simp: rstore_def mapped_def rb_cols_def)
  then obtain s2 where s2: "reduce_phase p ?qs C rsch n s1 = Inr (Some s2)" "rstore C Gs {..<C} s2"
    using reduce_phase_ok [OF _ Gs(2) pos(1) fair(2), of s1 ?qs] by (auto elim!: completesE)
  obtain rb where rb: "kv_rbkts s2 = Some rb" "rb_ok rb" "rb_kind rb = out_kind ?e" "rb_outs rb \<noteq> []"
      "job_result ?e M (mset (concat Q0) + ?T) (mset (concat (rb_outs rb)))"
    using reduced_result [OF s2(2) Gs(2) pos(2) Gs(3)] by auto
  have "psrs_single (length (concat (rb_outs rb))) n"
    using size(2) rb(5) unfolding results_fit_def by (metis mset_append size_mset)
  then obtain rb' res where rb': "rbkts_merge ?e ?oc ?qs use_psrs n rb = Inr rb'" "app_set_final_results rb' res0 = Inr res"
      "mset (results_emits ?e res) = mset (concat (rb_outs rb))" "results_sorted ?e ?oc res"
    using merge_final [OF rb(2-4) env(1) pos(1), of res0] by (auto elim!: succeedsE)
  have merge: "kvst_merge ?e ?oc ?qs n False s2 = Inr (Some (s2\<lparr>kv_rbkts := Some rb'\<rparr>))"
    using rb(1) rb'(1) by (simp add: kvst_merge_def lift_res_def ret_def)
  have "mr_run_scheduler p pf ss msch rsch s = Inr (Some (res, s2\<lparr>kv_rbkts := Some rb'\<rparr>))"
    using init s1(1) s2(1) merge rb'(2) env(2) by (simp add: mr_run_scheduler_def lift_res_def ret_def)
  then show ?thesis
    using rb(5) rb'(3,4) by simp
qed

end

section \<open>Runs with a given number of reduce tasks\<close>

definition run_cpus :: "('k, 'v, 's) mr_param \<Rightarrow> ('k, 'v) platform \<Rightarrow> nat" where
  "run_cpus p pf = (if mp_nr_cpus p = 0 then core_count pf else mp_nr_cpus p)"

text \<open>The pairs that the map function emits on all splits, in the order of the splits.\<close>

definition job_puts :: "('k, 'v, 's) mr_param \<Rightarrow> ('k \<Rightarrow> nat) \<Rightarrow> split list \<Rightarrow> ('k, 'v) put list" where
  "job_puts p H sps = concat (map (split_puts p H) sps)"

text \<open>
  What a run relies on: an argument that \<^verbatim>\<open>app_set_arg\<close> accepts, enough cores, a splitter that
  ends, a map function that accepts every split, and counters that stay below their limits.
\<close>

definition run_ready :: "('k, 'v, 's) mr_param \<Rightarrow> ('k \<Rightarrow> nat) \<Rightarrow> ('k, 'v) platform \<Rightarrow> presplitter_state \<Rightarrow> bool" where
  "run_ready p H pf ps \<longleftrightarrow> app_set_arg (mp_env p) (mp_results p) = Inr (out_kind (mp_env p)) \<and>
     mp_nr_cpus p \<le> core_count pf \<and> 0 < run_cpus p pf \<and>
     presplitter_init (mp_split_func p) (mp_split_arg p) (run_cpus p pf) = Some (Inr ps) \<and>
     (\<forall>sp \<in> set (ps_ma ps). split_ok p H sp) \<and> length (ps_ma ps) + run_cpus p pf < 2 ^ 31 \<and>
     length (job_puts p H (ps_ma ps)) \<le> 2 ^ 31 \<and>
     merge_env_ok (mp_env p) (mp_outcmp p) (qsorts pf)"

lemma presplitter_init_fields:
  assumes "presplitter_init split arg n = Some (Inr ps)"
  shows "ps_idx ps = 0" "ps_nsplits ps = length (ps_ma ps)" "0 < length (ps_ma ps)"
proof -
  obtain z where z: "presplit_loop split n arg [] = Some z"
    using assms by (auto simp: presplitter_init_def)
  show "ps_idx ps = 0" "ps_nsplits ps = length (ps_ma ps)" "0 < length (ps_ma ps)"
    using assms by (cases z; auto simp: presplitter_init_def z c_assert_def split: if_splits prod.splits)+
qed

lemma fair_mono: "fair n k sched \<Longrightarrow> k' \<le> k \<Longrightarrow> fair n k' sched"
  by (auto simp: fair_def intro: le_less_trans)

lemma fair_replicate: "fair 1 k (replicate (Suc k) 0)"
proof -
  have "count_list (replicate m (0::nat)) 0 = m" for m
    by (induction m) simp_all
  then show ?thesis
    unfolding fair_def by auto
qed

lemma sum_split_work:
  "(\<forall>sp \<in> set sps. split_ok p H sp) \<Longrightarrow> sum_list (map (split_work p) sps) = length (job_puts p H sps) + 2 * length sps"
  by (induction sps) (auto simp: job_puts_def split_work_def split_puts_def split_ok_def split: sum.splits)

context mr_job
begin

lemma init_store:
  assumes "0 < C" "n \<le> length (kv_est s)" "\<not> kv_has_backup s"
  shows "store_inv False C (replicate n []) (Some (rbkts_init pch C))
    (kvst_init (mp_env p) pch n C C s) (replicate n M_start) (replicate n [])"
proof -
  have "row_groups (mp_env p) (replicate n []) (replicate n M_start) (replicate n []) = replicate n []"
    by (rule nth_equalityI) (simp_all add: row_groups_nth)
  then show ?thesis
    using assms bt.mapper_rep_init [of C UNIV n] job_reduces(1)
    by (simp add: store_inv_def kvst_init_def kvst_set_bktmgr_def def_imgr_def mgr_mbks_init_def mbm_mbks_init_def backup_ok_def)
qed

lemma run_fixed:
  assumes ready: "run_ready p H pf ps" and fit: "results_fit (mp_env p) M (mset (job_puts p H (ps_ma ps))) (run_cpus p pf)"
    and tasks: "0 < mp_tasks p"
    and s: "run_cpus p pf \<le> length (kv_est s)" "\<not> kv_has_backup s"
    and fair: "fair (run_cpus p pf) (length (job_puts p H (ps_ma ps)) + 2 * length (ps_ma ps) + 2 * run_cpus p pf) msch"
      "fair (run_cpus p pf) (2 * mp_tasks p + run_cpus p pf) rsch"
  shows "completes (mr_run_scheduler p pf ss msch rsch s) (\<lambda>(res, s').
    job_result (mp_env p) M (mset (job_puts p H (ps_ma ps))) (mset (results_emits (mp_env p) res)) \<and>
    results_sorted (mp_env p) (mp_outcmp p) res)"
proof -
  let ?n = "run_cpus p pf" and ?C = "mp_tasks p" and ?pch = "out_kind (mp_env p)"
  let ?ms = "\<lparr>ms_nr_cpus = ?n, ms_ps = ps, ms_nsampled_splits = 0, ms_merge_nsplits = ?C, ms_skip_reduce_phase = False, ms_tasks = ?C\<rparr>"
  have ps: "ps_idx ps = 0" "ps_nsplits ps = length (ps_ma ps)"
    using ready presplitter_init_fields by (auto simp: run_ready_def)
  obtain res0 where res0: "mp_results p = Some res0"
    using ready by (cases "mp_results p") (auto simp: run_ready_def app_set_arg_def c_assert_def split: if_splits)
  have init: "mr_setup p pf ss s = Inr (Some (?ms, kvst_init (mp_env p) ?pch ?n ?C ?C s))"
    using ready tasks job_reduces(1) by (simp add: mr_setup_def run_ready_def run_cpus_def Let_def lift_res_def ret_def)
  have puts: "phase_puts p H ps = job_puts p H (ps_ma ps)" "phase_work p ?n ps = length (job_puts p H (ps_ma ps)) + 2 * length (ps_ma ps) + 2 * ?n"
    using ready ps sum_split_work [of "ps_ma ps" p H] by (simp_all add: phase_puts_def job_puts_def phase_work_def run_ready_def)
  have Q0: "map (groups (mp_env p)) (replicate ?n []) = replicate ?n []" "concat (replicate ?n []) = []"
    by (simp_all add: groups_def)
  have phase: "phase_ok ?n (replicate ?n []) ps (mset (phase_puts p H ps))"
    using ready ps puts(1) by (auto simp: phase_ok_def base_ok_def run_ready_def groups_ok_def)
  have "completes (mr_run_scheduler p pf ss msch rsch s) (\<lambda>(res, s').
      job_result (mp_env p) M (mset (concat (replicate ?n []) @ phase_puts p H (ms_ps ?ms))) (mset (results_emits (mp_env p) res)) \<and>
      results_sorted (mp_env p) (mp_outcmp p) res)"
  proof (rule run_ok [OF init, where n = ?n and C = ?C and ?i0.0 = 0 and hb = False and ?Q0.0 = "replicate ?n []"])
    show "store_inv False ?C (map (groups (mp_env p)) (replicate ?n [])) (Some (rbkts_init ?pch ?C))
        (kvst_init (mp_env p) ?pch ?n ?C ?C s) (replicate ?n M_start) (replicate ?n [])"
      unfolding Q0(1) by (rule init_store [OF tasks s])
    show "phase_ok ?n (map (groups (mp_env p)) (replicate ?n [])) (ms_ps ?ms) (mset (phase_puts p H (ms_ps ?ms)))"
      unfolding Q0(1) using phase by simp
  qed (use ready fit tasks fair puts ps res0 in \<open>simp_all add: run_ready_def rbkts_init_outs Q0(2)\<close>)
  then show ?thesis
    by (simp add: puts Q0(2))
qed

end

section \<open>Jobs that add up\<close>

text \<open>For an application that returns the sum of the values of each key, the values returned are
  the sums over everything emitted.\<close>

fun ekey :: "('k, 'v) emit \<Rightarrow> 'k" where
  "ekey (Emit_kv k _) = k"
| "ekey (Emit_kvs_len k _ _) = k"

lemma job_result_sums:
  fixes T :: "('k, 'v :: comm_monoid_add) put multiset"
  assumes job: "job_result e sum_list T (mset (map kv_emit kvs))"
    and red: "\<And>k vs out. red_out e sum_list k vs out \<Longrightarrow> out = [Emit_kv k (sum_list vs)]"
  obtains ks where "mset (map kv_key kvs) = mset ks" "sorted_wrt (\<lambda>x y. keycmp e x y \<noteq> 0) ks"
    "\<forall>k \<in> set ks. key_values e k T \<noteq> {#}" "\<forall>kv \<in> set kvs. kv_val kv = sum_mset (key_values e (kv_key kv) T)"
    "\<forall>q \<in># T. \<exists>k \<in> set ks. keycmp e k (fst q) = 0"
proof -
  let ?sum = "\<lambda>k. sum_mset (key_values e k T)"
  obtain ks outs where ks: "mset (map kv_emit kvs) = mset (concat outs)"
      "list_all2 (\<lambda>k out. \<exists>vs. mset vs = key_values e k T \<and> vs \<noteq> [] \<and> red_out e sum_list k vs out) ks outs"
      "sorted_wrt (\<lambda>x y. keycmp e x y \<noteq> 0) ks" "\<forall>q \<in># T. \<exists>k \<in> set ks. keycmp e k (fst q) = 0"
    using job by (auto simp: job_result_def)
  have "concat outs = map (\<lambda>k. Emit_kv k (?sum k)) ks \<and> (\<forall>k \<in> set ks. key_values e k T \<noteq> {#})"
    using ks(2)
  proof (induction rule: list_all2_induct)
    case (Cons k ks out outs)
    then obtain vs where vs: "mset vs = key_values e k T" "vs \<noteq> []" "red_out e sum_list k vs out"
      by blast
    have "out = [Emit_kv k (?sum k)]"
      using red [OF vs(3)] vs(1) [symmetric] by (simp add: sum_mset_sum_list)
    moreover have "key_values e k T \<noteq> {#}"
      unfolding vs(1) [symmetric] using vs(2) by simp
    ultimately show ?case
      using Cons by simp
  qed simp
  then have eq: "mset (map kv_emit kvs) = mset (map (\<lambda>k. Emit_kv k (?sum k)) ks)" and ne: "\<forall>k \<in> set ks. key_values e k T \<noteq> {#}"
    using ks(1) by simp_all
  have "image_mset ekey (mset (map kv_emit kvs)) = image_mset ekey (mset (map (\<lambda>k. Emit_kv k (?sum k)) ks))"
    by (simp only: eq)
  then have "mset (map kv_key kvs) = mset ks"
    by (simp add: kv_emit_def comp_def multiset.map_comp)
  moreover have "kv_val kv = ?sum (kv_key kv)" if "kv \<in> set kvs" for kv
  proof -
    have "kv_emit kv \<in># mset (map kv_emit kvs)"
      using that by simp
    then have "kv_emit kv \<in># mset (map (\<lambda>k. Emit_kv k (?sum k)) ks)"
      by (simp only: eq)
    then show ?thesis
      by (auto simp: kv_emit_def)
  qed
  ultimately show thesis
    using that ks(3,4) ne by blast
qed

lemma foldl_add: "foldl (+) (a :: 'a :: comm_monoid_add) xs = a + sum_list xs"
  by (induction xs arbitrary: a) (simp_all add: add.assoc)

text \<open>The sum of the values emitted for a key, when the key comparison is equality.\<close>

definition key_sum :: "('k \<times> 'v :: comm_monoid_add \<times> nat) list \<Rightarrow> 'k \<Rightarrow> 'v" where
  "key_sum es k = sum_list (map (\<lambda>q. fst (snd q)) (filter (\<lambda>q. fst q = k) es))"

lemma key_sum_append: "key_sum (xs @ ys) k = key_sum xs k + key_sum ys k"
  by (simp add: key_sum_def)

lemma key_sum_concat: "key_sum (concat xss) k = sum_list (map (\<lambda>xs. key_sum xs k) xss)"
  by (induction xss) (simp_all add: key_sum_append, simp add: key_sum_def)

lemma key_values_plus: "key_values e k (A + B) = key_values e k A + key_values e k B"
  by (simp add: key_values_def)

lemma fst_put_of: "fst \<circ> put_of H = fst"
  by (auto simp: put_of_def fun_eq_iff)

lemma key_values_puts:
  assumes "\<And>x y. keycmp e x y = 0 \<longleftrightarrow> x = y"
  shows "sum_mset (key_values e k (mset (map (put_of H) es))) = key_sum es k"
proof -
  have "filter (\<lambda>q. keycmp e k (fst (put_of H q)) = 0) es = filter (\<lambda>q. fst q = k) es"
    by (rule filter_cong) (auto simp: put_of_def assms)
  moreover have "key_values e k (mset (map (put_of H) es)) =
      mset (map (\<lambda>q. fst (snd q)) (filter (\<lambda>q. keycmp e k (fst (put_of H q)) = 0) es))"
    by (induction es) (auto simp: key_values_def put_of_def)
  ultimately show ?thesis
    by (simp only: key_sum_def sum_mset_sum_list)
qed

lemma distinct_keys:
  assumes "sorted_wrt (\<lambda>x y. keycmp e x y \<noteq> 0) ks" "\<And>x y. keycmp e x y = 0 \<longleftrightarrow> x = y"
  shows "distinct ks"
  using assms(1) by (induction ks) (auto simp: assms(2))

lemma sums_returned:
  fixes P :: "('k, 'v :: comm_monoid_add) put list"
  assumes job: "job_result e sum_list (mset P) (mset (map kv_emit kvs))" and eq: "\<And>x y. keycmp e x y = 0 \<longleftrightarrow> x = y"
    and red: "\<And>k vs out. red_out e sum_list k vs out \<Longrightarrow> out = [Emit_kv k (sum_list vs)]"
  shows "distinct (map kv_key kvs)" "set (map kv_key kvs) = fst ` set P"
    "\<forall>kv \<in> set kvs. kv_val kv = sum_mset (key_values e (kv_key kv) (mset P))"
proof -
  obtain ks where ks: "mset (map kv_key kvs) = mset ks" "sorted_wrt (\<lambda>x y. keycmp e x y \<noteq> 0) ks"
      "\<forall>k \<in> set ks. key_values e k (mset P) \<noteq> {#}" "\<forall>kv \<in> set kvs. kv_val kv = sum_mset (key_values e (kv_key kv) (mset P))"
      "\<forall>q \<in># mset P. \<exists>k \<in> set ks. keycmp e k (fst q) = 0"
    using job_result_sums [OF job red] by blast
  show "distinct (map kv_key kvs)"
    using distinct_keys [OF ks(2) eq] ks(1) by (metis mset_eq_imp_distinct_iff)
  have "set (map kv_key kvs) = set ks"
    using ks(1) by (metis set_mset_mset)
  moreover have "set ks = fst ` set P"
    using ks(3,5) by (force simp: key_values_empty eq)
  ultimately show "set (map kv_key kvs) = fst ` set P"
    by simp
  show "\<forall>kv \<in> set kvs. kv_val kv = sum_mset (key_values e (kv_key kv) (mset P))"
    by (rule ks(4))
qed

text \<open>There are at most as many results as keys.\<close>

lemma job_result_card:
  assumes job: "job_result e M (mset P) out" and eq: "\<And>x y. keycmp e x y = 0 \<longleftrightarrow> x = y"
    and red: "\<And>k vs out. red_out e M k vs out \<Longrightarrow> length out \<le> 1" and keys: "fst ` set P \<subseteq> K" "finite K"
  shows "size out \<le> card K"
proof -
  obtain ks outs where ks: "out = mset (concat outs)"
      "list_all2 (\<lambda>k out. \<exists>vs. mset vs = key_values e k (mset P) \<and> vs \<noteq> [] \<and> red_out e M k vs out) ks outs"
      "sorted_wrt (\<lambda>x y. keycmp e x y \<noteq> 0) ks"
    using job by (auto simp: job_result_def)
  from ks(2) have len: "length (concat outs) \<le> length ks \<and> set ks \<subseteq> fst ` set P"
  proof (induction rule: list_all2_induct)
    case (Cons k ks out outs)
    then obtain vs where vs: "mset vs = key_values e k (mset P)" "vs \<noteq> []" "red_out e M k vs out"
      by blast
    have "key_values e k (mset P) \<noteq> {#}"
      unfolding vs(1) [symmetric] using vs(2) by simp
    then have "k \<in> fst ` set P"
      by (force simp: key_values_empty eq)
    with red [OF vs(3)] Cons show ?case
      by simp
  qed simp
  have "length ks = card (set ks)"
    using distinct_card [OF distinct_keys [OF ks(3) eq]] by simp
  also have "\<dots> \<le> card K"
    using len keys by (intro card_mono) auto
  finally show ?thesis
    using len by (simp add: ks(1))
qed

section \<open>Jobs that group\<close>

text \<open>For an application that only groups, the groups returned hold all the values of their keys.\<close>

lemma job_result_groups:
  assumes job: "job_result e mset T (mset (map kvl_emit xs))" and group: "atype e = Atype_mapgroup"
  obtains ks where "mset (map kvl_key xs) = mset ks" "sorted_wrt (\<lambda>x y. keycmp e x y \<noteq> 0) ks"
    "\<forall>k \<in> set ks. key_values e k T \<noteq> {#}"
    "\<forall>x \<in> set xs. \<exists>vs. kvl_vals x = VArr vs \<and> kvl_len x \<le> length vs \<and> mset (take (kvl_len x) vs) = key_values e (kvl_key x) T"
    "\<forall>q \<in># T. \<exists>k \<in> set ks. keycmp e k (fst q) = 0"
proof -
  define good where "good out \<longleftrightarrow> (\<exists>k vs n. out = Emit_kvs_len k (VArr vs) n \<and> n \<le> length vs \<and> mset (take n vs) = key_values e k T)" for out
  obtain ks outs where ks: "mset (map kvl_emit xs) = mset (concat outs)"
      "list_all2 (\<lambda>k out. \<exists>vs. mset vs = key_values e k T \<and> vs \<noteq> [] \<and> red_out e mset k vs out) ks outs"
      "sorted_wrt (\<lambda>x y. keycmp e x y \<noteq> 0) ks" "\<forall>q \<in># T. \<exists>k \<in> set ks. keycmp e k (fst q) = 0"
    using job by (auto simp: job_result_def)
  have outs: "map ekey (concat outs) = ks \<and> (\<forall>out \<in> set (concat outs). good out) \<and> (\<forall>k \<in> set ks. key_values e k T \<noteq> {#})"
    using ks(2)
  proof (induction rule: list_all2_induct)
    case (Cons k ks out outs)
    then obtain vs where vs: "mset vs = key_values e k T" "vs \<noteq> []" "red_out e mset k vs out"
      by blast
    obtain ys n where ys: "out = [Emit_kvs_len k (VArr ys) n]" "n \<le> length ys" "mset (take n ys) = mset vs"
      using vs(3) group by (auto simp: red_out_def)
    have "key_values e k T \<noteq> {#}"
      unfolding vs(1) [symmetric] using vs(2) by simp
    moreover have "good (Emit_kvs_len k (VArr ys) n)"
      using ys(2,3) vs(1) by (auto simp: good_def)
    ultimately show ?case
      using Cons ys(1) by simp
  qed simp
  have "mset (map ekey (map kvl_emit xs)) = mset (map ekey (concat outs))"
    using ks(1) by (metis mset_map)
  then have "mset (map kvl_key xs) = mset ks"
    using outs by (simp add: kvl_emit_def comp_def)
  moreover have "\<exists>vs. kvl_vals x = VArr vs \<and> kvl_len x \<le> length vs \<and> mset (take (kvl_len x) vs) = key_values e (kvl_key x) T"
    if "x \<in> set xs" for x
  proof -
    have "set (map kvl_emit xs) = set (concat outs)"
      using ks(1) by (rule mset_eq_setD)
    then have "good (kvl_emit x)"
      using that outs by auto
    then show ?thesis
      by (auto simp: good_def kvl_emit_def)
  qed
  ultimately show thesis
    using that ks(3,4) outs by blast
qed

end
