(* ===== verification/Wc_Run.thy ===== *)
theory Wc_Run
  imports Sched_Run App_Wc
begin

text \<open>
  Word count on the library: \<^verbatim>\<open>do_mapreduce\<close> of \<^verbatim>\<open>metis/app/wc.c\<close>, from the text to
  the list of words with their numbers of occurrences.
\<close>

section \<open>The program\<close>

definition wc_bytes :: "string \<Rightarrow> 8 word list" where
  "wc_bytes = map of_char"

definition wc_param :: "bool \<Rightarrow> nat \<Rightarrow> nat \<Rightarrow> nat \<Rightarrow> string \<Rightarrow> nat \<Rightarrow> (string, 64 word, wc_data) mr_param" where
  "wc_param alphanumeric nprocs map_tasks reduce_tasks dat len =
     \<lparr>mp_env = wc_env True,
      mp_results = Some \<lparr>res_kv = None, res_kvl = None, res_length = 0\<rparr>,
      mp_outcmp = \<lparr>out_kv_cmp = (if alphanumeric then None else Some wc_out_cmp), out_kvl_cmp = None\<rparr>,
      mp_tasks = reduce_tasks,
      mp_map_func = (\<lambda>(a, l). wordcount_map (take l (drop a dat))),
      mp_split_func = wordcount_splitter,
      mp_split_arg = \<lparr>fpos = 0, flen = len, fdata = dat, nsplits = map_tasks\<rparr>,
      mp_part_func = None,
      mp_bytes = wc_bytes,
      mp_nr_cpus = nprocs\<rparr>"

definition wc_do_mapreduce :: "(string, 64 word) platform \<Rightarrow> nat list \<Rightarrow> nat list \<Rightarrow> nat list \<Rightarrow> bool \<Rightarrow> nat \<Rightarrow> nat \<Rightarrow> nat
    \<Rightarrow> string \<Rightarrow> nat \<Rightarrow> (string, 64 word) kvst \<Rightarrow> ((string, 64 word) app_results \<times> (string, 64 word) kvst) option res" where
  "wc_do_mapreduce pf ss msch rsch alphanumeric nprocs map_tasks reduce_tasks dat len s =
     mr_run_scheduler (wc_param alphanumeric nprocs map_tasks reduce_tasks dat len) pf ss msch rsch s"

section \<open>Word count is a job\<close>

text \<open>The hash of a key reads its bytes up to the terminator.\<close>

definition wc_hash :: "string \<Rightarrow> nat" where
  "wc_hash k = unat (foldl hash_byte 5381 (wc_bytes (c_str k)) mod (2 ^ 32 - 1))"

interpretation wc_job: mr_job "wc_param a n m r dat len" sum_list wc_hash for a n m r dat len
proof (rule mr_job.intro)
  show "mr_env (mp_env (wc_param a n m r dat len))" "value_summary (mp_env (wc_param a n m r dat len)) sum_list"
    using wc.mr_env_axioms wc_sum.value_summary_axioms by (simp_all add: wc_param_def)
  show "hash_ok (mp_env (wc_param a n m r dat len)) wc_hash"
    by (simp add: hash_ok_def wc_param_def mystrcmp_def c_strcmp_eq wc_hash_def)
qed (simp_all add: wc_param_def reduces_ok_def)

lemma wc_out_cmp_comparator: "comparator wc_out_cmp"
proof
  fix x y z :: "(string, 64 word) keyval"
  show "wc_out_cmp x y < 0 \<longleftrightarrow> 0 < wc_out_cmp y x"
    using str.cmp_sym by (auto simp: wc_out_cmp_def)
  show "wc_out_cmp x y \<le> 0 \<Longrightarrow> wc_out_cmp y z \<le> 0 \<Longrightarrow> wc_out_cmp x z \<le> 0"
    using str.cmp_trans [of "kv_key x" "kv_key y" "kv_key z"] by (auto simp: wc_out_cmp_def split: if_splits)
qed

lemma wc_merge_env:
  assumes "qsort_impl (sort_kv qs)" "qsort_impl (sort_kvl qs)"
  shows "merge_env_ok (wc_env True) (mp_outcmp (wc_param a n m r dat len)) qs"
proof -
  have "comparator (\<lambda>x y. mystrcmp (kva_get_key x) (kva_get_key y))" "comparator (\<lambda>x y. mystrcmp (kvl_get_key x) (kvl_get_key y))"
    by (rule comparator_on [OF mystrcmp_comparator])+
  then show ?thesis
    using assms wc_out_cmp_comparator
    by (cases a) (simp_all add: merge_env_ok_def wc_param_def rbkts_pair_cmp_def [abs_def] rbkts_len_cmp_def [abs_def])
qed

section \<open>Counting words\<close>

lemma words_induct:
  assumes "P []" "\<And>c s. \<not> is_AZ c \<Longrightarrow> P s \<Longrightarrow> P (c # s)" "\<And>c s. is_AZ c \<Longrightarrow> P (dropWhile is_word_char s) \<Longrightarrow> P (c # s)"
  shows "P s"
proof (induction "length s" arbitrary: s rule: less_induct)
  case less
  show ?case
  proof (cases s)
    case (Cons c cs)
    have "P cs" "P (dropWhile is_word_char cs)"
      using less length_dropWhile_le [of is_word_char cs] by (auto simp: Cons le_imp_less_Suc)
    then show ?thesis
      using assms(2,3) by (cases "is_AZ c") (auto simp: Cons)
  qed (simp add: assms(1))
qed

lemma words_length: "length (words s) \<le> length s"
proof (induction s rule: words_induct)
  case (3 c s)
  then show ?case
    using length_dropWhile_le [of is_word_char s] by (simp add: words_Cons)
qed (simp_all add: words_Cons le_SucI)

lemma is_AZ_nul: "is_AZ c \<Longrightarrow> c \<noteq> nul" "is_word_char c \<Longrightarrow> c \<noteq> nul"
  by (auto simp: is_AZ_def is_word_char_def)

lemma words_no_nul: "\<forall>w \<in> set (words s). nul \<notin> set w"
proof (induction s rule: words_induct)
  case (3 c s)
  have "nul \<notin> set (takeWhile is_word_char s)"
    using is_AZ_nul(2) by (auto dest: set_takeWhileD)
  then show ?case
    using 3 is_AZ_nul(1) by (auto simp: words_Cons)
qed (simp_all add: words_Cons)

section \<open>The pairs of a text\<close>

definition text_words :: "string \<Rightarrow> string list" where
  "text_words dat = words (map c_toupper dat)"

definition word_put :: "string \<Rightarrow> (string, 64 word) put" where
  "word_put w = (w, 1, length w, wc_hash w)"

lemma wc_part:
  assumes "nul \<notin> set w"
  shows "part_func (wc_param a n m r dat len) w (length w) = Inr (wc_hash w)"
  using assms by (simp add: part_func_def wc_param_def default_hasher_def wc_bytes_def wc_hash_def c_str_id)

lemma wc_split:
  assumes "\<forall>w \<in> set (text_words (take l (drop b dat))). length w < max_key_len"
  shows "split_ok (wc_param a n m r dat len) wc_hash (b, l)"
    and "split_puts (wc_param a n m r dat len) wc_hash (b, l) = map word_put (text_words (take l (drop b dat)))"
proof -
  have map: "mp_map_func (wc_param a n m r dat len) (b, l) = Inr (emits (text_words (take l (drop b dat))))"
    using wc_scan_words [where s = "take l (drop b dat)" and st = NOT_IN_WORD] assms
    by (simp add: wc_param_def wordcount_map_def Let_def text_words_def)
  have "part_func (wc_param a n m r dat len) w (length w) = Inr (wc_hash w)" if "w \<in> set (text_words (take l (drop b dat)))" for w
    using wc_part words_no_nul that unfolding text_words_def by blast
  then show "split_ok (wc_param a n m r dat len) wc_hash (b, l)"
    by (auto simp: split_ok_def map) (simp add: wc_param_def keycopy_ok_wc)
  show "split_puts (wc_param a n m r dat len) wc_hash (b, l) = map word_put (text_words (take l (drop b dat)))"
    by (simp add: split_puts_def map put_of_def word_put_def)
qed

text \<open>Splitting the text: its words are those of the splits.\<close>

lemma wc_splits:
  assumes "0 < wc_nsplits \<lparr>fpos = 0, flen = length dat, fdata = dat, nsplits = m\<rparr> c"
    and "wc_nsplits \<lparr>fpos = 0, flen = length dat, fdata = dat, nsplits = m\<rparr> c \<le> length dat"
    and short: "\<forall>w \<in> set (text_words dat). length w < max_key_len"
  obtains ps where "presplitter_init wordcount_splitter \<lparr>fpos = 0, flen = length dat, fdata = dat, nsplits = m\<rparr> c = Some (Inr ps)"
    "length (ps_ma ps) \<le> length dat" "\<forall>sp \<in> set (ps_ma ps). split_ok (wc_param a n m r dat len) wc_hash sp"
    "job_puts (wc_param a n m r dat len) wc_hash (ps_ma ps) = map word_put (text_words dat)"
proof -
  let ?d = "\<lparr>fpos = 0, flen = length dat, fdata = dat, nsplits = m\<rparr>" and ?p = "wc_param a n m r dat len"
  have "wc_good c ?d" "fpos ?d < flen ?d"
    using assms(1,2) by (auto simp: wc_good_def)
  then obtain ps where ps: "presplitter_init wordcount_splitter ?d c = Some (Inr ps)" "chain (wc_ends ?d) 0 (length dat) (ps_ma ps)"
    using wcsp.presplitter_init_covers [of c ?d] by auto
  have words: "text_words dat = concat (map (\<lambda>(b, l). text_words (take l (drop b dat))) (ps_ma ps))"
    using words_chain [of ?d 0 "ps_ma ps"] ps(2) by (simp add: text_words_def)
  have short': "\<forall>w \<in> set (text_words (take l (drop b dat))). length w < max_key_len" if "(b, l) \<in> set (ps_ma ps)" for b l
    using short that unfolding words by force
  have "split_puts ?p wc_hash sp = map word_put ((\<lambda>(b, l). text_words (take l (drop b dat))) sp)" if "sp \<in> set (ps_ma ps)" for sp
    using wc_split(2) [OF short'] that by (cases sp) auto
  then have "map (split_puts ?p wc_hash) (ps_ma ps) = map (map word_put) (map (\<lambda>(b, l). text_words (take l (drop b dat))) (ps_ma ps))"
    by simp
  then have puts: "job_puts ?p wc_hash (ps_ma ps) = map word_put (text_words dat)"
    unfolding job_puts_def words map_concat by (simp only:)
  have "\<forall>sp \<in> set (ps_ma ps). split_ok ?p wc_hash sp"
    using wc_split(1) [OF short'] by auto
  then show thesis
    using that [OF ps(1)] chain_length [OF ps(2)] puts by simp
qed

section \<open>From emissions to counts\<close>

lemma key_values_words:
  assumes "\<forall>w \<in> set ws. nul \<notin> set w"
  shows "key_values (wc_env True) k (mset (map word_put ws)) = replicate_mset (count_list ws (c_str k)) 1"
  using assms
proof (induction ws)
  case (Cons w ws)
  have "mystrcmp k w = 0 \<longleftrightarrow> w = c_str k"
    using Cons.prems by (auto simp: mystrcmp_def c_strcmp_eq c_str_id)
  with Cons show ?case
    by (simp add: key_values_def word_put_def)
qed (simp add: key_values_def)

text \<open>What the result of the job says of the pairs returned.\<close>

definition word_counts :: "string list \<Rightarrow> (string, 64 word) keyval list \<Rightarrow> bool" where
  "word_counts ws kvs \<longleftrightarrow> distinct (map (\<lambda>kv. c_str (kv_key kv)) kvs) \<and> set (map (\<lambda>kv. c_str (kv_key kv)) kvs) = set ws \<and>
     (\<forall>kv \<in> set kvs. kv_val kv = of_nat (count_list ws (c_str (kv_key kv))))"

lemma job_result_counts:
  assumes ws: "\<forall>w \<in> set ws. nul \<notin> set w"
    and job: "job_result (wc_env True) sum_list (mset (map word_put ws)) (mset (map kv_emit kvs))"
  shows "word_counts ws kvs"
proof -
  let ?e = "wc_env True" and ?T = "mset (map word_put ws)"
  obtain ks where ks: "mset (map kv_key kvs) = mset ks" "sorted_wrt (\<lambda>x y. mystrcmp x y \<noteq> 0) ks"
      "\<forall>k \<in> set ks. key_values ?e k ?T \<noteq> {#}" "\<forall>kv \<in> set kvs. kv_val kv = sum_mset (key_values ?e (kv_key kv) ?T)"
      "\<forall>q \<in># ?T. \<exists>k \<in> set ks. mystrcmp k (fst q) = 0"
    using job_result_sums [OF job] by (auto simp: red_out_def)
  have "distinct (map c_str ks)"
    using ks(2) by (induction ks) (auto simp: mystrcmp_def c_strcmp_eq)
  moreover have keys: "mset (map c_str (map kv_key kvs)) = mset (map c_str ks)"
    using ks(1) by (metis mset_map)
  ultimately have "distinct (map c_str (map kv_key kvs))"
    by (metis mset_eq_imp_distinct_iff)
  moreover have "set (map c_str (map kv_key kvs)) = set ws"
  proof
    have set_eq: "set (map c_str (map kv_key kvs)) = c_str ` set ks"
      using keys by (metis set_map set_mset_mset)
    have "c_str k \<in> set ws" if "k \<in> set ks" for k
    proof -
      have "count_list ws (c_str k) \<noteq> 0"
        using ks(3) that key_values_words [OF ws, of k] by (metis replicate_mset_0)
      then show ?thesis
        by (simp add: count_list_0_iff)
    qed
    then show "set (map c_str (map kv_key kvs)) \<subseteq> set ws"
      unfolding set_eq by auto
    show "set ws \<subseteq> set (map c_str (map kv_key kvs))"
    proof
      fix w
      assume w: "w \<in> set ws"
      then have "word_put w \<in># ?T"
        by simp
      then obtain k where "k \<in> set ks" "mystrcmp k w = 0"
        using ks(5) by (fastforce simp: word_put_def)
      then show "w \<in> set (map c_str (map kv_key kvs))"
        unfolding set_eq using ws w by (auto simp: mystrcmp_def c_strcmp_eq c_str_id intro!: image_eqI [of w c_str k])
    qed
  qed
  moreover have "kv_val kv = of_nat (count_list ws (c_str (kv_key kv)))" if "kv \<in> set kvs" for kv
    using ks(4) that key_values_words [OF ws, of "kv_key kv"] by simp
  ultimately show ?thesis
    by (simp add: word_counts_def comp_def)
qed

section \<open>A text makes a job that is ready to run\<close>

lemma wc_ready:
  assumes n: "n = (if nprocs = 0 then core_count pf else nprocs)" "0 < n" "nprocs \<le> core_count pf"
    and m: "m = (if map_tasks = 0 then n * def_nsplits_per_core else map_tasks)" "m \<le> length dat"
    and size: "length dat + n < 2 ^ 31"
    and words: "\<forall>w \<in> set (text_words dat). length w < max_key_len"
    and sorts: "qsort_impl (sort_kv (qsorts pf))" "qsort_impl (sort_kvl (qsorts pf))"
  obtains ps where "run_ready (wc_param a nprocs map_tasks r dat (length dat)) wc_hash pf ps"
    "run_cpus (wc_param a nprocs map_tasks r dat (length dat)) pf = n" "length (ps_ma ps) \<le> length dat"
    "job_puts (wc_param a nprocs map_tasks r dat (length dat)) wc_hash (ps_ma ps) = map word_put (text_words dat)"
    "length (text_words dat) \<le> length dat"
proof -
  let ?p = "wc_param a nprocs map_tasks r dat (length dat)"
  let ?d = "\<lparr>fpos = 0, flen = length dat, fdata = dat, nsplits = map_tasks\<rparr>"
  have cpus: "run_cpus ?p pf = n" and env: "mp_env ?p = wc_env True" and split: "mp_split_func ?p = wordcount_splitter" "mp_split_arg ?p = ?d"
    by (simp_all add: run_cpus_def wc_param_def n(1))
  have m': "wc_nsplits ?d n = m" "0 < m"
    using m n(2) by (auto simp: wc_nsplits_def def_nsplits_per_core_def)
  obtain ps where ps: "presplitter_init wordcount_splitter ?d n = Some (Inr ps)" "length (ps_ma ps) \<le> length dat"
      "\<forall>sp \<in> set (ps_ma ps). split_ok ?p wc_hash sp" "job_puts ?p wc_hash (ps_ma ps) = map word_put (text_words dat)"
    using wc_splits [of dat map_tasks n a nprocs r "length dat"] m' m(2) words by metis
  have len: "length (text_words dat) \<le> length dat"
    using words_length [of "map c_toupper dat"] by (simp add: text_words_def)
  have arg: "app_set_arg (mp_env ?p) (mp_results ?p) = Inr (out_kind (mp_env ?p))"
    by (simp add: app_set_arg_def wc_param_def uses_vm_def out_kind_def)
  have "run_ready ?p wc_hash pf ps"
    using n size len ps wc_merge_env [OF sorts] arg unfolding run_ready_def cpus env split
    by (simp add: wc_param_def)
  then show thesis
    using that cpus ps(2,4) len by blast
qed

section \<open>Main result\<close>



end
