(* ===== verification/App_Hist.thy ===== *)
theory App_Hist
  imports Sched_Run
begin

text \<open>
  The image histogram (\<^verbatim>\<open>metis/app/hist.c\<close>): reading the bitmap header on either byte order,
  counting the values of the three colour channels, the callbacks, the whole program and its
  report.
\<close>

section \<open>The bitmap header\<close>

definition img_data_offset_pos :: nat where
  "img_data_offset_pos = 10"

definition bits_per_pixel_pos :: nat where
  "bits_per_pixel_pos = 28"

text \<open>
  The test of the byte order looks at the first byte of \<^verbatim>\<open>0x12345678\<close> in memory; its result
  is the flag \<^verbatim>\<open>swap\<close>.
\<close>

definition host_word32 :: "bool \<Rightarrow> 8 word list" where
  "host_word32 little = (if little then [0x78, 0x56, 0x34, 0x12] else [0x12, 0x34, 0x56, 0x78])"

definition test_endianess :: "bool \<Rightarrow> bool option" where
  "test_endianess little =
     (let low = hd (host_word32 little) in
      if low = 0x78 then Some False else if low = 0x12 then Some True else None)"

text \<open>A 16-bit value at an address, in the byte order of the host.\<close>

definition read16 :: "bool \<Rightarrow> 8 word list \<Rightarrow> nat \<Rightarrow> nat res" where
  "read16 little mem pos =
     res_bind (rd mem (int pos)) (\<lambda>x.
     res_bind (rd mem (int pos + 1)) (\<lambda>y.
     Inr (if little then unat x + 256 * unat y else unat y + 256 * unat x)))"

fun swap_loop :: "8 word list \<Rightarrow> nat \<Rightarrow> nat \<Rightarrow> nat list \<Rightarrow> 8 word list res" where
  "swap_loop mem pos nbytes [] = Inr mem"
| "swap_loop mem pos nbytes (i # is) =
     res_bind (rd mem (int (pos + i))) (\<lambda>tmp.
     res_bind (rd mem (int (pos + (nbytes - 1 - i)))) (\<lambda>x.
     res_bind (wr mem (int (pos + i)) x) (\<lambda>mem1.
     res_bind (wr mem1 (int (pos + (nbytes - 1 - i))) tmp) (\<lambda>mem2.
     swap_loop mem2 pos nbytes is))))"

definition swap_bytes :: "8 word list \<Rightarrow> nat \<Rightarrow> nat \<Rightarrow> 8 word list res" where
  "swap_bytes mem pos nbytes = swap_loop mem pos nbytes [0..<nbytes div 2]"

text \<open>The file is mapped; the rest of its last page reads as 0, and an access beyond it is a fault.\<close>

definition map_file :: "8 word list \<Rightarrow> 8 word list" where
  "map_file file = file @ replicate ((4096 - length file mod 4096) mod 4096) 0"

text \<open>Reading a field of the header, with the swap that the byte order asks for.\<close>

definition header16 :: "bool \<Rightarrow> bool \<Rightarrow> 8 word list \<Rightarrow> nat \<Rightarrow> (nat \<times> 8 word list) res" where
  "header16 little swap mem pos =
     res_bind (if swap then swap_bytes mem pos 2 else Inr mem) (\<lambda>mem'.
     res_bind (read16 little mem' pos) (\<lambda>x. Inr (x, mem')))"

section \<open>The callbacks\<close>

definition myshortcmp :: "16 word \<Rightarrow> 16 word \<Rightarrow> int" where
  "myshortcmp val1 val2 = (if sint val1 < sint val2 then - 1 else if sint val2 < sint val1 then 1 else 0)"

definition blue_keys :: "16 word list" where
  "blue_keys = map (\<lambda>i. 1000 + of_nat i) [0..<256]"

definition green_keys :: "16 word list" where
  "green_keys = map (\<lambda>i. 2000 + of_nat i) [0..<256]"

definition red_keys :: "16 word list" where
  "red_keys = map (\<lambda>i. 3000 + of_nat i) [0..<256]"

definition bump :: "8 word \<Rightarrow> 64 word list \<Rightarrow> 64 word list" where
  "bump x cs = cs[unat x := cs ! unat x + 1]"

text \<open>The loop over the pixels of a split: blue, green and red byte of each.\<close>

fun hist_loop :: "8 word list \<Rightarrow> 64 word list \<Rightarrow> 64 word list \<Rightarrow> 64 word list
    \<Rightarrow> 64 word list \<times> 64 word list \<times> 64 word list" where
  "hist_loop (b # g # r # dat) blue green red = hist_loop dat (bump b blue) (bump g green) (bump r red)"
| "hist_loop _ blue green red = (blue, green, red)"

definition hist_emit :: "16 word list \<Rightarrow> 64 word list \<Rightarrow> nat \<Rightarrow> (16 word \<times> 64 word \<times> nat) list" where
  "hist_emit ks cs i = (if 0 < cs ! i then [(ks ! i, cs ! i, 2)] else [])"

definition hist_map :: "8 word list \<Rightarrow> split \<Rightarrow> (16 word \<times> 64 word \<times> nat) list res" where
  "hist_map dat sp =
     (case sp of (a, l) \<Rightarrow>
      c_assert (l mod 3 = 0)
       (if length dat < a + l then Inl Out_of_bounds
        else case hist_loop (take l (drop a dat)) (replicate 256 0) (replicate 256 0) (replicate 256 0) of
          (blue, green, red) \<Rightarrow>
            Inr (concat (map (\<lambda>i. hist_emit blue_keys blue i @ hist_emit green_keys green i @ hist_emit red_keys red i)
                   [0..<256]))))"

definition hist_reduce :: "16 word \<Rightarrow> 64 word list \<Rightarrow> (16 word \<times> 64 word) list" where
  "hist_reduce key vals = [(key, foldl (+) 0 vals)]"

definition hist_local_reduce :: "16 word \<Rightarrow> 64 word list \<Rightarrow> 64 word list \<times> nat" where
  "hist_local_reduce key vals = (case vals of [] \<Rightarrow> ([], 1) | v # vs \<Rightarrow> (foldl (+) 0 vals # vs, 1))"

definition hist_env :: "(16 word, 64 word) env" where
  "hist_env = \<lparr>atype = Atype_mapreduce, vm = None, combiner = Some hist_local_reduce, reduce_func = Some hist_reduce,
     keycmp = myshortcmp, mrkeycopy = None, null_key = 0\<rparr>"

definition short_bytes :: "bool \<Rightarrow> 16 word \<Rightarrow> 8 word list" where
  "short_bytes little k =
     (let lo = ucast k; hi = ucast (drop_bit 8 k) in if little then [lo, hi] else [hi, lo])"

definition hist_param :: "bool \<Rightarrow> nat \<Rightarrow> defsplitter_state \<Rightarrow> nat \<Rightarrow> 8 word list
    \<Rightarrow> (16 word, 64 word, defsplitter_state) mr_param" where
  "hist_param little nprocs ds reduce_tasks dat =
     \<lparr>mp_env = hist_env,
      mp_results = Some \<lparr>res_kv = None, res_kvl = None, res_length = 0\<rparr>,
      mp_outcmp = \<lparr>out_kv_cmp = None, out_kvl_cmp = None\<rparr>,
      mp_tasks = reduce_tasks,
      mp_map_func = hist_map dat,
      mp_split_func = defsplitter,
      mp_split_arg = ds,
      mp_part_func = None,
      mp_bytes = short_bytes little,
      mp_nr_cpus = nprocs\<rparr>"

section \<open>The report\<close>

datatype hist_line = Label string | Row "16 word" "64 word"

fun hist_rows :: "16 word \<Rightarrow> (16 word, 64 word) keyval list \<Rightarrow> hist_line list" where
  "hist_rows prev [] = []"
| "hist_rows prev (kv # kvs) =
     (let pix_val = kv_key kv; freq = kv_val kv in
      (if 700 < sint pix_val - sint prev then
         (if 2000 \<le> sint pix_val then [Label ''Red'']
          else if 1000 \<le> sint pix_val then [Label ''Green'']
          else [])
       else []) @ Row pix_val freq # hist_rows pix_val kvs)"

definition hist_print :: "(16 word, 64 word) keyval list \<Rightarrow> hist_line list" where
  "hist_print kvs = Label ''Blue'' # hist_rows 0 kvs"

section \<open>The program\<close>

text \<open>The exits of \<^verbatim>\<open>main\<close> before the run, and the results otherwise.\<close>

datatype hist_exit = Not_bitmap | Not_24_bit | Bad_endianess

definition hist_main :: "bool \<Rightarrow> (16 word, 64 word) platform \<Rightarrow> nat list \<Rightarrow> nat list \<Rightarrow> nat list \<Rightarrow> nat \<Rightarrow> nat \<Rightarrow> nat
    \<Rightarrow> 8 word list \<Rightarrow> (16 word, 64 word) kvst
    \<Rightarrow> (hist_exit + (16 word, 64 word) app_results \<times> (16 word, 64 word) kvst) option res" where
  "hist_main little pf ss msch rsch nprocs map_tasks reduce_tasks file s =
     (let mem = map_file file in
      run_bind (lift_res (rd mem 0)) (\<lambda>b0.
      run_bind (lift_res (rd mem 1)) (\<lambda>b1.
      if b0 \<noteq> 0x42 \<or> b1 \<noteq> 0x4D then ret (Inl Not_bitmap)
      else case test_endianess little of
        None \<Rightarrow> ret (Inl Bad_endianess)
      | Some swap \<Rightarrow>
          run_bind (lift_res (header16 little swap mem bits_per_pixel_pos)) (\<lambda>(bitsperpixel, mem1).
          if bitsperpixel \<noteq> 24 then ret (Inl Not_24_bit)
          else
            run_bind (lift_res (header16 little swap mem1 img_data_offset_pos)) (\<lambda>(data_pos, mem2).
            let imgdata_bytes = rounddown (nat ((int (length file) - int data_pos) mod 2 ^ 64)) 3 in
            run_bind (lift_res (defsplitter_init imgdata_bytes map_tasks 3)) (\<lambda>ds.
            run_bind (mr_run_scheduler (hist_param little nprocs ds reduce_tasks (drop data_pos mem2)) pf ss msch rsch s) (\<lambda>(res, s').
            ret (Inr (res, s')))))))))"

section \<open>The callbacks keep the library's contracts\<close>

lemma myshortcmp_comparator: "comparator myshortcmp"
  by unfold_locales (auto simp: myshortcmp_def split: if_splits)

lemma myshortcmp_eq: "myshortcmp x y = 0 \<longleftrightarrow> x = y"
  by (auto simp: myshortcmp_def intro: signed_word_eqI)

lemma hist_env_simps [simp]:
  "atype hist_env = Atype_mapreduce" "keycmp hist_env = myshortcmp" "vm hist_env = None"
  "combiner hist_env = Some hist_local_reduce" "reduce_func hist_env = Some hist_reduce"
  "mrkeycopy hist_env = None"
  by (simp_all add: hist_env_def)

definition hist_hash :: "bool \<Rightarrow> 16 word \<Rightarrow> nat" where
  "hist_hash little k = unat (foldl hash_byte 5381 (short_bytes little k) mod (2 ^ 32 - 1))"

lemma hist_mr_env: "mr_env hist_env"
  by (rule mr_env.intro) (simp add: myshortcmp_comparator)

lemma hist_summary: "value_summary hist_env sum_list"
  by unfold_locales (auto simp: hist_local_reduce_def foldl_add split: list.splits)

interpretation hist_job: mr_job "hist_param b n ds r dat" sum_list "hist_hash b" for b n ds r dat
proof (rule mr_job.intro)
  show "mr_env (mp_env (hist_param b n ds r dat))" "value_summary (mp_env (hist_param b n ds r dat)) sum_list"
    using hist_mr_env hist_summary by (simp_all add: hist_param_def)
  show "hash_ok (mp_env (hist_param b n ds r dat)) (hist_hash b)"
    by (simp add: hash_ok_def hist_param_def myshortcmp_eq)
qed (auto simp: hist_param_def reduces_ok_def hist_reduce_def)

section \<open>The header on either byte order\<close>

lemma header16_ok:
  assumes "pos + 1 < length mem" "test_endianess little = Some swap"
  shows "\<exists>mem'. header16 little swap mem pos = Inr (unat (mem ! pos) + 256 * unat (mem ! (pos + 1)), mem') \<and>
    length mem' = length mem \<and> (\<forall>i. i \<noteq> pos \<longrightarrow> i \<noteq> pos + 1 \<longrightarrow> mem' ! i = mem ! i)"
  using assms
  by (cases little)
    (auto simp: test_endianess_def host_word32_def header16_def read16_def swap_bytes_def nat_add_distrib nth_list_update
      split: if_splits)

section \<open>Counting a channel\<close>

lemma bump_length [simp]: "length (bump x cs) = length cs"
  by (simp add: bump_def)

lemma fold_bump_nth:
  assumes "length cs = 256" "i < 256"
  shows "fold bump xs cs ! i = cs ! i + of_nat (count_list xs (of_nat i))"
  using assms(1)
proof (induction xs arbitrary: cs)
  case (Cons x xs)
  have "unat x < 256"
    using unsigned_less [of x] by simp
  moreover have "unat x = i \<longleftrightarrow> x = of_nat i"
    using assms(2) by (auto simp: unat_of_nat)
  ultimately have "bump x cs ! i = cs ! i + (if x = of_nat i then 1 else 0)"
    using Cons.prems by (auto simp: bump_def nth_list_update)
  with Cons show ?case
    by simp
qed simp

text \<open>The values of the channels of a list of pixels.\<close>

fun channels :: "8 word list \<Rightarrow> 8 word list \<times> 8 word list \<times> 8 word list" where
  "channels (b # g # r # dat) = (case channels dat of (bs, gs, rs) \<Rightarrow> (b # bs, g # gs, r # rs))"
| "channels _ = ([], [], [])"

lemma hist_loop_channels:
  "hist_loop dat B G R = (case channels dat of (bs, gs, rs) \<Rightarrow> (fold bump bs B, fold bump gs G, fold bump rs R))"
  by (induction dat B G R rule: hist_loop.induct) (auto split: prod.splits)

lemma channels_append: "length x mod 3 = 0 \<Longrightarrow> channels (x @ y) =
    (case channels x of (bs, gs, rs) \<Rightarrow> case channels y of (bs', gs', rs') \<Rightarrow> (bs @ bs', gs @ gs', rs @ rs'))"
  by (induction x rule: channels.induct) (auto split: prod.splits)

lemma channels_length: "channels dat = (bs, gs, rs) \<Longrightarrow> length bs \<le> length dat \<and> length gs \<le> length dat \<and> length rs \<le> length dat"
  by (induction dat arbitrary: bs gs rs rule: channels.induct) (auto split: prod.splits)

text \<open>The keys of a list of pixels.\<close>

definition pixel_keys :: "8 word list \<Rightarrow> 16 word list" where
  "pixel_keys dat = (case channels dat of (bs, gs, rs) \<Rightarrow>
     map (\<lambda>x. 1000 + ucast x) bs @ map (\<lambda>x. 2000 + ucast x) gs @ map (\<lambda>x. 3000 + ucast x) rs)"

lemma pixel_keys_append:
  assumes "length x mod 3 = 0"
  shows "count_list (pixel_keys (x @ y)) k = count_list (pixel_keys x) k + count_list (pixel_keys y) k"
    "set (pixel_keys (x @ y)) = set (pixel_keys x) \<union> set (pixel_keys y)"
  by (auto simp: pixel_keys_def channels_append [OF assms] split: prod.splits)

section \<open>The pairs of a split\<close>

lemma key_sum_emit: "key_sum (hist_emit ks cs i) k = (if ks ! i = k then cs ! i else 0)"
  by (simp add: key_sum_def hist_emit_def word_gt_0)

abbreviation chan_keys :: "16 word \<Rightarrow> 16 word list" where
  "chan_keys base \<equiv> map (\<lambda>i. base + of_nat i) [0..<256]"

abbreviation chan_counts :: "8 word list \<Rightarrow> 64 word list" where
  "chan_counts bs \<equiv> fold bump bs (replicate 256 0)"

lemma chan_counts_nth: "i < 256 \<Longrightarrow> chan_counts bs ! i = of_nat (count_list bs (of_nat i))"
  by (simp add: fold_bump_nth)

lemma unat8_less: "unat (x :: 8 word) < 256"
  using unsigned_less [where 'a = nat, of x] by simp

lemma of_nat_unat8: "of_nat (unat (x :: 8 word)) = (ucast x :: 16 word)"
  by simp

lemma chan_sum_one:
  "sum_list (map (\<lambda>i. if base + of_nat i = (k :: 16 word) then of_nat (if x = of_nat i then 1 else 0) else 0) [0..<256]) =
    (if base + ucast (x :: 8 word) = k then 1 else 0 :: 64 word)"
proof -
  have eq: "x = of_nat i \<longleftrightarrow> i = unat x" if "i < 256" for i
    using that by (auto simp: unat_of_nat)
  have "sum_list (map (\<lambda>i. if base + of_nat i = k then of_nat (if x = of_nat i then 1 else 0) else 0) [0..<256]) =
      (\<Sum>i \<in> {0..<256}. if i = unat x then (if base + of_nat i = k then 1 else 0) else (0 :: 64 word))"
    unfolding interv_sum_list_conv_sum_set_nat using eq by (intro sum.cong) auto
  also have "\<dots> = (if base + of_nat (unat x) = k then 1 else 0)"
    using unat8_less [of x] by (simp add: sum.delta)
  finally show ?thesis
    by (simp only: of_nat_unat8)
qed

lemma chan_sum:
  "sum_list (map (\<lambda>i. key_sum (hist_emit (chan_keys base) (chan_counts bs) i) k) [0..<256]) =
    of_nat (count_list (map (\<lambda>x. base + ucast x) bs) k)"
proof -
  have "map (\<lambda>i. key_sum (hist_emit (chan_keys base) (chan_counts bs) i) k) [0..<256] =
      map (\<lambda>i. if base + of_nat i = k then of_nat (count_list bs (of_nat i)) else 0) [0..<256]"
    by (rule map_cong) (simp_all add: key_sum_emit chan_counts_nth)
  moreover have "sum_list (map (\<lambda>i. if base + of_nat i = k then of_nat (count_list bs (of_nat i)) else 0) [0..<256]) =
      (of_nat (count_list (map (\<lambda>x. base + ucast x) bs) k) :: 64 word)"
  proof (induction bs)
    case (Cons x bs)
    have "sum_list (map (\<lambda>i. if base + of_nat i = k then of_nat (count_list (x # bs) (of_nat i)) else 0) [0..<256]) =
        sum_list (map (\<lambda>i. (if base + of_nat i = k then of_nat (count_list bs (of_nat i)) else 0) +
          (if base + of_nat i = k then of_nat (if x = of_nat i then 1 else 0) else (0 :: 64 word))) [0..<256])"
      by (intro arg_cong [of _ _ sum_list] map_cong) auto
    also have "\<dots> = of_nat (count_list (map (\<lambda>x. base + ucast x) bs) k) + (if base + ucast x = k then 1 else 0)"
      unfolding sum_list_addf Cons.IH chan_sum_one by (rule refl)
    finally show ?case
      by simp
  qed (simp cong: if_cong)
  ultimately show ?thesis
    by (simp only:)
qed

lemma chan_present:
  assumes "length bs < 2 ^ 64"
  shows "(\<exists>i < 256. \<exists>q \<in> set (hist_emit (chan_keys base) (chan_counts bs) i). fst q = k) \<longleftrightarrow>
    k \<in> set (map (\<lambda>x. base + ucast x) bs)"
proof -
  have pos: "0 < chan_counts bs ! i \<longleftrightarrow> of_nat i \<in> set bs" if "i < 256" for i
  proof -
    have "count_list bs (of_nat i) < 2 ^ 64"
      using assms count_le_length [of bs "of_nat i"] by simp
    then have "(of_nat (count_list bs (of_nat i)) :: 64 word) \<noteq> 0 \<longleftrightarrow> count_list bs (of_nat i) \<noteq> 0"
      by (cases "count_list bs (of_nat i) = 0") (auto simp: word_of_nat_eq_0_iff dest: dvd_imp_le)
    then show ?thesis
      using that by (simp add: chan_counts_nth word_gt_0 count_list_0_iff)
  qed
  have "(\<exists>i < 256. \<exists>q \<in> set (hist_emit (chan_keys base) (chan_counts bs) i). fst q = k) \<longleftrightarrow>
      (\<exists>i < 256. of_nat i \<in> set bs \<and> base + of_nat i = k)"
    using pos by (auto simp: hist_emit_def)
  also have "\<dots> \<longleftrightarrow> k \<in> (\<lambda>x. base + ucast x) ` set bs"
  proof
    assume "\<exists>i < 256. of_nat i \<in> set bs \<and> base + of_nat i = k"
    then obtain i where "i < 256" "of_nat i \<in> set bs" "base + of_nat i = k"
      by blast
    then show "k \<in> (\<lambda>x. base + ucast x) ` set bs"
      by (auto simp: unsigned_of_nat take_bit_eq_mod intro!: image_eqI [of _ _ "of_nat i"])
  next
    assume "k \<in> (\<lambda>x. base + ucast x) ` set bs"
    then obtain x where "x \<in> set bs" "base + ucast x = k"
      by blast
    then show "\<exists>i < 256. of_nat i \<in> set bs \<and> base + of_nat i = k"
      using unat8_less [of x] by (intro exI [of _ "unat x"]) (simp add: of_nat_unat8)
  qed
  finally show ?thesis
    by simp
qed

lemma key_tables: "blue_keys = chan_keys 1000" "green_keys = chan_keys 2000" "red_keys = chan_keys 3000"
  by (simp_all add: blue_keys_def green_keys_def red_keys_def)

lemma hist_map_ok:
  assumes "l mod 3 = 0" "a + l \<le> length dat" "l < 2 ^ 64"
  obtains es where "hist_map dat (a, l) = Inr es" "\<And>k. key_sum es k = of_nat (count_list (pixel_keys (take l (drop a dat))) k)"
    "fst ` set es = set (pixel_keys (take l (drop a dat)))" "\<forall>q \<in> set es. snd (snd q) = 2" "length es \<le> 768"
proof -
  let ?d = "take l (drop a dat)"
  obtain bs gs rs where ch: "channels ?d = (bs, gs, rs)"
    by (cases "channels ?d")
  have short: "length bs < 2 ^ 64" "length gs < 2 ^ 64" "length rs < 2 ^ 64"
    using channels_length [OF ch] assms(2,3) by auto
  define em where "em base cs i = hist_emit (chan_keys base) (chan_counts cs) i" for base cs i
  define es where "es = concat (map (\<lambda>i. em 1000 bs i @ em 2000 gs i @ em 3000 rs i) [0..<256])"
  have "hist_map dat (a, l) = Inr es"
    using assms(1,2) unfolding es_def em_def by (simp add: hist_map_def hist_loop_channels ch key_tables)
  moreover have "key_sum es k = of_nat (count_list (pixel_keys ?d) k)" for k
    unfolding es_def key_sum_concat map_map comp_def key_sum_append sum_list_addf em_def chan_sum
    by (simp add: pixel_keys_def ch)
  moreover have "fst ` set es = set (pixel_keys ?d)"
  proof (rule set_eqI)
    fix k
    have "k \<in> fst ` set es \<longleftrightarrow> (\<exists>i < 256. \<exists>q \<in> set (em 1000 bs i). fst q = k) \<or>
        (\<exists>i < 256. \<exists>q \<in> set (em 2000 gs i). fst q = k) \<or> (\<exists>i < 256. \<exists>q \<in> set (em 3000 rs i). fst q = k)"
      by (auto simp: es_def image_iff Bex_def)
    also have "\<dots> \<longleftrightarrow> k \<in> set (pixel_keys ?d)"
      unfolding em_def chan_present [OF short(1)] chan_present [OF short(2)] chan_present [OF short(3)]
      by (simp add: pixel_keys_def ch)
    finally show "k \<in> fst ` set es \<longleftrightarrow> k \<in> set (pixel_keys ?d)" .
  qed
  moreover have "\<forall>q \<in> set es. snd (snd q) = 2"
    by (auto simp: es_def em_def hist_emit_def split: if_splits)
  moreover have "length es \<le> 768"
  proof -
    have "length (em 1000 bs i @ em 2000 gs i @ em 3000 rs i) \<le> 3" for i
      by (simp add: em_def hist_emit_def)
    then have "sum_list (map (\<lambda>i. length (em 1000 bs i @ em 2000 gs i @ em 3000 rs i)) [0..<256]) \<le> sum_list (map (\<lambda>_. 3) [0..<256])"
      by (intro sum_list_mono)
    then show ?thesis
      by (simp add: es_def length_concat comp_def sum_list_triv)
  qed
  ultimately show thesis
    by (rule that)
qed

section \<open>The pairs of an image\<close>

lemma hist_part: "part_func (hist_param b n ds r dat) k 2 = Inr (hist_hash b k)"
  by (simp add: part_func_def hist_param_def default_hasher_def hist_hash_def short_bytes_def Let_def)

lemma hist_split:
  assumes "l mod 3 = 0" "a + l \<le> length dat" "l < 2 ^ 64"
  shows "split_ok (hist_param b n ds r dat) (hist_hash b) (a, l)"
    "sum_mset (key_values hist_env k (mset (split_puts (hist_param b n ds r dat) (hist_hash b) (a, l)))) =
      of_nat (count_list (pixel_keys (take l (drop a dat))) k)"
    "fst ` set (split_puts (hist_param b n ds r dat) (hist_hash b) (a, l)) = set (pixel_keys (take l (drop a dat)))"
    "length (split_puts (hist_param b n ds r dat) (hist_hash b) (a, l)) \<le> 768"
proof -
  obtain es where es: "hist_map dat (a, l) = Inr es" "\<And>k. key_sum es k = of_nat (count_list (pixel_keys (take l (drop a dat))) k)"
      "fst ` set es = set (pixel_keys (take l (drop a dat)))" "\<forall>q \<in> set es. snd (snd q) = 2" "length es \<le> 768"
    using hist_map_ok [OF assms] by blast
  have map: "mp_map_func (hist_param b n ds r dat) (a, l) = Inr es"
    using es(1) by (simp add: hist_param_def)
  have puts: "split_puts (hist_param b n ds r dat) (hist_hash b) (a, l) = map (put_of (hist_hash b)) es"
    by (simp add: split_puts_def map)
  have "part_func (hist_param b n ds r dat) k' l' = Inr (hist_hash b k')" if "(k', v, l') \<in> set es" for k' v l'
    using es(4) that hist_part by fastforce
  moreover have "keycopy_ok (mp_env (hist_param b n ds r dat)) k' l'" for k' l'
    using mr_env.keycopy_ok_none [OF hist_mr_env] by (simp add: hist_param_def)
  ultimately show "split_ok (hist_param b n ds r dat) (hist_hash b) (a, l)"
    by (auto simp: split_ok_def map)
  show "sum_mset (key_values hist_env k (mset (split_puts (hist_param b n ds r dat) (hist_hash b) (a, l)))) =
      of_nat (count_list (pixel_keys (take l (drop a dat))) k)"
    unfolding puts by (subst key_values_puts) (simp_all add: myshortcmp_eq es(2))
  show "fst ` set (split_puts (hist_param b n ds r dat) (hist_hash b) (a, l)) = set (pixel_keys (take l (drop a dat)))"
    unfolding puts set_map image_comp fst_put_of es(3) ..
  show "length (split_puts (hist_param b n ds r dat) (hist_hash b) (a, l)) \<le> 768"
    unfolding puts using es(5) by simp
qed

definition image_puts :: "8 word list \<Rightarrow> (16 word, 64 word) put list \<Rightarrow> bool" where
  "image_puts img P \<longleftrightarrow> (\<forall>k. sum_mset (key_values hist_env k (mset P)) = of_nat (count_list (pixel_keys img) k)) \<and>
     fst ` set P = set (pixel_keys img)"

lemma hist_chain:
  assumes "chain ends p q sps" "\<And>x. ends x \<Longrightarrow> x mod 3 = 0" "p mod 3 = 0" "q \<le> length dat" "q < 2 ^ 64"
  shows "image_puts (take (q - p) (drop p dat)) (job_puts (hist_param b n ds r dat) (hist_hash b) sps) \<and>
    (\<forall>sp \<in> set sps. split_ok (hist_param b n ds r dat) (hist_hash b) sp) \<and>
    length (job_puts (hist_param b n ds r dat) (hist_hash b) sps) \<le> 768 * length sps"
  using assms
proof (induction ends p q sps rule: chain.induct)
  case (1 ends p q)
  then show ?case
    by (simp add: image_puts_def job_puts_def key_values_def pixel_keys_def)
next
  case (2 ends p q a l xs)
  let ?x = "take l (drop p dat)" and ?y = "take (q - (p + l)) (drop (p + l) dat)"
  have c: "a = p" "(p + l) mod 3 = 0" "chain ends (p + l) q xs"
    using 2(2,3) by auto
  have l: "l mod 3 = 0" "p + l \<le> q"
    using c(2) 2(4) chain_length [OF c(3)] by (auto simp: mod_add_eq [symmetric] mod_eq_0_iff_dvd dvd_add_right_iff)
  have len: "p + l \<le> length dat" "l < 2 ^ 64" "length ?x mod 3 = 0"
    using l 2(5,6) by auto
  note one = hist_split [OF l(1) len(1,2), where b = b and n = n and ds = ds and r = r]
  have img: "take (q - p) (drop p dat) = ?x @ ?y"
  proof -
    have "q - p = l + (q - (p + l))"
      using l(2) by simp
    then show ?thesis
      by (simp only: take_add drop_drop add.commute [of l p])
  qed
  have IH: "image_puts ?y (job_puts (hist_param b n ds r dat) (hist_hash b) xs)"
      "\<forall>sp \<in> set xs. split_ok (hist_param b n ds r dat) (hist_hash b) sp"
      "length (job_puts (hist_param b n ds r dat) (hist_hash b) xs) \<le> 768 * length xs"
    using 2(1) [OF c(3) 2(3) c(2) 2(5,6)] by auto
  show ?case
    using one IH unfolding c(1) img image_puts_def pixel_keys_append [OF len(3)]
    by (auto simp: job_puts_def key_values_plus image_Un)
qed

section \<open>A ready run\<close>

lemma hist_merge_env:
  "qsort_impl (sort_kv qs) \<Longrightarrow> qsort_impl (sort_kvl qs) \<Longrightarrow> merge_env_ok hist_env \<lparr>out_kv_cmp = None, out_kvl_cmp = None\<rparr> qs"
  by (rule merge_env_default) (simp_all add: myshortcmp_comparator)

text \<open>The counts of the channels of an image: every key that occurs, once, with its frequency.\<close>

definition histogram :: "8 word list \<Rightarrow> (16 word, 64 word) keyval list \<Rightarrow> bool" where
  "histogram img kvs \<longleftrightarrow> distinct (map kv_key kvs) \<and> set (map kv_key kvs) = set (pixel_keys img) \<and>
     (\<forall>kv \<in> set kvs. kv_val kv = of_nat (count_list (pixel_keys img) (kv_key kv)))"

lemma histogram_result:
  assumes puts: "image_puts img P" and job: "job_result hist_env sum_list (mset P) (mset (map kv_emit kvs))"
  shows "histogram img kvs"
proof -
  have "\<And>k vs out. red_out hist_env sum_list k vs out \<Longrightarrow> out = [Emit_kv k (sum_list vs)]"
    by (auto simp: red_out_def hist_reduce_def foldl_add)
  from sums_returned [OF job _ this] puts show ?thesis
    by (simp add: histogram_def image_puts_def myshortcmp_eq)
qed

definition hist_image :: "8 word list \<Rightarrow> nat \<Rightarrow> 8 word list" where
  "hist_image file data_pos = take (rounddown (length file - data_pos) 3) (drop data_pos file)"

lemma image_keys: "set (pixel_keys img) \<subseteq> set (blue_keys @ green_keys @ red_keys)"
proof -
  have one: "base + ucast x \<in> set (chan_keys base)" for x :: "8 word" and base :: "16 word"
    using unat8_less [of x] by (auto simp: of_nat_unat8 [symmetric] simp del: of_nat_unat intro!: image_eqI [of _ _ "unat x"])
  have chan: "set (map (\<lambda>x. base + ucast x) bs) \<subseteq> set (chan_keys base)" for bs :: "8 word list" and base :: "16 word"
    using one by (simp only: set_map) blast
  obtain bs gs rs where ch: "channels img = (bs, gs, rs)"
    by (cases "channels img")
  show ?thesis
    unfolding pixel_keys_def ch key_tables set_append prod.case using chan by blast
qed

lemma hist_fits:
  assumes "image_puts img P" "n = 1 \<or> 10 \<le> n"
  shows "results_fit hist_env sum_list (mset P) n"
  unfolding results_fit_def
proof (intro allI impI)
  fix out
  assume "job_result hist_env sum_list (mset P) out"
  then have "size out \<le> card (set (blue_keys @ green_keys @ red_keys))"
    by (rule job_result_card)
      (use assms(1) image_keys [of img] in \<open>auto simp: myshortcmp_eq red_out_def hist_reduce_def image_puts_def\<close>)
  also have "\<dots> \<le> 768"
    using card_length [of "blue_keys @ green_keys @ red_keys"] by (simp add: key_tables)
  finally have "size out \<le> 768" .
  moreover have "1000 \<le> n * n * n" if "10 \<le> n"
    using mult_le_mono [OF mult_le_mono [OF that that] that] by simp
  ultimately show "psrs_single (size out) n"
    using assms(2) by (auto simp: psrs_single_def)
qed

section \<open>Main results\<close>

lemma rounddown_le: "rounddown a n \<le> a"
  by (simp add: rounddown_def)

text \<open>The state of the default splitter for an image of \<open>sz\<close> bytes.\<close>

lemma hist_ready:
  assumes n: "n = (if nprocs = 0 then core_count pf else nprocs)" "0 < n" "nprocs \<le> core_count pf"
    and m: "m = (if map_tasks = 0 then n * def_nsplits_per_core else map_tasks)" "0 < m" "3 \<le> sz div m"
    and size: "sz mod 3 = 0" "sz \<le> length dat" "768 * sz + n < 2 ^ 31"
    and sorts: "qsort_impl (sort_kv (qsorts pf))" "qsort_impl (sort_kvl (qsorts pf))"
  defines "ds \<equiv> \<lparr>ds_split_pos = 0, ds_data_size = sz, ds_nsplits = map_tasks, ds_align = 3\<rparr>"
  obtains ps where "run_ready (hist_param b nprocs ds r dat) (hist_hash b) pf ps"
    "run_cpus (hist_param b nprocs ds r dat) pf = n" "length (ps_ma ps) \<le> sz"
    "image_puts (take sz dat) (job_puts (hist_param b nprocs ds r dat) (hist_hash b) (ps_ma ps))"
    "length (job_puts (hist_param b nprocs ds r dat) (hist_hash b) (ps_ma ps)) \<le> 768 * sz"
proof -
  let ?p = "hist_param b nprocs ds r dat"
  have cpus: "run_cpus ?p pf = n" and env: "mp_env ?p = hist_env" and split: "mp_split_func ?p = defsplitter" "mp_split_arg ?p = ds"
    by (simp_all add: run_cpus_def hist_param_def n(1))
  have sz: "0 < sz"
    using m by (cases sz) auto
  have good: "def_good n ds" "def_pos ds < ds_data_size ds"
    using m size(1) sz by (auto simp: ds_def def_good_def def_nsplits_def def_pos_def)
  obtain ps where ps: "presplitter_init defsplitter ds n = Some (Inr ps)" "chain (def_ends ds) 0 sz (ps_ma ps)"
    using defsp.presplitter_init_covers [OF good] by (auto simp: ds_def def_pos_def)
  have ends: "x mod 3 = 0" if "def_ends ds x" for x
    using that by (simp add: def_ends_def ds_def)
  have img: "image_puts (take sz dat) (job_puts ?p (hist_hash b) (ps_ma ps))"
      "\<forall>sp \<in> set (ps_ma ps). split_ok ?p (hist_hash b) sp"
      "length (job_puts ?p (hist_hash b) (ps_ma ps)) \<le> 768 * length (ps_ma ps)"
    using hist_chain [OF ps(2) ends, of dat b nprocs ds r] size by auto
  have len: "length (ps_ma ps) \<le> sz"
    using chain_length [OF ps(2)] by simp
  then have puts: "length (job_puts ?p (hist_hash b) (ps_ma ps)) \<le> 768 * sz"
    using img(3) by linarith
  have arg: "app_set_arg (mp_env ?p) (mp_results ?p) = Inr (out_kind (mp_env ?p))"
    by (simp add: app_set_arg_def hist_param_def uses_vm_def out_kind_def)
  have "run_ready ?p (hist_hash b) pf ps"
    using n size(3) len puts img(2) ps(1) hist_merge_env [OF sorts] arg unfolding run_ready_def cpus env split
    by (simp add: hist_param_def)
  then show thesis
    using that cpus len img(1) puts by blast
qed

text \<open>Reading the header gives the fields in the byte order of the file and leaves the image alone.\<close>

lemma hist_header:
  assumes "30 \<le> length file" "test_endianess little = Some swap"
  obtains mem1 mem2 where
    "header16 little swap (map_file file) bits_per_pixel_pos = Inr (unat (file ! 28) + 256 * unat (file ! 29), mem1)"
    "header16 little swap mem1 img_data_offset_pos = Inr (unat (file ! 10) + 256 * unat (file ! 11), mem2)"
    "length file \<le> length mem2" "\<And>pos sz. 30 \<le> pos \<Longrightarrow> pos + sz \<le> length file \<Longrightarrow> take sz (drop pos mem2) = take sz (drop pos file)"
proof -
  let ?m = "map_file file"
  have nth: "?m ! i = file ! i" if "i < length file" for i
    using that by (simp add: map_file_def nth_append)
  have len: "length file \<le> length ?m"
    by (simp add: map_file_def)
  obtain mem1 where mem1: "header16 little swap ?m 28 = Inr (unat (?m ! 28) + 256 * unat (?m ! (28 + 1)), mem1)"
      "length mem1 = length ?m" "\<forall>i. i \<noteq> 28 \<longrightarrow> i \<noteq> 28 + 1 \<longrightarrow> mem1 ! i = ?m ! i"
    using header16_ok [of 28 ?m little swap] assms len by auto
  obtain mem2 where mem2: "header16 little swap mem1 10 = Inr (unat (mem1 ! 10) + 256 * unat (mem1 ! (10 + 1)), mem2)"
      "length mem2 = length mem1" "\<forall>i. i \<noteq> 10 \<longrightarrow> i \<noteq> 10 + 1 \<longrightarrow> mem2 ! i = mem1 ! i"
    using header16_ok [of 10 mem1 little swap] assms len mem1(2) by auto
  have "take sz (drop pos mem2) = take sz (drop pos file)" if "30 \<le> pos" "pos + sz \<le> length file" for pos sz
    using that mem1(2,3) mem2(2,3) nth len by (intro nth_equalityI) auto
  then show thesis
    using that mem1 mem2 nth len assms(1) by (simp add: bits_per_pixel_pos_def img_data_offset_pos_def)
qed

lemma test_endianess_some: "\<exists>swap. test_endianess little = Some swap"
  by (cases little) (auto simp: test_endianess_def host_word32_def)

lemma unat_numeral_24: "unat (24 :: 8 word) = 24"
  by simp


definition sample_bmp :: "8 word list" where
  "sample_bmp = [0x42, 0x4D] @ replicate 8 0 @ [30, 0] @ replicate 16 0 @ [24, 0] @ [5, 6, 7, 5, 9, 7]"


text \<open>The report labels the channels wrongly: the rows of the blue channel, whose keys start at 1000, come
  under the heading Green, because the first key is already more than 700 above the initial value
  of the previous key, and the rows of the green channel come under the heading Red.\<close>

theorem hist_report_labels:
  assumes "1000 \<le> sint (kv_key kv)" "sint (kv_key kv) < 1256" "2000 \<le> sint (kv_key kv')" "sint (kv_key kv') < 2256"
  shows "hist_print (kv # kv' # kvs) = Label ''Blue'' # Label ''Green'' # Row (kv_key kv) (kv_val kv) #
    Label ''Red'' # Row (kv_key kv') (kv_val kv') # hist_rows (kv_key kv') kvs"
  using assms by (simp add: hist_print_def Let_def)

theorem hist_report_labels_witness:
  "hist_print [\<lparr>kv_key = 1005, kv_val = 2, kv_hash = 0\<rparr>, \<lparr>kv_key = 2006, kv_val = 2, kv_hash = 0\<rparr>] =
    [Label ''Blue'', Label ''Green'', Row 1005 2, Label ''Red'', Row 2006 2]"
  using hist_report_labels [of "\<lparr>kv_key = 1005, kv_val = 2, kv_hash = 0\<rparr>" "\<lparr>kv_key = 2006, kv_val = 2, kv_hash = 0\<rparr>" "[]"]
  by simp

end
