(* ===== verification/Sched_Sample.thy ===== *)
theory Sched_Sample
  imports Sched_Run
begin

text \<open>
  Runs that sample first (\<^verbatim>\<open>mr_run_sample\<close> and the sampling part of \<^verbatim>\<open>mr_setup\<close> in
  \<^verbatim>\<open>metis/lib/mr-sched.c\<close>): a part of the splits is mapped with many columns, the estimates of
  the workers give the number of reduce tasks, and the pairs of the sample move from the backup
  into the new matrix when the workers start. The result is the same as that of a run whose number
  of reduce tasks is given.
\<close>

section \<open>The tasks counted by a sampling run\<close>

fun emitting :: "('k, 'v) mpc \<Rightarrow> nat" where
  "emitting (M_emit _) = 1"
| "emitting _ = 0"

definition tasks_seen :: "nat \<Rightarrow> ('k, 'v) map_run \<Rightarrow> nat" where
  "tasks_seen n r = sum_list (map (\<lambda>w. unat (nsampled (kv_est (mw_store r) ! w)) + emitting (mw_pcs r ! w)) [0..<n])"

text \<open>Every split handed out is being mapped or counted by the worker that mapped it.\<close>

definition count_inv :: "nat \<Rightarrow> ('k, 'v) map_run \<Rightarrow> bool" where
  "count_inv n r \<longleftrightarrow> kv_bsampling (mw_store r) \<and> kv_imgr (mw_store r) = Index_btree \<and> \<not> kv_has_backup (mw_store r) \<and>
     kv_nrows (mw_store r) = n \<and> n \<le> length (kv_est (mw_store r)) \<and> length (mw_pcs r) = n \<and>
     tasks_seen n r = min (nat (ps_idx (mw_ps r))) (ps_nsplits (mw_ps r))"

lemma sum_upt_update:
  fixes f g :: "nat \<Rightarrow> nat"
  assumes "w < n" "\<And>v. v < n \<Longrightarrow> v \<noteq> w \<Longrightarrow> f v = g v"
  shows "sum_list (map f [0..<n]) + g w = sum_list (map g [0..<n]) + f w"
proof -
  have "sum f ({0..<n} - {w}) = sum g ({0..<n} - {w})"
    using assms(2) by (intro sum.cong) auto
  then show ?thesis
    using sum.remove [of "{0..<n}" w f] sum.remove [of "{0..<n}" w g] assms(1)
    by (simp add: interv_sum_list_conv_sum_set_nat)
qed

lemma nsampled_newpair [simp]: "nsampled (est_newpair st b) = nsampled st"
  by (simp add: est_newpair_def est_interval_passed_def Let_def)

lemma nsampled_finished [simp]: "nsampled (est_task_finished st) = nsampled st + 1"
  by (simp add: est_task_finished_def)

lemma map_emit_est:
  assumes "mr_map_emit p w k v l s = Inr s'" "kv_imgr s = Index_btree" "w < length (kv_est s)"
  shows "\<exists>b m. s' = s\<lparr>kv_btree := m, kv_est := (kv_est s)[w := est_newpair (kv_est s ! w) b]\<rparr>"
  using assms
  by (auto simp: mr_map_emit_def kvst_map_put_def mbm_map_put_def est_row_def c_assert_def Let_def res_bind_def
      split: sum.splits if_splits prod.splits)

lemma tasks_seen_step:
  assumes "w < n" "\<And>v. v < n \<Longrightarrow> v \<noteq> w \<Longrightarrow> mw_pcs r' ! v = mw_pcs r ! v \<and> kv_est (mw_store r') ! v = kv_est (mw_store r) ! v"
  shows "tasks_seen n r' + (unat (nsampled (kv_est (mw_store r) ! w)) + emitting (mw_pcs r ! w)) =
    tasks_seen n r + (unat (nsampled (kv_est (mw_store r') ! w)) + emitting (mw_pcs r' ! w))"
  unfolding tasks_seen_def using assms by (intro sum_upt_update) auto

lemma tasks_seen_le: "w < n \<Longrightarrow> unat (nsampled (kv_est (mw_store r) ! w)) + emitting (mw_pcs r ! w) \<le> tasks_seen n r"
  unfolding tasks_seen_def by (rule member_le_sum_list) simp_all

lemma count_inv_step:
  assumes inv: "count_inv n r" and step: "mr_map_worker p qs False w r = Inr r'" and w: "w < n"
    and idx: "0 \<le> ps_idx (mw_ps r)" "mw_pcs r ! w = M_fetch \<Longrightarrow> ps_idx (mw_ps r) < 2 ^ 31 - 1"
    and nsp: "ps_nsplits (mw_ps r) \<le> length (ps_ma (mw_ps r))" "ps_nsplits (mw_ps r) < 2 ^ 31"
  shows "count_inv n r'"
proof -
  have len: "w < length (mw_pcs r)" "w < length (kv_est (mw_store r))"
    using inv w by (auto simp: count_inv_def)
  show ?thesis
  proof (cases "mw_pcs r ! w")
    case M_start
    then have "r' = r\<lparr>mw_pcs := (mw_pcs r)[w := M_fetch]\<rparr>"
      using step len inv by (auto simp: mr_map_worker_def kvst_map_worker_init_def count_inv_def)
    then show ?thesis
      using tasks_seen_step [OF w, of r' r] inv len M_start by (auto simp: count_inv_def)
  next
    case M_fetch
    define i where "i = nat (ps_idx (mw_ps r))"
    let ?ps = "mw_ps r"
    have i: "?ps = ?ps\<lparr>ps_idx := int i\<rparr>" "i < 2 ^ 31 - 1"
      using idx(1) idx(2) [OF M_fetch] by (auto simp: i_def)
    have get: "presplitter ?ps =
        Inr (if i < ps_nsplits ?ps then Some (ps_ma ?ps ! i) else None, ?ps\<lparr>ps_idx := int (i + 1)\<rparr>)"
      using presplitter_idx [OF nsp(1) i(2)] i(1) by simp
    show ?thesis
    proof (cases "i < ps_nsplits ?ps")
      case True
      then obtain es where "r' = r\<lparr>mw_ps := ?ps\<lparr>ps_idx := int (i + 1)\<rparr>, mw_pcs := (mw_pcs r)[w := M_emit es]\<rparr>"
        using step len by (cases "mp_map_func p (ps_ma ?ps ! i)") (auto simp: mr_map_worker_def M_fetch get)
      then show ?thesis
        using tasks_seen_step [OF w, of r' r] inv len M_fetch True by (auto simp: count_inv_def i_def)
    next
      case False
      then have "r' = r\<lparr>mw_ps := ?ps\<lparr>ps_idx := int (i + 1)\<rparr>, mw_pcs := (mw_pcs r)[w := M_done]\<rparr>"
        using step len by (auto simp: mr_map_worker_def kvst_map_worker_finished_def M_fetch get)
      then show ?thesis
        using tasks_seen_step [OF w, of r' r] inv len M_fetch False by (auto simp: count_inv_def i_def)
    qed
  next
    case (M_emit es)
    show ?thesis
    proof (cases es)
      case Nil
      let ?st = "kv_est (mw_store r) ! w"
      have r': "r' = r\<lparr>mw_store := (mw_store r)\<lparr>kv_est := (kv_est (mw_store r))[w := est_task_finished ?st]\<rparr>,
          mw_pcs := (mw_pcs r)[w := M_fetch]\<rparr>"
        using step len inv M_emit Nil by (auto simp: mr_map_worker_def kvst_map_task_finished_def est_row_def count_inv_def)
      have "unat (nsampled ?st) < 2 ^ 31"
        using tasks_seen_le [OF w, of r] inv nsp(2) by (simp add: count_inv_def)
      then have "unat (nsampled ?st + 1) = unat (nsampled ?st) + 1"
        by (simp add: unat_plus_if')
      then show ?thesis
        using tasks_seen_step [OF w, of r' r] inv len M_emit by (auto simp: count_inv_def r')
    next
      case (Cons q es')
      obtain k v l where q: "q = (k, v, l)"
        by (cases q)
      obtain s' where s': "mr_map_emit p w k v l (mw_store r) = Inr s'"
          "r' = r\<lparr>mw_store := s', mw_pcs := (mw_pcs r)[w := M_emit es']\<rparr>"
        using step len M_emit Cons q by (cases "mr_map_emit p w k v l (mw_store r)") (auto simp: mr_map_worker_def)
      obtain b m where "s' = (mw_store r)\<lparr>kv_btree := m, kv_est := (kv_est (mw_store r))[w := est_newpair (kv_est (mw_store r) ! w) b]\<rparr>"
        using map_emit_est [OF s'(1)] inv len by (auto simp: count_inv_def)
      then show ?thesis
        using tasks_seen_step [OF w, of r' r] inv len M_emit by (auto simp: count_inv_def s'(2))
    qed
  next
    case M_done
    with step len inv show ?thesis
      by (simp add: mr_map_worker_def)
  qed
qed

lemma run_workers_keeps:
  assumes "\<And>w r r'. w < n \<Longrightarrow> I r \<Longrightarrow> step w r = Inr (Some r') \<Longrightarrow> I r'"
  shows "run_workers step sched r = Inr (Some r') \<Longrightarrow> \<forall>w \<in> set sched. w < n \<Longrightarrow> I r \<Longrightarrow> I r'"
proof (induction sched arbitrary: r)
  case (Cons w ws)
  obtain r1 where r1: "step w r = Inr (Some r1)" "run_workers step ws r1 = Inr (Some r')"
    using Cons.prems(1) by (auto simp: run_bind_def split: sum.splits option.splits)
  have "I r1"
    using assms [OF _ Cons.prems(3) r1(1)] Cons.prems(2) by simp
  with Cons.IH [OF r1(2)] Cons.prems(2) show ?case
    by simp
qed (simp add: ret_def)

section \<open>The estimates\<close>

lemma sum_estimates_valid:
  "snd (snd (sum_estimates ms t acc)) = snd (snd acc) + length (filter (\<lambda>st. est_get_finished st \<noteq> 0) ms)"
proof (induction ms arbitrary: acc)
  case (Cons st ms)
  show ?case
    using Cons [of "case acc of (nkeys, npairs, nvalid) \<Rightarrow>
        if est_get_finished st \<noteq> 0 then (case est_estimate st t of (k, p) \<Rightarrow> (nkeys + k, npairs + p, nvalid + 1))
        else (nkeys, npairs, nvalid)"]
    by (auto simp: sum_estimates_def split: prod.splits)
qed (simp add: sum_estimates_def)

lemma get_finished_small:
  assumes "0 < unat (nsampled st)" "unat (nsampled st) < 2 ^ 31"
  shows "est_get_finished st \<noteq> 0"
proof -
  have "unat (ucast (nsampled st) :: 32 word) = unat (nsampled st)"
    using assms(2) by (simp add: unsigned_ucast_eq take_bit_nat_eq_self)
  then have "(ucast (nsampled st) :: 32 word) \<noteq> 0"
    using assms(1) by force
  then show ?thesis
    unfolding est_get_finished_def by (metis signed_0 signed_word_eqI)
qed

text \<open>A sample of at least one split leaves a worker with a finished task, so the average is over at
  least one worker.\<close>

lemma sample_finished_ok:
  assumes inv: "count_inv n r" "\<forall>pc \<in> set (mw_pcs r). pc = M_done"
    and idx: "int (ps_nsplits (mw_ps r)) \<le> ps_idx (mw_ps r)" "0 < ps_nsplits (mw_ps r)" "ps_nsplits (mw_ps r) < 2 ^ 31"
  obtains ntasks nk np where "kvst_sample_finished t (mw_store r) = Inr (Some (ntasks,
      (mw_store r)\<lparr>nkeys_per_mapper := nk, npairs_per_mapper := np, kv_btree := mbm_mbks_bak (kv_btree (mw_store r)),
        kv_has_backup := True, kv_bsampling := False\<rparr>))"
proof -
  let ?s = "mw_store r" and ?ms = "take n (kv_est (mw_store r))"
  have st: "kv_nrows ?s = n" "n \<le> length (kv_est ?s)" "kv_imgr ?s = Index_btree" "length (mw_pcs r) = n"
    using inv by (auto simp: count_inv_def)
  have pcs: "mw_pcs r = replicate n M_done"
    using inv(2) st(4) by (metis replicate_length_same)
  have total: "sum_list (map (\<lambda>w. unat (nsampled (kv_est ?s ! w))) [0..<n]) = ps_nsplits (mw_ps r)"
  proof -
    have "tasks_seen n r = sum_list (map (\<lambda>w. unat (nsampled (kv_est ?s ! w))) [0..<n])"
      unfolding tasks_seen_def pcs by (intro arg_cong [of _ _ sum_list] map_cong) auto
    then show ?thesis
      using inv(1) idx(1) by (simp add: count_inv_def)
  qed
  then obtain w where w: "w < n" "0 < unat (nsampled (kv_est ?s ! w))"
    using idx(2) by (metis (no_types, lifting) atLeastLessThan_iff gr0I in_set_conv_nth length_map nth_map set_upt sum_list_eq_0_iff less_numeral_extra(3))
  have "unat (nsampled (kv_est ?s ! w)) \<le> ps_nsplits (mw_ps r)"
    unfolding total [symmetric] using w(1) by (intro member_le_sum_list) auto
  then have "est_get_finished (kv_est ?s ! w) \<noteq> 0"
    using w(2) idx(3) by (intro get_finished_small) auto
  moreover have "kv_est ?s ! w \<in> set ?ms"
    using w(1) st(2) by (auto simp: in_set_conv_nth intro!: exI [of _ w])
  ultimately have valid: "filter (\<lambda>st. est_get_finished st \<noteq> 0) ?ms \<noteq> []"
    by (auto simp: filter_empty_conv)
  obtain nkeys npairs nvalid where sum: "sum_estimates ?ms t (nkeys_per_mapper ?s, npairs_per_mapper ?s, 0) = (nkeys, npairs, nvalid)"
    by (cases "sum_estimates ?ms t (nkeys_per_mapper ?s, npairs_per_mapper ?s, 0)")
  have "nvalid \<noteq> 0"
    using sum_estimates_valid [of ?ms t "(nkeys_per_mapper ?s, npairs_per_mapper ?s, 0)"] sum valid by simp
  moreover obtain ntasks where "next_tasks (unat (nkeys div of_nat nvalid div nkeys_per_bkt)) = Some ntasks"
    using prime_test_above next_tasks_least by (metis le_Suc_ex)
  ultimately show thesis
    using that [where nk = "nkeys div of_nat nvalid" and np = "npairs div of_nat nvalid"] sum st
    by (simp add: kvst_sample_finished_def mgr_mbks_bak_def Let_def ret_def)
qed

section \<open>The sampling run\<close>

lemma n_sampled_bounds:
  assumes "0 < ntotal" "0 < n"
  shows "0 < n_sampled ntotal n" "n_sampled ntotal n \<le> ntotal"
  using assms by (auto simp: n_sampled_def Let_def sample_percent_def)

context mr_job
begin

text \<open>The end of a map phase that samples: what \<open>map_phase_ok\<close> says, and the counts.\<close>

lemma sample_phase_ok:
  assumes ok: "phase_ok n Bs ps0 (mset (phase_puts p H ps0))" "ps_idx ps0 = 0" "0 < n" "0 < ps_nsplits ps0"
    and st: "store_inv False C Bs rb s (replicate n M_start) (replicate n [])"
    and est: "kv_bsampling s" "kv_nrows s = n" "\<forall>w < n. nsampled (kv_est s ! w) = 0"
    and fair: "fair n (phase_work p n ps0) sched"
  obtains i ntasks s1 nk np where "map_phase p qs False sched n ps0 s = Inr (Some (ps0\<lparr>ps_idx := i\<rparr>, s1))"
    "mapped False n C Bs rb (mset (phase_puts p H ps0)) s1"
    "kvst_sample_finished t s1 = Inr (Some (ntasks, s1\<lparr>nkeys_per_mapper := nk, npairs_per_mapper := np,
       kv_btree := mbm_mbks_bak (kv_btree s1), kv_has_backup := True, kv_bsampling := False\<rparr>))"
proof -
  let ?T = "mset (phase_puts p H ps0)" and ?r0 = "\<lparr>mw_ps = ps0, mw_store = s, mw_pcs = replicate n M_start\<rparr>"
  let ?I = "map_inv False n C Bs rb ps0 ?T" and ?step = "\<lambda>w r. lift_res (mr_map_worker p qs False w r)"
  obtain ps1 s1 where s1: "map_phase p qs False sched n ps0 s = Inr (Some (ps1, s1))" "mapped False n C Bs rb ?T s1"
    using map_phase_ok [OF ok(1) _ ok(3) _ st fair, of 0 qs] ok(2) by (auto elim!: completesE)
  obtain r where r: "run_workers ?step sched ?r0 = Inr (Some r)" "\<forall>pc \<in> set (mw_pcs r). pc = M_done" "ps1 = mw_ps r" "s1 = mw_store r"
    using s1(1) by (auto simp: map_phase_def run_bind_def ret_def split: sum.splits option.splits if_splits)
  have "ctl_inv p H n ps0 ?T 0 (replicate n M_start) (replicate n [])"
    using ok(2) by (auto simp: ctl_inv_def phase_puts_def)
  then have "?I ?r0"
    using ok(2) st by (intro map_invI [where i = 0]) auto
  moreover have "count_inv n ?r0"
    using st est ok(2) by (simp add: count_inv_def store_inv_def tasks_seen_def sum_list_0 cong: map_cong)
  moreover have "?I r' \<and> count_inv n r'" if w: "w < n" "?I r \<and> count_inv n r" "?step w r = Inr (Some r')" for w r r'
  proof -
    obtain i P where i: "mw_ps r = ps0\<lparr>ps_idx := int i\<rparr>" "ctl_inv p H n ps0 ?T i (mw_pcs r) P"
      using w(2) by (auto simp: map_inv_def)
    have step: "mr_map_worker p qs False w r = Inr r'"
      using w(3) by (cases "mr_map_worker p qs False w r") (auto simp: lift_res_def ret_def)
    have "?I r'"
      using map_step_ok [OF ok(1) _ w(1), of False C rb r qs] w(2) step by simp
    moreover have "count_inv n r'"
      using i ok(1) w(1,2) fetch_bound [OF ok(1) i(2) w(1)]
      by (intro count_inv_step [OF _ step w(1)]) (auto simp: phase_ok_def)
    ultimately show ?thesis ..
  qed
  ultimately have inv: "?I r \<and> count_inv n r"
    using run_workers_keeps [of n "\<lambda>r. ?I r \<and> count_inv n r" ?step, OF _ r(1)] fair unfolding fair_def by blast
  obtain i P where i: "mw_ps r = ps0\<lparr>ps_idx := int i\<rparr>" "ctl_inv p H n ps0 ?T i (mw_pcs r) P"
    using inv by (auto simp: map_inv_def)
  have "M_done \<in> set (mw_pcs r)"
    using i(2) ok(3) r(2) by (cases "mw_pcs r") (auto simp: ctl_inv_def)
  then have "ps_nsplits ps0 \<le> i"
    using i(2) by (simp add: ctl_inv_def)
  then have "int (ps_nsplits (mw_ps r)) \<le> ps_idx (mw_ps r)" "0 < ps_nsplits (mw_ps r)" "ps_nsplits (mw_ps r) < 2 ^ 31"
    using ok(1,4) i(1) by (auto simp: phase_ok_def)
  from sample_finished_ok [OF conjunct2 [OF inv] r(2) this, of t]
  obtain ntasks nk np where "kvst_sample_finished t (mw_store r) = Inr (Some (ntasks,
      (mw_store r)\<lparr>nkeys_per_mapper := nk, npairs_per_mapper := np, kv_btree := mbm_mbks_bak (kv_btree (mw_store r)),
        kv_has_backup := True, kv_bsampling := False\<rparr>))" .
  then show thesis
    using that [of "int i" s1 ntasks np nk] s1 unfolding r(3,4) i(1) by blast
qed

text \<open>The state in which the map phase proper starts.\<close>

lemma sampled_store:
  assumes m: "mapped False n C0 (replicate n []) rb T s1" and C: "0 < C"
    and s: "s = s1\<lparr>nkeys_per_mapper := nk, npairs_per_mapper := np, kv_btree := mbm_mbks_bak (kv_btree s1),
       kv_has_backup := True, kv_bsampling := False\<rparr>"
  obtains Q where "length Q = n" "mset (concat Q) = T" "\<forall>q \<in> set (concat Q). put_good (mp_env p) H q"
    "store_inv True C (map (groups (mp_env p)) Q) (Some (rbkts_init pch C)) (kvst_init (mp_env p) pch n C C s)
       (replicate n M_start) (replicate n [])"
proof -
  let ?s0 = "kvst_init (mp_env p) pch n C C s"
  obtain P where P: "length P = n" "mset (concat P) = T" "\<forall>q \<in> set (concat P). put_good (mp_env p) H q" "n \<le> length (kv_est s1)"
      "bt.mapper_rep UNIV (mb_mapper (kv_btree s1)) (map (\<lambda>w. fold (put_group (mp_env p)) (P ! w) (replicate n [] ! w)) [0..<n])"
    using m by (auto simp: mapped_def)
  have rows: "map (\<lambda>w. fold (put_group (mp_env p)) (P ! w) (replicate n [] ! w)) [0..<n] = map (groups (mp_env p)) P"
    using P(1) by (intro nth_equalityI) (simp_all add: groups_def)
  have bak: "mb_bak (kv_btree ?s0) = mb_mapper (kv_btree s1)"
    using job_reduces(1)
    by (simp add: s kvst_init_def kvst_set_bktmgr_def def_imgr_def mgr_mbks_init_def mbm_mbks_init_def mbm_mbks_bak_def)
  have "backup_ok True (map (groups (mp_env p)) P) (mb_bak (kv_btree ?s0)) (replicate n M_start)"
    using P(1,5) unfolding bak rows by (simp add: backup_ok_def bt.mapper_rep_def)
  moreover have "row_groups (mp_env p) (map (groups (mp_env p)) P) (replicate n M_start) (replicate n []) = replicate n []"
    by (rule nth_equalityI) (simp_all add: row_groups_nth)
  ultimately have "store_inv True C (map (groups (mp_env p)) P) (Some (rbkts_init pch C)) ?s0 (replicate n M_start) (replicate n [])"
    using P(4) C bt.mapper_rep_init [of C UNIV n] job_reduces(1)
    by (simp add: store_inv_def s kvst_init_def kvst_set_bktmgr_def def_imgr_def mgr_mbks_init_def mbm_mbks_init_def)
  with P show thesis
    using that by blast
qed

lemma sampled_base:
  assumes "length Q = n" "\<forall>q \<in> set (concat Q). put_good (mp_env p) H q" "length (concat Q) + sz \<le> 2 ^ 31"
  shows "base_ok n (map (groups (mp_env p)) Q) sz"
proof -
  have "groups_ok (mp_env p) H (groups (mp_env p) (Q ! w)) \<and> grp_size (groups (mp_env p) (Q ! w)) + sz \<le> 2 ^ 31" if "w < n" for w
  proof -
    have "Q ! w \<in> set Q" "length (Q ! w) \<le> length (concat Q)"
      using that assms(1) length_nth_concat [of w Q] by auto
    then show ?thesis
      using groups_ok_fold [of "[]" "Q ! w"] assms(2,3) by (auto simp: groups_def groups_ok_def grp_size_fold)
  qed
  then show ?thesis
    using assms(1) by (simp add: base_ok_def)
qed

lemma run_sampled:
  assumes ready: "run_ready p H pf ps" and fit: "results_fit (mp_env p) M (mset (job_puts p H (ps_ma ps))) (run_cpus p pf)"
    and tasks: "mp_tasks p = 0" and cpus: "run_cpus p pf \<le> jos_ncpu pf"
    and fair: "fair (run_cpus p pf) (length (job_puts p H (ps_ma ps)) + 2 * length (ps_ma ps) + 2 * run_cpus p pf) ss"
  shows "completes (mr_setup p pf ss s) (\<lambda>(ms, s0). \<forall>msch rsch.
    fair (run_cpus p pf) (length (job_puts p H (ps_ma ps)) + 2 * length (ps_ma ps) + 2 * run_cpus p pf) msch \<longrightarrow>
    fair (run_cpus p pf) (2 * ms_tasks ms + run_cpus p pf) rsch \<longrightarrow>
    completes (mr_run_scheduler p pf ss msch rsch s) (\<lambda>(res, s').
      job_result (mp_env p) M (mset (job_puts p H (ps_ma ps))) (mset (results_emits (mp_env p) res)) \<and>
      results_sorted (mp_env p) (mp_outcmp p) res))"
proof -
  let ?n = "run_cpus p pf" and ?pch = "out_kind (mp_env p)" and ?ma = "ps_ma ps" and ?C0 = "def_sample_reduce_tasks"
  define k where "k = n_sampled (length ?ma) ?n"
  have ps: "ps_idx ps = 0" "ps_nsplits ps = length ?ma" "0 < length ?ma" and n: "0 < ?n"
    using ready presplitter_init_fields [of "mp_split_func p" "mp_split_arg p" ?n ps] by (simp_all add: run_ready_def)
  have k: "0 < k" "k \<le> length ?ma"
    using n_sampled_bounds [OF ps(3) n] by (simp_all add: k_def)
  have small: "length ?ma + ?n < 2 ^ 31" "length (job_puts p H ?ma) \<le> 2 ^ 31" "\<forall>sp \<in> set ?ma. split_ok p H sp"
    using ready by (auto simp: run_ready_def)
  obtain res0 where res0: "mp_results p = Some res0"
    using ready by (cases "mp_results p") (auto simp: run_ready_def app_set_arg_def c_assert_def split: if_splits)
  define ps0 where "ps0 = ps\<lparr>ps_ma_bak := ?ma, ps_nsplits_bak := length ?ma, ps_nsplits := k\<rparr>"
  define s1 where "s1 = kvst_sample_init (mp_env p) (jos_ncpu pf) ?n ?C0 s"
  have prep: "presplitter_prep_sample ps k = Inr ps0"
    using k(2) ps(2) by (simp add: presplitter_prep_sample_def ps0_def)
  have all: "job_puts p H ?ma = phase_puts p H ps0 @ concat (map (split_puts p H) (drop k ?ma))"
    by (simp add: job_puts_def phase_puts_def ps0_def ps(1) flip: concat_append map_append)
  have work: "phase_work p ?n ps0 \<le> length (job_puts p H ?ma) + 2 * length ?ma + 2 * ?n"
    "sum_list (map (split_work p) (drop k ?ma)) \<le> length (job_puts p H ?ma) + 2 * length ?ma"
  proof -
    have "sum_list (map (split_work p) (take k ?ma)) + sum_list (map (split_work p) (drop k ?ma)) = sum_list (map (split_work p) ?ma)"
      by (metis append_take_drop_id map_append sum_list_append)
    then show "phase_work p ?n ps0 \<le> length (job_puts p H ?ma) + 2 * length ?ma + 2 * ?n"
        "sum_list (map (split_work p) (drop k ?ma)) \<le> length (job_puts p H ?ma) + 2 * length ?ma"
      using sum_split_work [OF small(3)] by (simp_all add: phase_work_def ps0_def ps(1))
  qed
  have st1: "store_inv False ?C0 (replicate ?n []) (kv_rbkts s) s1 (replicate ?n M_start) (replicate ?n [])"
  proof -
    have "row_groups (mp_env p) (replicate ?n []) (replicate ?n M_start) (replicate ?n []) = replicate ?n []"
      by (rule nth_equalityI) (simp_all add: row_groups_nth)
    then show ?thesis
      using cpus bt.mapper_rep_init [of ?C0 UNIV ?n]
      by (simp add: s1_def store_inv_def kvst_sample_init_def kvst_set_bktmgr_def def_imgr_def mgr_mbks_init_def mbm_mbks_init_def
          backup_ok_def est_init_def def_sample_reduce_tasks_def)
  qed
  have phase: "phase_ok ?n (replicate ?n []) ps0 (mset (phase_puts p H ps0))"
    using small k all by (auto simp: phase_ok_def base_ok_def groups_ok_def ps0_def dest: in_set_takeD)
  obtain i ntasks s2 nk np where s2: "map_phase p (qsorts pf) False ss ?n ps0 s1 = Inr (Some (ps0\<lparr>ps_idx := i\<rparr>, s2))"
      "mapped False ?n ?C0 (replicate ?n []) (kv_rbkts s) (mset (phase_puts p H ps0)) s2"
      "kvst_sample_finished (int (length ?ma)) s2 = Inr (Some (ntasks, s2\<lparr>nkeys_per_mapper := nk, npairs_per_mapper := np,
         kv_btree := mbm_mbks_bak (kv_btree s2), kv_has_backup := True, kv_bsampling := False\<rparr>))"
  proof (rule sample_phase_ok [OF phase _ n _ st1 _ _ _ fair_mono [OF fair work(1)], where qs = "qsorts pf" and t = "int (length ?ma)"])
    show "kv_bsampling s1" "kv_nrows s1 = ?n" "\<forall>w < ?n. nsampled (kv_est s1 ! w) = 0"
      using cpus by (simp_all add: s1_def kvst_sample_init_def est_init_def mstate0_def)
  qed (use ps(1) k(1) in \<open>simp_all add: ps0_def\<close>)
  define C where "C = max ntasks (?n * def_gr_tasks_per_cpu)"
  define s3 where "s3 = s2\<lparr>nkeys_per_mapper := nk, npairs_per_mapper := np, kv_btree := mbm_mbks_bak (kv_btree s2),
      kv_has_backup := True, kv_bsampling := False\<rparr>"
  define ps1 where "ps1 = presplitter_done_sample (ps0\<lparr>ps_idx := i\<rparr>)"
  let ?ms = "\<lparr>ms_nr_cpus = ?n, ms_ps = ps1, ms_nsampled_splits = k, ms_merge_nsplits = C, ms_skip_reduce_phase = False, ms_tasks = C\<rparr>"
  have init: "mr_setup p pf ss s = Inr (Some (?ms, kvst_init (mp_env p) ?pch ?n C C s3))"
    using ready tasks job_reduces(1) prep s2(1,3) ps(2)
    by (simp add: mr_setup_def run_ready_def run_cpus_def Let_def lift_res_def ret_def mr_sample_def presplitter_nsplits_def
        k_def s1_def C_def s3_def ps1_def)
  have C: "0 < C"
    using n by (simp add: C_def def_gr_tasks_per_cpu_def)
  obtain Q where Q: "length Q = ?n" "mset (concat Q) = mset (phase_puts p H ps0)" "\<forall>q \<in> set (concat Q). put_good (mp_env p) H q"
      "store_inv True C (map (groups (mp_env p)) Q) (Some (rbkts_init ?pch C)) (kvst_init (mp_env p) ?pch ?n C C s3)
         (replicate ?n M_start) (replicate ?n [])"
    using sampled_store [OF s2(2) C s3_def] by blast
  have ps1: "ps_idx ps1 = int k" "ps_nsplits ps1 = length ?ma" "ps_ma ps1 = ?ma"
    using k(2) small(1) by (simp_all add: ps1_def presplitter_done_sample_def ps0_def s32_def)
  then have puts: "phase_puts p H ps1 = concat (map (split_puts p H) (drop k ?ma))"
      "phase_work p ?n ps1 = sum_list (map (split_work p) (drop k ?ma)) + 2 * ?n"
    by (simp_all add: phase_puts_def phase_work_def)
  have lenQ: "length (concat Q) = length (phase_puts p H ps0)"
    using Q(2) by (metis size_mset)
  have total: "mset (concat Q @ phase_puts p H ps1) = mset (job_puts p H ?ma)"
    using Q(2) by (simp add: all puts(1))
  have size: "length (concat Q) + length (phase_puts p H ps1) \<le> 2 ^ 31"
    using small(2) unfolding all puts(1) lenQ by simp
  have phase1: "phase_ok ?n (map (groups (mp_env p)) Q) ps1 (mset (phase_puts p H ps1))"
    using sampled_base [OF Q(1,3) size] small ps1 by (auto simp: phase_ok_def)
  have "completes (mr_run_scheduler p pf ss msch rsch s) (\<lambda>(res, s').
      job_result (mp_env p) M (mset (concat Q @ phase_puts p H (ms_ps ?ms))) (mset (results_emits (mp_env p) res)) \<and>
      results_sorted (mp_env p) (mp_outcmp p) res)"
    if f: "fair ?n (length (job_puts p H ?ma) + 2 * length ?ma + 2 * ?n) msch" "fair ?n (2 * C + ?n) rsch" for msch rsch
  proof (rule run_ok [OF init, where n = ?n and C = C and ?i0.0 = k and hb = True and ?Q0.0 = Q])
    show "fair ?n (phase_work p ?n (ms_ps ?ms)) msch"
      using fair_mono [OF f(1)] work(2) by (simp add: puts(2))
    show "rb_ok (rbkts_init ?pch C)" "rb_kind (rbkts_init ?pch C) = ?pch" "rb_outs (rbkts_init ?pch C) = replicate C []"
      by (simp_all add: rbkts_init_outs)
  qed (use ready Q C n f phase1 ps1 k size fit total res0 in \<open>simp_all add: run_ready_def\<close>)
  then show ?thesis
    unfolding init using total by simp
qed

end

lemma completes_fst: "completes m (\<lambda>(x, y). Q x) \<Longrightarrow> \<exists>x. Q x"
  by (auto elim!: completesE)

end
