(* ===== verification/App_Lr.thy ===== *)
theory App_Lr
  imports Sched_Sample
begin

text \<open>
  Linear regression (\<^verbatim>\<open>metis/app/linear_regression.c\<close>): five sums over an array of points, the
  callbacks and the whole program up to the sums it prints. The number of reduce tasks is never
  set, so every run samples first. The floating-point quotients that are computed from the sums
  are not modelled.
\<close>

section \<open>Points and keys\<close>

definition KEY_SX :: "64 word" where "KEY_SX = 0"
definition KEY_SY :: "64 word" where "KEY_SY = 1"
definition KEY_SXX :: "64 word" where "KEY_SXX = 2"
definition KEY_SYY :: "64 word" where "KEY_SYY = 3"
definition KEY_SXY :: "64 word" where "KEY_SXY = 4"

lemmas lr_keys = KEY_SX_def KEY_SY_def KEY_SXX_def KEY_SYY_def KEY_SXY_def

text \<open>Keys are compared as \<^verbatim>\<open>long int\<close>, greater keys first.\<close>

definition intkeycmp :: "64 word \<Rightarrow> 64 word \<Rightarrow> int" where
  "intkeycmp v1 v2 = (if sint v1 < sint v2 then 1 else if sint v2 < sint v1 then - 1 else 0)"

text \<open>The bytes of the parameter that holds the key, in the byte order of the host.\<close>

definition word_bytes :: "bool \<Rightarrow> 64 word \<Rightarrow> 8 word list" where
  "word_bytes little k = (let bs = map (\<lambda>i. ucast (drop_bit (8 * i) k)) [0..<8] in if little then bs else rev bs)"

definition linear_regression_partition :: "bool \<Rightarrow> 64 word \<Rightarrow> nat \<Rightarrow> nat res" where
  "linear_regression_partition little key key_size =
     (if key_size \<le> 8
      then Inr (unat (foldl hash_byte 5381 (take key_size (word_bytes little key)) mod (2 ^ 32 - 1)))
      else Inl Out_of_bounds)"

section \<open>The callbacks\<close>

record lr_sums =
  lr_SX :: "64 word"
  lr_SY :: "64 word"
  lr_SXX :: "64 word"
  lr_SYY :: "64 word"
  lr_SXY :: "64 word"

definition lr_sums0 :: lr_sums where
  "lr_sums0 = \<lparr>lr_SX = 0, lr_SY = 0, lr_SXX = 0, lr_SYY = 0, lr_SXY = 0\<rparr>"

text \<open>A product of two \<^verbatim>\<open>char\<close> is computed as \<^verbatim>\<open>int\<close> and added to a \<^verbatim>\<open>long long\<close>.\<close>

definition char_mult :: "8 word \<Rightarrow> 8 word \<Rightarrow> 64 word" where
  "char_mult x y = scast ((scast x :: 32 word) * scast y)"

fun lr_loop :: "8 word list \<Rightarrow> lr_sums \<Rightarrow> lr_sums" where
  "lr_loop (x # y # dat) s = lr_loop dat
     \<lparr>lr_SX = lr_SX s + scast x, lr_SY = lr_SY s + scast y, lr_SXX = lr_SXX s + char_mult x x,
      lr_SYY = lr_SYY s + char_mult y y, lr_SXY = lr_SXY s + char_mult x y\<rparr>"
| "lr_loop _ s = s"

definition linear_regression_map :: "8 word list \<Rightarrow> split \<Rightarrow> (64 word \<times> 64 word \<times> nat) list res" where
  "linear_regression_map dat sp =
     (case sp of (a, l) \<Rightarrow>
      c_assert (l mod 2 = 0)
       (if length dat < a + l then Inl Out_of_bounds
        else let s = lr_loop (take l (drop a dat)) lr_sums0 in
          Inr [(KEY_SX, lr_SX s, 8), (KEY_SXX, lr_SXX s, 8), (KEY_SY, lr_SY s, 8), (KEY_SYY, lr_SYY s, 8), (KEY_SXY, lr_SXY s, 8)]))"

definition linear_regression_reduce :: "64 word \<Rightarrow> 64 word list \<Rightarrow> (64 word \<times> 64 word) list" where
  "linear_regression_reduce key_in vals = [(key_in, foldl (+) 0 vals)]"

definition linear_regression_combine :: "64 word \<Rightarrow> 64 word list \<Rightarrow> 64 word list \<times> nat" where
  "linear_regression_combine key_in vals = (case vals of [] \<Rightarrow> ([], 1) | v # vs \<Rightarrow> (foldl (+) 0 vals # vs, 1))"

definition lr_env :: "(64 word, 64 word) env" where
  "lr_env = \<lparr>atype = Atype_mapreduce, vm = None, combiner = Some linear_regression_combine,
     reduce_func = Some linear_regression_reduce, keycmp = intkeycmp, mrkeycopy = None, null_key = 0\<rparr>"

definition lr_param :: "bool \<Rightarrow> nat \<Rightarrow> defsplitter_state \<Rightarrow> 8 word list \<Rightarrow> (64 word, 64 word, defsplitter_state) mr_param" where
  "lr_param little nprocs ps dat =
     \<lparr>mp_env = lr_env,
      mp_results = Some \<lparr>res_kv = None, res_kvl = None, res_length = 0\<rparr>,
      mp_outcmp = \<lparr>out_kv_cmp = None, out_kvl_cmp = None\<rparr>,
      mp_tasks = 0,
      mp_map_func = linear_regression_map dat,
      mp_split_func = defsplitter,
      mp_split_arg = ps,
      mp_part_func = Some (linear_regression_partition little),
      mp_bytes = word_bytes little,
      mp_nr_cpus = nprocs\<rparr>"

section \<open>The program\<close>

text \<open>Reading the sums out of the results; an unknown key fails an assertion. The program ends with the number
  of points and the sums.\<close>

fun lr_collect :: "(64 word, 64 word) keyval list \<Rightarrow> lr_sums \<Rightarrow> lr_sums res" where
  "lr_collect [] s = Inr s"
| "lr_collect (kv # kvs) s =
     (if kv_key kv = KEY_SX then lr_collect kvs (s\<lparr>lr_SX := kv_val kv\<rparr>)
      else if kv_key kv = KEY_SY then lr_collect kvs (s\<lparr>lr_SY := kv_val kv\<rparr>)
      else if kv_key kv = KEY_SXX then lr_collect kvs (s\<lparr>lr_SXX := kv_val kv\<rparr>)
      else if kv_key kv = KEY_SYY then lr_collect kvs (s\<lparr>lr_SYY := kv_val kv\<rparr>)
      else if kv_key kv = KEY_SXY then lr_collect kvs (s\<lparr>lr_SXY := kv_val kv\<rparr>)
      else Inl Assert_failed)"

definition lr_size :: "8 word list \<Rightarrow> nat" where
  "lr_size bytes = length bytes - length bytes mod 2"

definition lr_main :: "bool \<Rightarrow> (64 word, 64 word) platform \<Rightarrow> nat list \<Rightarrow> nat list \<Rightarrow> nat list \<Rightarrow> nat \<Rightarrow> nat \<Rightarrow> 8 word list
    \<Rightarrow> (64 word, 64 word) kvst \<Rightarrow> (nat \<times> lr_sums \<times> (64 word, 64 word) kvst) option res" where
  "lr_main little pf ss msch rsch nprocs map_tasks bytes s =
     run_bind (lift_res (defsplitter_init (lr_size bytes) map_tasks 2)) (\<lambda>ps.
     run_bind (mr_run_scheduler (lr_param little nprocs ps bytes) pf ss msch rsch s) (\<lambda>(final_vals, s').
     run_bind (lift_res (lr_collect (results_kv final_vals) lr_sums0)) (\<lambda>sums.
     ret (length bytes div 2, sums, s'))))"

section \<open>The callbacks keep the library's contracts\<close>

lemma intkeycmp_comparator: "comparator intkeycmp"
  by unfold_locales (auto simp: intkeycmp_def split: if_splits)

lemma intkeycmp_eq: "intkeycmp x y = 0 \<longleftrightarrow> x = y"
  by (auto simp: intkeycmp_def intro: signed_word_eqI)

lemma lr_env_simps [simp]:
  "atype lr_env = Atype_mapreduce" "keycmp lr_env = intkeycmp" "vm lr_env = None"
  "combiner lr_env = Some linear_regression_combine" "reduce_func lr_env = Some linear_regression_reduce"
  "mrkeycopy lr_env = None"
  by (simp_all add: lr_env_def)

definition lr_hash :: "bool \<Rightarrow> 64 word \<Rightarrow> nat" where
  "lr_hash little k = unat (foldl hash_byte 5381 (word_bytes little k) mod (2 ^ 32 - 1))"

lemma lr_mr_env: "mr_env lr_env"
  by (rule mr_env.intro) (simp add: intkeycmp_comparator)

lemma lr_summary: "value_summary lr_env sum_list"
  by unfold_locales (auto simp: linear_regression_combine_def foldl_add split: list.splits)

interpretation lr_job: mr_job "lr_param b n ps dat" sum_list "lr_hash b" for b n ps dat
proof (rule mr_job.intro)
  show "mr_env (mp_env (lr_param b n ps dat))" "value_summary (mp_env (lr_param b n ps dat)) sum_list"
    using lr_mr_env lr_summary by (simp_all add: lr_param_def)
  show "hash_ok (mp_env (lr_param b n ps dat)) (lr_hash b)"
    by (simp add: hash_ok_def lr_param_def intkeycmp_eq)
qed (auto simp: lr_param_def reduces_ok_def linear_regression_reduce_def)

section \<open>The sums of a list of points\<close>

fun points :: "8 word list \<Rightarrow> (int \<times> int) list" where
  "points (x # y # dat) = (sint x, sint y) # points dat"
| "points _ = []"

text \<open>The five sums as integers.\<close>

definition psum :: "(int \<times> int \<Rightarrow> int) \<Rightarrow> (int \<times> int) list \<Rightarrow> 64 word" where
  "psum f pts = word_of_int (sum_list (map f pts))"

definition regression_sums :: "(int \<times> int) list \<Rightarrow> lr_sums" where
  "regression_sums pts = \<lparr>lr_SX = psum fst pts, lr_SY = psum snd pts, lr_SXX = psum (\<lambda>(x, y). x * x) pts,
     lr_SYY = psum (\<lambda>(x, y). y * y) pts, lr_SXY = psum (\<lambda>(x, y). x * y) pts\<rparr>"

lemma points_append: "length x mod 2 = 0 \<Longrightarrow> points (x @ y) = points x @ points y"
  by (induction x rule: points.induct) auto

lemma psum_append: "psum f (xs @ ys) = psum f xs + psum f ys"
  by (simp add: psum_def)

lemma psum_Cons: "psum f (x # xs) = word_of_int (f x) + psum f xs"
  by (simp add: psum_def)

lemma sint8_bounds: "- 128 \<le> sint (x :: 8 word)" "sint (x :: 8 word) \<le> 127"
  using sint_ge [of x] sint_lt [of x] by simp_all

lemma char_mult_int: "char_mult x y = word_of_int (sint x * sint y)"
proof -
  have "\<bar>sint x * sint y\<bar> \<le> 128 * 128"
    unfolding abs_mult using sint8_bounds [of x] sint8_bounds [of y] by (intro mult_mono) auto
  then have "sint (word_of_int (sint x * sint y) :: 32 word) = sint x * sint y"
    by (subst signed_of_int) (simp add: signed_take_bit_int_eq_self)
  moreover have "(scast x :: 32 word) * scast y = word_of_int (sint x * sint y)"
    by (simp only: scast_eq wi_hom_mult)
  ultimately show ?thesis
    unfolding char_mult_def scast_eq [of "_ * _"] by (simp only:)
qed

lemma lr_loop_sums:
  "lr_loop dat s = \<lparr>lr_SX = lr_SX s + psum fst (points dat), lr_SY = lr_SY s + psum snd (points dat),
     lr_SXX = lr_SXX s + psum (\<lambda>(x, y). x * x) (points dat), lr_SYY = lr_SYY s + psum (\<lambda>(x, y). y * y) (points dat),
     lr_SXY = lr_SXY s + psum (\<lambda>(x, y). x * y) (points dat)\<rparr>"
proof (induction dat s rule: lr_loop.induct)
  case (1 x y dat s)
  then show ?case
    by (simp add: psum_Cons char_mult_int add.assoc)
qed (simp_all add: psum_def)

text \<open>The value of a key, and what the pairs emitted for a list of points add up to.\<close>

definition lr_key :: "lr_sums \<Rightarrow> 64 word \<Rightarrow> 64 word" where
  "lr_key s k = (if k = KEY_SX then lr_SX s else if k = KEY_SY then lr_SY s else if k = KEY_SXX then lr_SXX s
     else if k = KEY_SYY then lr_SYY s else if k = KEY_SXY then lr_SXY s else 0)"

definition lr_puts :: "(int \<times> int) list \<Rightarrow> (64 word, 64 word) put list \<Rightarrow> bool" where
  "lr_puts pts P \<longleftrightarrow> (\<forall>k. sum_mset (key_values lr_env k (mset P)) = lr_key (regression_sums pts) k) \<and>
     fst ` set P \<subseteq> {KEY_SX, KEY_SY, KEY_SXX, KEY_SYY, KEY_SXY}"

lemma lr_key_append: "lr_key (regression_sums (xs @ ys)) k = lr_key (regression_sums xs) k + lr_key (regression_sums ys) k"
  by (simp add: lr_key_def regression_sums_def psum_append)

lemma lr_part: "linear_regression_partition b k 8 = Inr (lr_hash b k)"
  by (simp add: linear_regression_partition_def lr_hash_def word_bytes_def Let_def)

lemma lr_split:
  assumes "l mod 2 = 0" "a + l \<le> length dat"
  shows "split_ok (lr_param b n ps dat) (lr_hash b) (a, l)"
    "lr_puts (points (take l (drop a dat))) (split_puts (lr_param b n ps dat) (lr_hash b) (a, l))"
    "length (split_puts (lr_param b n ps dat) (lr_hash b) (a, l)) = 5"
    "fst ` set (split_puts (lr_param b n ps dat) (lr_hash b) (a, l)) = {KEY_SX, KEY_SY, KEY_SXX, KEY_SYY, KEY_SXY}"
proof -
  let ?s = "regression_sums (points (take l (drop a dat)))"
  define es where "es = [(KEY_SX, lr_SX ?s, 8), (KEY_SXX, lr_SXX ?s, 8), (KEY_SY, lr_SY ?s, 8), (KEY_SYY, lr_SYY ?s, 8), (KEY_SXY, lr_SXY ?s, 8 :: nat)]"
  have map: "mp_map_func (lr_param b n ps dat) (a, l) = Inr es"
    using assms by (simp add: lr_param_def linear_regression_map_def es_def lr_loop_sums regression_sums_def lr_sums0_def)
  have puts: "split_puts (lr_param b n ps dat) (lr_hash b) (a, l) = map (put_of (lr_hash b)) es"
    by (simp add: split_puts_def map)
  have env: "mp_env (lr_param b n ps dat) = lr_env" "part_func (lr_param b n ps dat) = linear_regression_partition b"
    by (simp_all add: lr_param_def part_func_def)
  show "split_ok (lr_param b n ps dat) (lr_hash b) (a, l)"
    using mr_env.keycopy_ok_none [OF lr_mr_env] unfolding split_ok_def map env by (auto simp: es_def lr_part)
  have keys: "fst ` set (split_puts (lr_param b n ps dat) (lr_hash b) (a, l)) = {KEY_SX, KEY_SY, KEY_SXX, KEY_SYY, KEY_SXY}"
    unfolding puts set_map image_comp fst_put_of by (auto simp: es_def)
  then show "fst ` set (split_puts (lr_param b n ps dat) (lr_hash b) (a, l)) = {KEY_SX, KEY_SY, KEY_SXX, KEY_SYY, KEY_SXY}" .
  have "key_sum es k = lr_key ?s k" for k
    by (simp add: key_sum_def es_def lr_key_def lr_keys)
  then show "lr_puts (points (take l (drop a dat))) (split_puts (lr_param b n ps dat) (lr_hash b) (a, l))"
    unfolding lr_puts_def keys unfolding puts
    using key_values_puts [of lr_env _ "lr_hash b" es] by (simp add: intkeycmp_eq)
  show "length (split_puts (lr_param b n ps dat) (lr_hash b) (a, l)) = 5"
    by (simp add: puts es_def)
qed

lemma lr_chain:
  assumes "chain ends p q sps" "\<And>x. ends x \<Longrightarrow> x mod 2 = 0" "p mod 2 = 0" "q \<le> length dat"
  shows "lr_puts (points (take (q - p) (drop p dat))) (job_puts (lr_param b n ps dat) (lr_hash b) sps) \<and>
    (\<forall>sp \<in> set sps. split_ok (lr_param b n ps dat) (lr_hash b) sp) \<and>
    length (job_puts (lr_param b n ps dat) (lr_hash b) sps) = 5 * length sps \<and>
    (sps \<noteq> [] \<longrightarrow> fst ` set (job_puts (lr_param b n ps dat) (lr_hash b) sps) = {KEY_SX, KEY_SY, KEY_SXX, KEY_SYY, KEY_SXY})"
  using assms
proof (induction ends p q sps rule: chain.induct)
  case (1 ends p q)
  then show ?case
    by (simp add: lr_puts_def job_puts_def key_values_def lr_key_def regression_sums_def psum_def)
next
  case (2 ends p q a l xs)
  let ?x = "take l (drop p dat)" and ?y = "take (q - (p + l)) (drop (p + l) dat)"
  have c: "a = p" "(p + l) mod 2 = 0" "chain ends (p + l) q xs"
    using 2(2,3) by auto
  have l: "l mod 2 = 0" "p + l \<le> q"
    using c(2) 2(4) chain_length [OF c(3)] by (auto simp: mod_add_eq [symmetric] mod_eq_0_iff_dvd dvd_add_right_iff)
  have len: "p + l \<le> length dat" "length ?x mod 2 = 0"
    using l 2(5) by auto
  note one = lr_split [OF l(1) len(1), where b = b and n = n and ps = ps]
  have img: "take (q - p) (drop p dat) = ?x @ ?y"
  proof -
    have "q - p = l + (q - (p + l))"
      using l(2) by simp
    then show ?thesis
      by (simp only: take_add drop_drop add.commute [of l p])
  qed
  note IH = 2(1) [OF c(3) 2(3) c(2) 2(5)]
  have step: "job_puts p' H ((p, l) # xs) = split_puts p' H (p, l) @ job_puts p' H xs" for p' :: "(64 word, 64 word, defsplitter_state) mr_param" and H
    by (simp add: job_puts_def)
  show ?case
    using one IH unfolding c(1) step set_append mset_append image_Un img lr_puts_def points_append [OF len(2)] lr_key_append key_values_plus
    by auto
qed

section \<open>Main result\<close>

lemma points_size: "points (take (lr_size dat) dat) = points dat"
proof -
  have "points (take (2 * n) dat) = points dat" if "length dat \<le> 2 * n + 1" for n
    using that
  proof (induction dat arbitrary: n rule: points.induct)
    case (1 x y dat)
    then show ?case
      by (cases n) auto
  qed (auto simp: take_Cons')
  from this [of "length dat div 2"] show ?thesis
    by (simp add: lr_size_def minus_mod_eq_mult_div)
qed

lemma lr_collect_key:
  assumes "\<forall>kv \<in> set kvs. kv_key kv \<in> {KEY_SX, KEY_SY, KEY_SXX, KEY_SYY, KEY_SXY} \<and> kv_val kv = lr_key t (kv_key kv)"
  shows "lr_collect kvs s = Inr \<lparr>lr_SX = (if KEY_SX \<in> kv_key ` set kvs then lr_SX t else lr_SX s),
     lr_SY = (if KEY_SY \<in> kv_key ` set kvs then lr_SY t else lr_SY s),
     lr_SXX = (if KEY_SXX \<in> kv_key ` set kvs then lr_SXX t else lr_SXX s),
     lr_SYY = (if KEY_SYY \<in> kv_key ` set kvs then lr_SYY t else lr_SYY s),
     lr_SXY = (if KEY_SXY \<in> kv_key ` set kvs then lr_SXY t else lr_SXY s)\<rparr>"
  using assms
proof (induction kvs arbitrary: s)
  case (Cons kv kvs)
  then have "kv_key kv \<in> {0, 1, 2, 3, 4}" "kv_val kv = lr_key t (kv_key kv)"
    by (simp_all add: lr_keys)
  with Cons show ?case
    by (auto simp: lr_keys lr_key_def)
qed simp

lemma lr_collect_result:
  assumes puts: "lr_puts pts P" "fst ` set P = {KEY_SX, KEY_SY, KEY_SXX, KEY_SYY, KEY_SXY}"
    and job: "job_result lr_env sum_list (mset P) (mset (map kv_emit kvs))"
  shows "lr_collect kvs s = Inr (regression_sums pts)"
proof -
  have red: "\<And>k vs out. red_out lr_env sum_list k vs out \<Longrightarrow> out = [Emit_kv k (sum_list vs)]"
    by (auto simp: red_out_def linear_regression_reduce_def foldl_add)
  have "keycmp lr_env x y = 0 \<longleftrightarrow> x = y" for x y
    by (simp add: intkeycmp_eq)
  note kvs = sums_returned [OF job this red]
  have ks: "kv_key ` set kvs = {KEY_SX, KEY_SY, KEY_SXX, KEY_SYY, KEY_SXY}"
    using kvs(2) puts(2) by simp
  have "kv_key kv \<in> {KEY_SX, KEY_SY, KEY_SXX, KEY_SYY, KEY_SXY} \<and> kv_val kv = lr_key (regression_sums pts) (kv_key kv)"
    if "kv \<in> set kvs" for kv
  proof
    show "kv_key kv \<in> {KEY_SX, KEY_SY, KEY_SXX, KEY_SYY, KEY_SXY}"
      unfolding ks [symmetric] by (rule imageI [OF that])
    show "kv_val kv = lr_key (regression_sums pts) (kv_key kv)"
      using bspec [OF kvs(3) that] puts(1) by (simp only: lr_puts_def)
  qed
  then have "\<forall>kv \<in> set kvs. kv_key kv \<in> {KEY_SX, KEY_SY, KEY_SXX, KEY_SYY, KEY_SXY} \<and> kv_val kv = lr_key (regression_sums pts) (kv_key kv)"
    by (rule ballI)
  from lr_collect_key [OF this] show ?thesis
    by (simp add: ks)
qed

lemma lr_fits:
  assumes "lr_puts pts P" "0 < n"
  shows "results_fit lr_env sum_list (mset P) n"
  unfolding results_fit_def
proof (intro allI impI)
  fix out
  assume "job_result lr_env sum_list (mset P) out"
  then have "size out \<le> card (set [KEY_SX, KEY_SY, KEY_SXX, KEY_SYY, KEY_SXY])"
    by (rule job_result_card) (use assms(1) in \<open>auto simp: intkeycmp_eq red_out_def linear_regression_reduce_def lr_puts_def\<close>)
  also have "\<dots> \<le> 5"
    using card_length [of "[KEY_SX, KEY_SY, KEY_SXX, KEY_SYY, KEY_SXY]"] by simp
  finally have "size out < 8"
    by simp
  moreover have "8 \<le> n * n * n" if "2 \<le> n"
    using mult_le_mono [OF mult_le_mono [OF that that] that] by simp
  ultimately show "psrs_single (size out) n"
    using assms(2) by (cases "n = 1") (auto simp: psrs_single_def)
qed

lemma lr_ready:
  assumes n: "n = (if nprocs = 0 then core_count pf else nprocs)" "0 < n" "nprocs \<le> core_count pf"
    and m: "m = (if map_tasks = 0 then n * def_nsplits_per_core else map_tasks)" "0 < m" "2 \<le> sz div m"
    and size: "sz mod 2 = 0" "sz \<le> length dat" "5 * sz + n < 2 ^ 31"
    and sorts: "qsort_impl (sort_kv (qsorts pf))" "qsort_impl (sort_kvl (qsorts pf))"
  defines "ds \<equiv> \<lparr>ds_split_pos = 0, ds_data_size = sz, ds_nsplits = map_tasks, ds_align = 2\<rparr>"
  obtains ps where "run_ready (lr_param b nprocs ds dat) (lr_hash b) pf ps"
    "run_cpus (lr_param b nprocs ds dat) pf = n" "length (ps_ma ps) \<le> sz"
    "lr_puts (points (take sz dat)) (job_puts (lr_param b nprocs ds dat) (lr_hash b) (ps_ma ps))"
    "fst ` set (job_puts (lr_param b nprocs ds dat) (lr_hash b) (ps_ma ps)) = {KEY_SX, KEY_SY, KEY_SXX, KEY_SYY, KEY_SXY}"
    "length (job_puts (lr_param b nprocs ds dat) (lr_hash b) (ps_ma ps)) \<le> 5 * sz"
proof -
  let ?p = "lr_param b nprocs ds dat"
  have cpus: "run_cpus ?p pf = n" and env: "mp_env ?p = lr_env" and split: "mp_split_func ?p = defsplitter" "mp_split_arg ?p = ds"
    by (simp_all add: run_cpus_def lr_param_def n(1))
  have sz: "0 < sz"
    using m by (cases sz) auto
  have good: "def_good n ds" "def_pos ds < ds_data_size ds"
    using m size(1) sz by (auto simp: ds_def def_good_def def_nsplits_def def_pos_def)
  obtain ps where ps: "presplitter_init defsplitter ds n = Some (Inr ps)" "chain (def_ends ds) 0 sz (ps_ma ps)"
    using defsp.presplitter_init_covers [OF good] by (auto simp: ds_def def_pos_def)
  have ends: "x mod 2 = 0" if "def_ends ds x" for x
    using that by (simp add: def_ends_def ds_def)
  have "ps_ma ps \<noteq> []"
    using presplitter_init_fields(3) [OF ps(1)] by simp
  then have img: "lr_puts (points (take sz dat)) (job_puts ?p (lr_hash b) (ps_ma ps))"
      "\<forall>sp \<in> set (ps_ma ps). split_ok ?p (lr_hash b) sp"
      "length (job_puts ?p (lr_hash b) (ps_ma ps)) = 5 * length (ps_ma ps)"
      "fst ` set (job_puts ?p (lr_hash b) (ps_ma ps)) = {KEY_SX, KEY_SY, KEY_SXX, KEY_SYY, KEY_SXY}"
    using lr_chain [OF ps(2) ends, of dat b nprocs ds] size(2) by auto
  have len: "length (ps_ma ps) \<le> sz"
    using chain_length [OF ps(2)] by simp
  have arg: "app_set_arg (mp_env ?p) (mp_results ?p) = Inr (out_kind (mp_env ?p))"
    by (simp add: app_set_arg_def lr_param_def uses_vm_def out_kind_def)
  have "merge_env_ok lr_env (mp_outcmp ?p) (qsorts pf)"
    using merge_env_default [of lr_env] intkeycmp_comparator sorts by (simp add: lr_param_def)
  then have "run_ready ?p (lr_hash b) pf ps"
    using n size(3) len img(2,3) ps(1) arg unfolding run_ready_def cpus env split by (simp add: lr_param_def)
  then show thesis
    using that cpus len img by simp
qed

text \<open>C6. Linear regression as a whole. The program never sets the number of reduce tasks, so it samples
  first: whatever the interleaving of the workers of the sampling phase, the set-up ends with a number of
  reduce tasks, and for every interleaving of the later phases that gives each worker enough turns
  the run ends, no step faults, no key is unknown, and the program has the number of points and the
  five exact sums modulo \<open>2 ^ 64\<close>, also when the file has an odd number of bytes.\<close>

theorem lr_run:
  assumes n: "n = (if nprocs = 0 then core_count pf else nprocs)" "0 < n" "nprocs \<le> core_count pf" "n \<le> jos_ncpu pf"
    and tasks: "m = (if map_tasks = 0 then n * def_nsplits_per_core else map_tasks)" "0 < m"
    and size: "sz = lr_size bytes" "2 \<le> sz div m" "5 * sz + n < 2 ^ 31"
    and ds: "ds = \<lparr>ds_split_pos = 0, ds_data_size = sz, ds_nsplits = map_tasks, ds_align = 2\<rparr>"
    and sched: "fair n (7 * sz + 2 * n) ss"
    and sorts: "qsort_impl (sort_kv (qsorts pf))" "qsort_impl (sort_kvl (qsorts pf))"
  shows "completes (mr_setup (lr_param little nprocs ds bytes) pf ss s) (\<lambda>(ms, s0). \<forall>msch rsch.
    fair n (7 * sz + 2 * n) msch \<longrightarrow> fair n (2 * ms_tasks ms + n) rsch \<longrightarrow>
    completes (lr_main little pf ss msch rsch nprocs map_tasks bytes s) (\<lambda>(npoints, sums, s').
      npoints = length (points bytes) \<and> sums = regression_sums (points bytes)))"
proof -
  have sz: "sz mod 2 = 0" "sz \<le> length bytes"
    using size(1) by (simp_all add: lr_size_def)
  let ?p = "lr_param little nprocs ds bytes"
  obtain ps where ps: "run_ready ?p (lr_hash little) pf ps" "run_cpus ?p pf = n" "length (ps_ma ps) \<le> sz"
      "lr_puts (points (take sz bytes)) (job_puts ?p (lr_hash little) (ps_ma ps))"
      "fst ` set (job_puts ?p (lr_hash little) (ps_ma ps)) = {KEY_SX, KEY_SY, KEY_SXX, KEY_SYY, KEY_SXY}"
      "length (job_puts ?p (lr_hash little) (ps_ma ps)) \<le> 5 * sz"
    using lr_ready [OF n(1-3) tasks size(2) sz size(3) sorts] unfolding ds by blast
  let ?P = "job_puts ?p (lr_hash little) (ps_ma ps)"
  have env: "mp_env ?p = lr_env" "mp_tasks ?p = 0"
    by (simp_all add: lr_param_def)
  have work: "length ?P + 2 * length (ps_ma ps) + 2 * n \<le> 7 * sz + 2 * n"
    using ps(3,6) by linarith
  have pts: "points (take sz bytes) = points bytes" "length (points bytes) = length bytes div 2"
    using points_size [of bytes] size(1) by simp (induction bytes rule: points.induct, simp_all)
  have init: "defsplitter_init (lr_size bytes) map_tasks 2 = Inr ds"
    using sz(1) size(1) by (simp add: defsplitter_init_def ds)
  have collect: "completes (lr_main little pf ss msch rsch nprocs map_tasks bytes s) (\<lambda>(npoints, sums, s').
      npoints = length (points bytes) \<and> sums = regression_sums (points bytes))"
    if "completes (mr_run_scheduler ?p pf ss msch rsch s) (\<lambda>(res, s').
        job_result lr_env sum_list (mset ?P) (mset (results_emits lr_env res)) \<and> results_sorted lr_env (mp_outcmp ?p) res)" for msch rsch
    using that lr_collect_result [OF ps(4,5)] pts
    by (auto simp: lr_main_def init lift_res_def ret_def results_emits_def elim!: completesE)
  have "completes (mr_setup ?p pf ss s) (\<lambda>(ms, s0). \<forall>msch rsch.
      fair n (length ?P + 2 * length (ps_ma ps) + 2 * n) msch \<longrightarrow> fair n (2 * ms_tasks ms + n) rsch \<longrightarrow>
      completes (mr_run_scheduler ?p pf ss msch rsch s) (\<lambda>(res, s').
        job_result lr_env sum_list (mset ?P) (mset (results_emits lr_env res)) \<and> results_sorted lr_env (mp_outcmp ?p) res))"
    using lr_job.run_sampled [OF ps(1), of ss s] lr_fits [OF ps(4) n(2)] n(4) fair_mono [OF sched work] unfolding ps(2) env by simp
  then show ?thesis
  proof (rule completes_mono, clarify)
    fix ms s0 msch rsch
    assume run: "\<forall>msch rsch. fair n (length ?P + 2 * length (ps_ma ps) + 2 * n) msch \<longrightarrow> fair n (2 * ms_tasks ms + n) rsch \<longrightarrow>
        completes (mr_run_scheduler ?p pf ss msch rsch s) (\<lambda>(res, s').
          job_result lr_env sum_list (mset ?P) (mset (results_emits lr_env res)) \<and> results_sorted lr_env (mp_outcmp ?p) res)"
      and f: "fair n (7 * sz + 2 * n) msch" "fair n (2 * ms_tasks ms + n) rsch"
    show "completes (lr_main little pf ss msch rsch nprocs map_tasks bytes s) (\<lambda>(npoints, sums, s').
        npoints = length (points bytes) \<and> sums = regression_sums (points bytes))"
      by (rule collect) (rule run [THEN spec, THEN spec, THEN mp, THEN mp, OF fair_mono [OF f(1) work] f(2)])
  qed
qed

theorem lr_run_witness:
  "\<exists>msch rsch. completes (lr_main True \<lparr>jos_ncpu = 4, core_count = 2, qsorts = \<lparr>sort_kv = c_isort, sort_kvl = c_isort, sort_kvs = c_isort\<rparr>\<rparr>
      (replicate (Suc (7 * 4 + 2 * 1)) 0) msch rsch 1 1 [1, 2, 3, 255, 9] (kvst0 4)) (\<lambda>(npoints, sums, s').
      npoints = 2 \<and> sums = \<lparr>lr_SX = 4, lr_SY = 1, lr_SXX = 10, lr_SYY = 5, lr_SXY = - 1\<rparr>)"
proof -
  let ?pf = "\<lparr>jos_ncpu = 4, core_count = 2, qsorts = \<lparr>sort_kv = c_isort, sort_kvl = c_isort, sort_kvs = c_isort\<rparr>\<rparr> :: (64 word, 64 word) platform"
  let ?ds = "\<lparr>ds_split_pos = 0, ds_data_size = 4, ds_nsplits = 1, ds_align = 2\<rparr>" and ?ss = "replicate (Suc (7 * 4 + 2 * 1)) (0 :: nat)"
  let ?b = "[1, 2, 3, 255, 9] :: 8 word list"
  have pts: "points ?b = [(1, 2), (3, - 1)]"
    by simp
  have "completes (mr_setup (lr_param True 1 ?ds ?b) ?pf ?ss (kvst0 4)) (\<lambda>(ms, s0). \<forall>msch rsch.
      fair 1 (7 * 4 + 2 * 1) msch \<longrightarrow> fair 1 (2 * ms_tasks ms + 1) rsch \<longrightarrow>
      completes (lr_main True ?pf ?ss msch rsch 1 1 ?b (kvst0 4)) (\<lambda>(npoints, sums, s').
        npoints = length (points ?b) \<and> sums = regression_sums (points ?b)))"
    by (rule lr_run [where m = 1, OF _ _ _ _ _ _ _ _ _ _ fair_replicate]) (simp_all add: isort.qsort_impl_axioms lr_size_def)
  from completes_fst [OF this] obtain ms :: mr_state where ms: "\<forall>msch rsch. fair 1 (7 * 4 + 2 * 1) msch \<longrightarrow> fair 1 (2 * ms_tasks ms + 1) rsch \<longrightarrow>
      completes (lr_main True ?pf ?ss msch rsch 1 1 ?b (kvst0 4)) (\<lambda>(npoints, sums, s').
        npoints = length (points ?b) \<and> sums = regression_sums (points ?b))" ..
  have vals: "length (points ?b) = 2" "regression_sums (points ?b) = \<lparr>lr_SX = 4, lr_SY = 1, lr_SXX = 10, lr_SYY = 5, lr_SXY = - 1\<rparr>"
    unfolding pts by (simp_all add: regression_sums_def psum_def)
  from ms [THEN spec, THEN spec, THEN mp, THEN mp, OF fair_replicate fair_replicate] show ?thesis
    unfolding vals by (intro exI)
qed

end
