(* ===== verification/App_Mm.thy ===== *)
theory App_Mm
  imports Splitter
begin

text \<open>
  Matrix multiplication (\<^verbatim>\<open>metis/app/matrix_mult.c\<close>): the two splitters, by blocks and by
  rows, and the two map functions, which add into or write the output matrix they share. The
  application is map-only and emits no pairs; what counts is the output matrix.

  The matrices hold 32-bit integers; sums and products wrap. An index is computed as \<^verbatim>\<open>int\<close>.
  One update of the output is one step; the steps of different map tasks interleave in any order.
\<close>

section \<open>Blocks\<close>

definition block_len :: nat where
  "block_len = 32"

record mm_data =
  row_num :: nat
  startrow :: nat
  startcol :: nat
  matrix_len :: nat

text \<open>
  A split is a copy of the splitter's state; the model keeps the two fields of it that vary, the
  first row and the first column of the block.
\<close>

definition matrixmult_splitter :: "mm_data splitter" where
  "matrixmult_splitter d ncore =
     (if matrix_len d \<le> startrow d then Inr (None, d)
      else
        let col = startcol d + block_len in
        Inr (Some (startrow d, startcol d),
             if matrix_len d < col then d\<lparr>startrow := startrow d + block_len, startcol := 0\<rparr>
             else d\<lparr>startcol := col\<rparr>))"

text \<open>The values of \<^verbatim>\<open>k\<close>, \<^verbatim>\<open>a\<close>, \<^verbatim>\<open>b\<close> and \<^verbatim>\<open>c\<close> in the order of the four loops of \<^verbatim>\<open>matrixmult_map\<close>.\<close>

definition block_range :: "nat \<Rightarrow> nat \<Rightarrow> nat list" where
  "block_range n i = [i..<min (i + block_len) n]"

definition block_starts :: "nat \<Rightarrow> nat list" where
  "block_starts n = map (\<lambda>i. block_len * i) [0..<(n + block_len - 1) div block_len]"

definition mm_loops :: "nat \<Rightarrow> split \<Rightarrow> (nat \<times> nat \<times> nat) list" where
  "mm_loops n sp =
     (case sp of (i, j) \<Rightarrow>
      concat (map (\<lambda>k. concat (map (\<lambda>a. concat (map (\<lambda>b. map (\<lambda>c. (a, b, c))
        (block_range n k)) (block_range n j))) (block_range n i))) (block_starts n)))"

definition mm_index :: "nat \<Rightarrow> nat \<Rightarrow> nat \<Rightarrow> int" where
  "mm_index n x y = s32 (s32 (int n * int x) + int y)"

definition mm_update :: "32 word list \<Rightarrow> 32 word list \<Rightarrow> nat \<Rightarrow> nat \<times> nat \<times> nat \<Rightarrow> 32 word list \<Rightarrow> 32 word list res" where
  "mm_update A B n t out =
     (case t of (a, b, c) \<Rightarrow>
      res_bind (rd A (mm_index n a c)) (\<lambda>x.
      res_bind (rd B (mm_index n c b)) (\<lambda>y.
      res_bind (rd out (mm_index n a b)) (\<lambda>z.
      wr out (mm_index n a b) (z + x * y)))))"

fun mm_run :: "('t \<Rightarrow> 32 word list \<Rightarrow> 32 word list res) \<Rightarrow> 't list \<Rightarrow> 32 word list \<Rightarrow> 32 word list res" where
  "mm_run step [] out = Inr out"
| "mm_run step (t # ts) out = res_bind (step t out) (mm_run step ts)"

definition matrixmult_map :: "32 word list \<Rightarrow> 32 word list \<Rightarrow> nat \<Rightarrow> split \<Rightarrow> 32 word list \<Rightarrow> 32 word list res" where
  "matrixmult_map A B n sp out = mm_run (mm_update A B n) (mm_loops n sp) out"

section \<open>Rows\<close>

record mm_rows = mm_data +
  mm_nsplits :: nat

definition matrixmult_splitter2 :: "mm_rows splitter" where
  "matrixmult_splitter2 d0 ncores =
     (let d = (if mm_nsplits d0 = 0 then d0\<lparr>mm_nsplits := ncores * def_nsplits_per_core\<rparr> else d0) in
      if mm_nsplits d = 0 then Inl Div_by_zero
      else
        let split_size = matrix_len d div mm_nsplits d in
        c_assert (row_num d \<le> matrix_len d)
         (if matrix_len d \<le> row_num d then Inr (None, d)
          else
            let available_rows = matrix_len d - row_num d;
                len = (if split_size < available_rows then split_size else available_rows)
            in Inr (Some (row_num d, len), d\<lparr>row_num := row_num d + len\<rparr>)))"

text \<open>The sum over a row of the first and a column of the second matrix, through moving pointers, and the write of it.\<close>

fun mm_value :: "32 word list \<Rightarrow> 32 word list \<Rightarrow> nat \<Rightarrow> nat \<Rightarrow> nat \<Rightarrow> nat list \<Rightarrow> 32 word \<Rightarrow> 32 word res" where
  "mm_value A B n x i [] v = Inr v"
| "mm_value A B n x i (j # js) v =
     res_bind (rd A (s32 (int n * int x) + int j)) (\<lambda>p.
     res_bind (rd B (int i + int n * int j)) (\<lambda>q.
     mm_value A B n x i js (v + p * q)))"

definition mm_write :: "32 word list \<Rightarrow> 32 word list \<Rightarrow> nat \<Rightarrow> nat \<times> nat \<Rightarrow> 32 word list \<Rightarrow> 32 word list res" where
  "mm_write A B n t out =
     (case t of (x, i) \<Rightarrow>
      res_bind (mm_value A B n x i [0..<n] 0) (\<lambda>v. wr out (mm_index n x i) v))"

definition mm_cells :: "nat \<Rightarrow> split \<Rightarrow> (nat \<times> nat) list" where
  "mm_cells n sp = (case sp of (r, l) \<Rightarrow> concat (map (\<lambda>x. map (\<lambda>i. (x, i)) [0..<n]) [r..<r + l]))"

definition matrixmult_map2 :: "32 word list \<Rightarrow> 32 word list \<Rightarrow> nat \<Rightarrow> split \<Rightarrow> 32 word list \<Rightarrow> 32 word list res" where
  "matrixmult_map2 A B n sp out = mm_run (mm_write A B n) (mm_cells n sp) out"

section \<open>Keys\<close>

record mm_key =
  x_loc :: int
  y_loc :: int
  loc_value :: int

definition myintcmp :: "mm_key \<Rightarrow> mm_key \<Rightarrow> int" where
  "myintcmp key1 key2 =
     (if x_loc key1 < x_loc key2 then - 1
      else if x_loc key2 < x_loc key1 then 1
      else if y_loc key1 < y_loc key2 then - 1
      else if y_loc key2 < y_loc key1 then 1
      else 0)"

lemma myintcmp_comparator: "comparator myintcmp"
  by unfold_locales (auto simp: myintcmp_def split: if_splits)

section \<open>Indices\<close>

definition mm_prod :: "32 word list \<Rightarrow> 32 word list \<Rightarrow> nat \<Rightarrow> nat \<Rightarrow> nat \<Rightarrow> 32 word" where
  "mm_prod A B n a b = (\<Sum>c < n. A ! (n * a + c) * B ! (n * c + b))"

lemma mm_cell_less: "x < n \<Longrightarrow> y < n \<Longrightarrow> n * x + y < n * n" for n :: nat
proof -
  assume "x < n" "y < n"
  then have "n * x + y < n * x + n" "n * (x + 1) \<le> n * n"
    by (simp_all add: mult_le_mono2 del: mult_Suc_right)
  then show ?thesis
    by simp
qed

lemma cell_unique: "y < n \<Longrightarrow> y' < n \<Longrightarrow> n * x + y = n * x' + y' \<longleftrightarrow> x = x' \<and> y = y'" for n :: nat
  by (metis add_diff_cancel_left' div_mult_self2 mult.commute nat_neq_iff div_less add.commute mod_less mod_mult_self2 not_less_zero add_0)

lemma mm_index_eq:
  assumes "n * n < 2 ^ 31" "x < n" "y < n"
  shows "mm_index n x y = int (n * x + y)"
proof -
  have "n * x + y < 2 ^ 31"
    using mm_cell_less [OF assms(2,3)] assms(1) by simp
  then have b: "int n * int x + int y < 2 ^ 31"
    by (metis of_nat_add of_nat_less_iff of_nat_mult of_nat_numeral of_nat_power)
  moreover have "0 \<le> int n * int x"
    by simp
  ultimately have "s32 (int n * int x) = int n * int x" "s32 (int n * int x + int y) = int n * int x + int y"
    by (simp_all add: s32_def mod_pos_pos_trivial)
  then show ?thesis
    by (simp add: mm_index_def)
qed

section \<open>The blocks cover the matrix\<close>

lemma block_len_pos: "0 < block_len"
  by (simp add: block_len_def)

lemma sum_blocks:
  fixes f :: "nat \<Rightarrow> 'a :: comm_monoid_add"
  assumes "n \<le> block_len * m"
  shows "(\<Sum>i < m. \<Sum>x \<in> set (block_range n (block_len * i)). f x) = (\<Sum>x < n. f x)"
proof -
  have "(\<Sum>i < m. \<Sum>x \<in> set (block_range n (block_len * i)). f x) = (\<Sum>x < min (block_len * m) n. f x)" for m
  proof (induction m)
    case (Suc m)
    have "{..<min (block_len * Suc m) n} = {..<min (block_len * m) n} \<union> set (block_range n (block_len * m))"
      by (auto simp: block_range_def)
    moreover have "{..<min (block_len * m) n} \<inter> set (block_range n (block_len * m)) = {}"
      by (auto simp: block_range_def)
    ultimately show ?case
      using Suc by (simp add: sum.union_disjoint)
  qed simp
  then show ?thesis
    using assms by (simp add: min_absorb2)
qed

lemma block_rows: "n \<le> block_len * ((n + block_len - 1) div block_len)"
proof -
  have "(n + block_len - 1) div block_len * block_len + (n + block_len - 1) mod block_len = n + block_len - 1"
    by (rule div_mult_mod_eq)
  moreover have "(n + block_len - 1) mod block_len < block_len"
    using block_len_pos by simp
  ultimately have "n < (n + block_len - 1) div block_len * block_len + 1"
    using block_len_pos by linarith
  then show ?thesis
    by (simp add: mult.commute)
qed

lemma block_cols: "n \<le> block_len * (n div block_len + 1)"
  using dividend_less_times_div [OF block_len_pos, of n] by simp

text \<open>The splits, in the order in which the splitter delivers them.\<close>

definition mm_splits :: "nat \<Rightarrow> split list" where
  "mm_splits n = concat (map (\<lambda>i. map (\<lambda>j. (block_len * i, block_len * j)) [0..<n div block_len + 1])
     [0..<(n + block_len - 1) div block_len])"

lemma presplit_row:
  assumes "j \<le> matrix_len d div block_len" "startcol d = block_len * j" "startrow d < matrix_len d"
  shows "presplit_loop matrixmult_splitter nc d ma =
    presplit_loop matrixmult_splitter nc (d\<lparr>startrow := startrow d + block_len, startcol := 0\<rparr>)
      (ma @ map (\<lambda>j. (startrow d, block_len * j)) [j..<matrix_len d div block_len + 1])"
  using assms
proof (induction "matrix_len d div block_len - j" arbitrary: j d ma)
  case 0
  then have "matrix_len d < startcol d + block_len" "j = matrix_len d div block_len"
    using block_cols [of "matrix_len d"] dividend_less_times_div [OF block_len_pos, of "matrix_len d"] by auto
  then show ?case
    using 0 by (subst presplit_loop.simps) (simp add: matrixmult_splitter_def Let_def)
next
  case (Suc m)
  let ?d = "d\<lparr>startcol := block_len * (j + 1)\<rparr>"
  have "block_len * (j + 1) \<le> block_len * (matrix_len d div block_len)"
    using Suc.hyps(2) by (intro mult_le_mono2) simp
  also have "\<dots> \<le> matrix_len d"
    by simp
  finally have "\<not> matrix_len d < startcol d + block_len"
    using Suc.prems(2) by simp
  then have "presplit_loop matrixmult_splitter nc d ma = presplit_loop matrixmult_splitter nc ?d (ma @ [(startrow d, block_len * j)])"
    using Suc.prems by (subst presplit_loop.simps) (simp add: matrixmult_splitter_def Let_def add.commute)
  also have "\<dots> = presplit_loop matrixmult_splitter nc (?d\<lparr>startrow := startrow ?d + block_len, startcol := 0\<rparr>)
      ((ma @ [(startrow d, block_len * j)]) @ map (\<lambda>j. (startrow ?d, block_len * j)) [j + 1..<matrix_len ?d div block_len + 1])"
    using Suc by (intro Suc.hyps(1)) auto
  finally show ?case
    using Suc.prems(1) by (simp add: upt_conv_Cons [of j "Suc (matrix_len d div block_len)"] del: upt_Suc)
qed

lemma presplit_rows:
  assumes "i \<le> (matrix_len d + block_len - 1) div block_len" "startrow d = block_len * i" "startcol d = 0"
  shows "\<exists>d'. presplit_loop matrixmult_splitter nc d ma = Some (Inr (ma @
    concat (map (\<lambda>i. map (\<lambda>j. (block_len * i, block_len * j)) [0..<matrix_len d div block_len + 1])
      [i..<(matrix_len d + block_len - 1) div block_len]), d'))"
  using assms
proof (induction "(matrix_len d + block_len - 1) div block_len - i" arbitrary: i d ma)
  case 0
  then have "matrix_len d \<le> startrow d"
    using block_rows [of "matrix_len d"] by auto
  then show ?case
    using 0 by (subst presplit_loop.simps) (simp add: matrixmult_splitter_def)
next
  case (Suc m)
  let ?R = "(matrix_len d + block_len - 1) div block_len"
  have iR: "i < ?R"
    using Suc.hyps(2) by simp
  moreover have "?R \<le> i" if "matrix_len d \<le> block_len * i"
  proof -
    have "?R \<le> (block_len - 1 + i * block_len) div block_len"
      using that by (intro div_le_mono) (simp add: mult.commute)
    also have "\<dots> = i"
      using block_len_pos by (subst div_mult_self1) simp_all
    finally show ?thesis .
  qed
  ultimately have row: "startrow d < matrix_len d"
    using Suc.prems(2) by fastforce
  let ?d = "d\<lparr>startrow := startrow d + block_len, startcol := 0\<rparr>"
  obtain d' where "presplit_loop matrixmult_splitter nc ?d (ma @ map (\<lambda>j. (startrow d, block_len * j)) [0..<matrix_len d div block_len + 1]) =
      Some (Inr ((ma @ map (\<lambda>j. (startrow d, block_len * j)) [0..<matrix_len d div block_len + 1]) @
        concat (map (\<lambda>i. map (\<lambda>j. (block_len * i, block_len * j)) [0..<matrix_len ?d div block_len + 1])
          [i + 1..<(matrix_len ?d + block_len - 1) div block_len]), d'))"
    using Suc.hyps(1) [of ?d "i + 1"] Suc.hyps(2) Suc.prems(1,2) by fastforce
  then show ?case
    using presplit_row [of 0 d nc ma] Suc.prems(2,3) row Suc.hyps(2) by (simp add: upt_conv_Cons [OF iR, simplified] del: upt_Suc)
qed

lemma presplit_blocks:
  assumes "0 < n" "matrix_len d = n" "startrow d = 0" "startcol d = 0"
  shows "\<exists>ps. presplitter_init matrixmult_splitter d nc = Some (Inr ps) \<and> ps_ma ps = mm_splits n"
proof -
  obtain d' where "presplit_loop matrixmult_splitter nc d [] = Some (Inr (mm_splits n, d'))"
    using presplit_rows [of 0 d nc "[]"] assms by (auto simp: mm_splits_def)
  moreover have "mm_splits n \<noteq> []"
    using assms(1) block_rows [of n] by (cases "(n + block_len - 1) div block_len") (auto simp: mm_splits_def)
  ultimately show ?thesis
    by (simp add: presplitter_init_def)
qed

section \<open>The steps\<close>

lemma mm_update_ok:
  assumes "n * n < 2 ^ 31" "length A = n * n" "length B = n * n" "length out = n * n" "a < n" "b < n" "c < n"
  shows "mm_update A B n (a, b, c) out = Inr (out[n * a + b := out ! (n * a + b) + A ! (n * a + c) * B ! (n * c + b)])"
proof -
  have "n * a + b < length out" "n * a + c < length A" "n * c + b < length B"
    using assms(2-) mm_cell_less by simp_all
  then show ?thesis
    using assms by (simp add: mm_update_def mm_index_eq del: of_nat_add of_nat_mult)
qed

text \<open>The contribution of a list of updates to a cell.\<close>

definition mm_added :: "32 word list \<Rightarrow> 32 word list \<Rightarrow> nat \<Rightarrow> nat \<Rightarrow> nat \<times> nat \<times> nat \<Rightarrow> 32 word" where
  "mm_added A B n p t = (case t of (a, b, c) \<Rightarrow> if n * a + b = p then A ! (n * a + c) * B ! (n * c + b) else 0)"

lemma mm_run_updates:
  assumes "n * n < 2 ^ 31" "length A = n * n" "length B = n * n"
  shows "length out = n * n \<Longrightarrow> \<forall>(a, b, c) \<in> set ts. a < n \<and> b < n \<and> c < n \<Longrightarrow>
    succeeds (mm_run (mm_update A B n) ts out) (\<lambda>out'. length out' = n * n \<and>
      (\<forall>p < n * n. out' ! p = out ! p + sum_list (map (mm_added A B n p) ts)))"
proof (induction ts arbitrary: out)
  case (Cons t ts)
  obtain a b c where t: "t = (a, b, c)"
    by (cases t)
  have abc: "a < n" "b < n" "c < n"
    using Cons.prems(2) by (auto simp: t)
  let ?out = "out[n * a + b := out ! (n * a + b) + A ! (n * a + c) * B ! (n * c + b)]"
  have "succeeds (mm_run (mm_update A B n) ts ?out) (\<lambda>out'. length out' = n * n \<and>
      (\<forall>p < n * n. out' ! p = ?out ! p + sum_list (map (mm_added A B n p) ts)))"
    using Cons.prems by (intro Cons.IH) auto
  then show ?case
    using mm_update_ok [OF assms Cons.prems(1) abc] mm_cell_less [OF abc(1,2)] Cons.prems(1)
    by (auto simp: t mm_added_def [of _ _ _ _ "(_, _, _)"] nth_list_update add.assoc elim!: succeeds_mono)
qed simp

lemma sum_list_concat_map: "sum_list (map f (concat xss)) = sum_list (map (\<lambda>xs. sum_list (map f xs)) xss)"
  for f :: "'a \<Rightarrow> 'b :: comm_monoid_add"
  by (induction xss) simp_all

lemma sum_list_upt_set: "sum_list (map f [a..<b]) = sum f (set [a..<b])" for f :: "nat \<Rightarrow> 'b :: comm_monoid_add"
  by (simp add: interv_sum_list_conv_sum_set_nat)

lemma sum_block_range: "sum_list (map f (block_range n i)) = sum f (set (block_range n i))" for f :: "nat \<Rightarrow> 'b :: comm_monoid_add"
  unfolding block_range_def by (rule sum_list_upt_set)

lemma sum_list_upto: "sum_list (map f [0..<m]) = (\<Sum>i < m. f i)" for f :: "nat \<Rightarrow> 'b :: comm_monoid_add"
  by (simp add: interv_sum_list_conv_sum_set_nat atLeast0LessThan)

lemma sum_mm_loops:
  fixes g :: "nat \<Rightarrow> nat \<Rightarrow> nat \<Rightarrow> 'b :: comm_monoid_add"
  shows "sum_list (map (\<lambda>(a, b, c). g a b c) (mm_loops n (i, j))) =
    (\<Sum>a \<in> set (block_range n i). \<Sum>b \<in> set (block_range n j). \<Sum>c < n. g a b c)"
proof -
  let ?R = "(n + block_len - 1) div block_len"
  have "sum_list (map (\<lambda>(a, b, c). g a b c) (mm_loops n (i, j))) =
      (\<Sum>k < ?R. \<Sum>a \<in> set (block_range n i). \<Sum>b \<in> set (block_range n j). \<Sum>c \<in> set (block_range n (block_len * k)). g a b c)"
    by (simp add: mm_loops_def block_starts_def sum_list_concat_map comp_def sum_block_range sum_list_upto)
  also have "\<dots> = (\<Sum>a \<in> set (block_range n i). \<Sum>k < ?R. \<Sum>b \<in> set (block_range n j). \<Sum>c \<in> set (block_range n (block_len * k)). g a b c)"
    by (rule sum.swap)
  also have "\<dots> = (\<Sum>a \<in> set (block_range n i). \<Sum>b \<in> set (block_range n j). \<Sum>k < ?R. \<Sum>c \<in> set (block_range n (block_len * k)). g a b c)"
    by (intro sum.cong refl sum.swap)
  finally show ?thesis
    by (simp only: sum_blocks [OF block_rows])
qed

lemma sum_mm_splits:
  fixes g :: "nat \<Rightarrow> nat \<Rightarrow> nat \<Rightarrow> 'b :: comm_monoid_add"
  shows "sum_list (map (\<lambda>(a, b, c). g a b c) (concat (map (mm_loops n) (mm_splits n)))) =
    (\<Sum>a < n. \<Sum>b < n. \<Sum>c < n. g a b c)"
proof -
  let ?R = "(n + block_len - 1) div block_len" and ?C = "n div block_len + 1"
  have "sum_list (map (\<lambda>(a, b, c). g a b c) (concat (map (mm_loops n) (mm_splits n)))) =
      (\<Sum>i < ?R. \<Sum>j < ?C. \<Sum>a \<in> set (block_range n (block_len * i)). \<Sum>b \<in> set (block_range n (block_len * j)). \<Sum>c < n. g a b c)"
    by (simp add: mm_splits_def sum_list_concat_map comp_def sum_mm_loops sum_list_upto del: upt_Suc sum.lessThan_Suc)
  also have "\<dots> = (\<Sum>i < ?R. \<Sum>a \<in> set (block_range n (block_len * i)). \<Sum>j < ?C. \<Sum>b \<in> set (block_range n (block_len * j)). \<Sum>c < n. g a b c)"
    by (intro sum.cong refl sum.swap)
  also have "\<dots> = (\<Sum>i < ?R. \<Sum>a \<in> set (block_range n (block_len * i)). \<Sum>b < n. \<Sum>c < n. g a b c)"
    by (simp only: sum_blocks [OF block_cols])
  finally show ?thesis
    by (simp only: sum_blocks [OF block_rows])
qed

lemma mm_loops_bounds: "(a, b, c) \<in> set (mm_loops n sp) \<Longrightarrow> a < n \<and> b < n \<and> c < n"
  by (auto simp: mm_loops_def block_range_def split: prod.splits)

lemma sum_cell:
  assumes "a0 < n" "b0 < n"
  shows "(\<Sum>a < n. \<Sum>b < n. \<Sum>c < n. mm_added A B n (n * a0 + b0) (a, b, c)) = mm_prod A B n a0 b0"
proof -
  have "(\<Sum>c < n. mm_added A B n (n * a0 + b0) (a, b, c)) = (if a = a0 then if b = b0 then mm_prod A B n a0 b0 else 0 else 0)"
    if "b < n" for a b
    using cell_unique [OF that assms(2), of a a0] by (auto simp: mm_added_def mm_prod_def)
  then have "(\<Sum>a < n. \<Sum>b < n. \<Sum>c < n. mm_added A B n (n * a0 + b0) (a, b, c)) =
      (\<Sum>a < n. \<Sum>b < n. if a = a0 then if b = b0 then mm_prod A B n a0 b0 else 0 else 0)"
    by (intro sum.cong refl) simp
  also have "\<dots> = (\<Sum>a < n. if a = a0 then \<Sum>b < n. if b = b0 then mm_prod A B n a0 b0 else 0 else 0)"
    by (intro sum.cong refl) simp
  finally show ?thesis
    using assms by (simp add: sum.delta)
qed

section \<open>Rows\<close>

definition mm2_good :: "nat \<Rightarrow> mm_rows \<Rightarrow> bool" where
  "mm2_good nc d \<longleftrightarrow> (let m = (if mm_nsplits d = 0 then nc * def_nsplits_per_core else mm_nsplits d) in
     0 < m \<and> m \<le> matrix_len d \<and> row_num d \<le> matrix_len d)"

interpretation mm2: progress_splitter matrixmult_splitter2 nc "mm2_good nc" row_num matrix_len "\<lambda>_ _. True" for nc
proof
  fix d :: mm_rows
  assume good: "mm2_good nc d"
  then show "matrix_len d \<le> row_num d \<Longrightarrow> succeeds (matrixmult_splitter2 d nc) (\<lambda>(r, s'). r = None)"
    by (auto simp: mm2_good_def matrixmult_splitter2_def Let_def)
  assume "row_num d < matrix_len d"
  moreover have "0 < matrix_len d div m" if "0 < m" "m \<le> matrix_len d" for m
    using that by (simp add: div_greater_zero_iff)
  ultimately show "succeeds (matrixmult_splitter2 d nc) (\<lambda>(r, s'). case r of None \<Rightarrow> False
      | Some (a, l) \<Rightarrow> a = row_num d \<and> 0 < l \<and> row_num s' = row_num d + l \<and> row_num s' \<le> matrix_len d \<and>
          matrix_len s' = matrix_len d \<and> mm2_good nc s' \<and> (\<lambda>_. True) = (\<lambda>_. True) \<and> True)"
    using good by (auto simp: mm2_good_def matrixmult_splitter2_def Let_def)
qed

lemma mm_value_ok:
  assumes n: "n * n < 2 ^ 31" "length A = n * n" "length B = n * n" "x < n" "i < n"
  shows "set js \<subseteq> {..<n} \<Longrightarrow> mm_value A B n x i js v = Inr (v + sum_list (map (\<lambda>j. A ! (n * x + j) * B ! (n * j + i)) js))"
proof (induction js arbitrary: v)
  case (Cons j js)
  have j: "j < n" "0 < n"
    using Cons.prems n(4) by auto
  have "s32 (int n * int x) = int (n * x)"
    using mm_index_eq [OF n(1,4) j(2)] by (simp add: mm_index_def s32_def)
  then have "s32 (int n * int x) + int j = int (n * x + j)" "int i + int n * int j = int (n * j + i)"
    by simp_all
  moreover have "n * x + j < length A" "n * j + i < length B"
    using n j mm_cell_less by simp_all
  ultimately show ?case
    using Cons by (simp add: add.assoc del: of_nat_add of_nat_mult)
qed simp

lemma mm_write_ok:
  assumes "n * n < 2 ^ 31" "length A = n * n" "length B = n * n" "length out = n * n" "x < n" "i < n"
  shows "mm_write A B n (x, i) out = Inr (out[n * x + i := mm_prod A B n x i])"
proof -
  have "mm_value A B n x i [0..<n] 0 = Inr (mm_prod A B n x i)"
    using mm_value_ok [OF assms(1-3,5,6), of "[0..<n]" 0] by (simp add: mm_prod_def sum_list_upto atLeast0LessThan)
  moreover have "wr out (int (n * x + i)) v = Inr (out[n * x + i := v])" for v
    using mm_cell_less [OF assms(5,6)] assms(4) by (simp add: wr_def del: of_nat_add of_nat_mult)
  ultimately show ?thesis
    using mm_index_eq [OF assms(1,5,6)] by (simp add: mm_write_def del: of_nat_add of_nat_mult)
qed

lemma mm_run_writes:
  assumes "n * n < 2 ^ 31" "length A = n * n" "length B = n * n"
  shows "length out = n * n \<Longrightarrow> \<forall>(x, i) \<in> set ts. x < n \<and> i < n \<Longrightarrow>
    succeeds (mm_run (mm_write A B n) ts out) (\<lambda>out'. length out' = n * n \<and>
      (\<forall>x < n. \<forall>i < n. out' ! (n * x + i) = (if (x, i) \<in> set ts then mm_prod A B n x i else out ! (n * x + i))))"
proof (induction ts arbitrary: out)
  case (Cons t ts)
  obtain y j where t: "t = (y, j)"
    by (cases t)
  have yj: "y < n" "j < n"
    using Cons.prems(2) by (auto simp: t)
  let ?out = "out[n * y + j := mm_prod A B n y j]"
  have "succeeds (mm_run (mm_write A B n) ts ?out) (\<lambda>out'. length out' = n * n \<and>
      (\<forall>x < n. \<forall>i < n. out' ! (n * x + i) = (if (x, i) \<in> set ts then mm_prod A B n x i else ?out ! (n * x + i))))"
    using Cons.prems by (intro Cons.IH) auto
  moreover have "?out ! (n * x + i) = (if (x, i) = (y, j) then mm_prod A B n x i else out ! (n * x + i))" if "x < n" "i < n" for x i
    using cell_unique [OF that(2) yj(2), of x y] mm_cell_less [OF that] mm_cell_less [OF yj] Cons.prems(1) by (auto simp: nth_list_update)
  ultimately show ?case
    using mm_write_ok [OF assms Cons.prems(1) yj] by (auto simp: t elim!: succeeds_mono)
qed simp

lemma set_mm_cells: "set (mm_cells m (r, l)) = {r..<r + l} \<times> {..<m}"
  by (auto simp: mm_cells_def)

lemma chain_cells:
  "chain ends p n sps \<Longrightarrow> set (concat (map (mm_cells m) sps)) = {p..<n} \<times> {..<m}"
proof (induction ends p n sps rule: chain.induct)
  case (2 ends p q a l xs)
  then have "p + l \<le> q"
    using chain_length [of ends "p + l" q xs] by auto
  then show ?case
    using 2 by (auto simp: set_mm_cells)
qed simp

section \<open>Main results\<close>

text \<open>C9. Matrix multiplication by blocks: the splitter cuts the output into blocks, its loop ends, and for every
  interleaving of the updates of all map tasks no access leaves a matrix, no index overflows, and
  every cell of the output has grown by exactly the product of its row and column, modulo
  \<open>2 ^ 32\<close>. What the cell held before stays in the sum: the program allocates the output
  without clearing it.\<close>

theorem matrixmult_blocks:
  assumes "0 < n" "n * n < 2 ^ 31" "length A = n * n" "length B = n * n" "length out = n * n"
    and "matrix_len d = n" "startrow d = 0" "startcol d = 0"
  shows "\<exists>ps. presplitter_init matrixmult_splitter d ncores = Some (Inr ps) \<and>
    (\<forall>steps. mset steps = mset (concat (map (mm_loops n) (ps_ma ps))) \<longrightarrow>
      succeeds (mm_run (mm_update A B n) steps out) (\<lambda>out'. length out' = n * n \<and>
        (\<forall>a < n. \<forall>b < n. out' ! (n * a + b) = out ! (n * a + b) + mm_prod A B n a b)))"
proof -
  obtain ps where ps: "presplitter_init matrixmult_splitter d ncores = Some (Inr ps)" "ps_ma ps = mm_splits n"
    using presplit_blocks [OF assms(1,6-8)] by blast
  have "succeeds (mm_run (mm_update A B n) steps out) (\<lambda>out'. length out' = n * n \<and>
      (\<forall>a < n. \<forall>b < n. out' ! (n * a + b) = out ! (n * a + b) + mm_prod A B n a b))"
    if steps: "mset steps = mset (concat (map (mm_loops n) (mm_splits n)))" for steps
  proof -
    have set: "set steps = set (concat (map (mm_loops n) (mm_splits n)))"
      using steps by (rule mset_eq_setD)
    then have bounds: "\<forall>(a, b, c) \<in> set steps. a < n \<and> b < n \<and> c < n"
      using mm_loops_bounds by (fastforce simp del: set_concat simp: set_concat [abs_def])
    have "sum_list (map (mm_added A B n p) steps) = (\<Sum>a < n. \<Sum>b < n. \<Sum>c < n. mm_added A B n p (a, b, c))" for p
    proof -
      have "sum_list (map (mm_added A B n p) steps) = sum_list (map (mm_added A B n p) (concat (map (mm_loops n) (mm_splits n))))"
        using steps by (metis mset_map sum_mset_sum_list)
      also have "\<dots> = sum_list (map (\<lambda>(a, b, c). mm_added A B n p (a, b, c)) (concat (map (mm_loops n) (mm_splits n))))"
        by (simp add: case_prod_beta')
      finally show ?thesis
        by (simp only: sum_mm_splits)
    qed
    then show ?thesis
      using mm_run_updates [OF assms(2-5) bounds] by (auto simp: sum_cell mm_cell_less elim!: succeeds_mono)
  qed
  with ps show ?thesis
    by auto
qed

theorem matrixmult_blocks_witness:
  "\<exists>steps out'. mm_run (mm_update [1, 2, 3, 4] [5, 6, 7, 8] 2) steps [9, 9, 9, 9] = Inr out' \<and> length out' = 4 \<and>
     out' ! 0 = 9 + 19 \<and> out' ! 1 = 9 + 22 \<and> out' ! 2 = 9 + 43 \<and> out' ! 3 = 9 + 50"
proof -
  let ?d = "\<lparr>row_num = 0, startrow = 0, startcol = 0, matrix_len = 2\<rparr>"
  have "\<exists>ps. presplitter_init matrixmult_splitter ?d 1 = Some (Inr ps) \<and>
      (\<forall>steps. mset steps = mset (concat (map (mm_loops 2) (ps_ma ps))) \<longrightarrow>
        succeeds (mm_run (mm_update [1, 2, 3, 4] [5, 6, 7, 8] 2) steps [9, 9, 9, 9]) (\<lambda>out'. length out' = 2 * 2 \<and>
          (\<forall>a < 2. \<forall>b < 2. out' ! (2 * a + b) = [9, 9, 9, 9] ! (2 * a + b) + mm_prod [1, 2, 3, 4] [5, 6, 7, 8] 2 a b)))"
    by (rule matrixmult_blocks) simp_all
  then obtain steps where "succeeds (mm_run (mm_update [1, 2, 3, 4] [5, 6, 7, 8] 2) steps [9, 9, 9, 9]) (\<lambda>out'. length out' = 2 * 2 \<and>
      (\<forall>a < 2. \<forall>b < 2. out' ! (2 * a + b) = [9, 9, 9, 9] ! (2 * a + b) + mm_prod [1, 2, 3, 4] [5, 6, 7, 8] 2 a b))"
    by blast
  then obtain out' where out': "mm_run (mm_update [1, 2, 3, 4] [5, 6, 7, 8] 2) steps [9, 9, 9, 9] = Inr out'" "length out' = 2 * 2"
      "\<And>a b. a < 2 \<Longrightarrow> b < 2 \<Longrightarrow> out' ! (2 * a + b) = [9, 9, 9, 9] ! (2 * a + b) + mm_prod [1, 2, 3, 4] [5, 6, 7, 8] 2 a b"
    by (auto elim!: succeedsE)
  show ?thesis
    using out'(1,2) out'(3) [of 0 0] out'(3) [of 0 1] out'(3) [of 1 0] out'(3) [of 1 1]
    by (auto simp: mm_prod_def numeral_2_eq_2 numeral_3_eq_3 eval_nat_numeral)
qed

text \<open>C36. Matrix multiplication by rows, the other variant of the program: with at most as many splits as rows
  the loop of the splitter ends, and for every interleaving of the writes of all map tasks the output is the
  product, whatever it held before.\<close>

theorem matrixmult_rows:
  assumes "n * n < 2 ^ 31" "length A = n * n" "length B = n * n" "length out = n * n"
    and "matrix_len d = n" "row_num d = 0" "m = (if mm_nsplits d = 0 then ncores * def_nsplits_per_core else mm_nsplits d)"
    and "0 < m" "m \<le> n"
  shows "\<exists>ps. presplitter_init matrixmult_splitter2 d ncores = Some (Inr ps) \<and>
    (\<forall>steps. mset steps = mset (concat (map (mm_cells n) (ps_ma ps))) \<longrightarrow>
      succeeds (mm_run (mm_write A B n) steps out) (\<lambda>out'. length out' = n * n \<and>
        (\<forall>a < n. \<forall>b < n. out' ! (n * a + b) = mm_prod A B n a b)))"
proof -
  have "mm2_good ncores d" "row_num d < matrix_len d"
    using assms by (auto simp: mm2_good_def)
  then obtain ps where ps: "presplitter_init matrixmult_splitter2 d ncores = Some (Inr ps)" "chain (\<lambda>_. True) 0 n (ps_ma ps)"
    using mm2.presplitter_init_covers [of ncores d] assms(5,6) by auto
  have "succeeds (mm_run (mm_write A B n) steps out) (\<lambda>out'. length out' = n * n \<and>
      (\<forall>a < n. \<forall>b < n. out' ! (n * a + b) = mm_prod A B n a b))"
    if "mset steps = mset (concat (map (mm_cells n) (ps_ma ps)))" for steps
  proof -
    have set: "set steps = {0..<n} \<times> {..<n}"
      using mset_eq_setD [OF that] chain_cells [OF ps(2)] by simp
    then show ?thesis
      using mm_run_writes [OF assms(1-4), of steps] by (auto elim!: succeeds_mono)
  qed
  with ps show ?thesis
    by blast
qed

theorem matrixmult_rows_witness:
  "\<exists>steps out'. mm_run (mm_write [1, 2, 3, 4] [5, 6, 7, 8] 2) steps [9, 9, 9, 9] = Inr out' \<and> length out' = 4 \<and>
     out' ! 0 = 19 \<and> out' ! 1 = 22 \<and> out' ! 2 = 43 \<and> out' ! 3 = 50"
proof -
  let ?d = "\<lparr>row_num = 0, startrow = 0, startcol = 0, matrix_len = 2, mm_nsplits = 2\<rparr>"
  have "\<exists>ps. presplitter_init matrixmult_splitter2 ?d 1 = Some (Inr ps) \<and>
      (\<forall>steps. mset steps = mset (concat (map (mm_cells 2) (ps_ma ps))) \<longrightarrow>
        succeeds (mm_run (mm_write [1, 2, 3, 4] [5, 6, 7, 8] 2) steps [9, 9, 9, 9]) (\<lambda>out'. length out' = 2 * 2 \<and>
          (\<forall>a < 2. \<forall>b < 2. out' ! (2 * a + b) = mm_prod [1, 2, 3, 4] [5, 6, 7, 8] 2 a b)))"
    by (rule matrixmult_rows [where m = 2]) simp_all
  then obtain steps where "succeeds (mm_run (mm_write [1, 2, 3, 4] [5, 6, 7, 8] 2) steps [9, 9, 9, 9]) (\<lambda>out'. length out' = 2 * 2 \<and>
      (\<forall>a < 2. \<forall>b < 2. out' ! (2 * a + b) = mm_prod [1, 2, 3, 4] [5, 6, 7, 8] 2 a b))"
    by blast
  then obtain out' where out': "mm_run (mm_write [1, 2, 3, 4] [5, 6, 7, 8] 2) steps [9, 9, 9, 9] = Inr out'" "length out' = 2 * 2"
      "\<And>a b. a < 2 \<Longrightarrow> b < 2 \<Longrightarrow> out' ! (2 * a + b) = mm_prod [1, 2, 3, 4] [5, 6, 7, 8] 2 a b"
    by (auto elim!: succeedsE)
  show ?thesis
    using out'(1,2) out'(3) [of 0 0] out'(3) [of 0 1] out'(3) [of 1 0] out'(3) [of 1 1]
    by (auto simp: mm_prod_def eval_nat_numeral)
qed

end
