(* ===== verification/App_Wr.thy ===== *)
theory App_Wr
  imports Wc_Run Sched_Sample
begin

text \<open>
  The reverse index of words (\<^verbatim>\<open>metis/app/wr.c\<close>, which reads a file, and
  \<^verbatim>\<open>metis/app/wrmem.c\<close>, which generates its input): every word with the places where it
  occurs. The application only groups; there is no reduce function. A value is the address of the
  first letter of an occurrence, in the model its offset in the input.
\<close>

section \<open>The callbacks\<close>

definition wr_max_key_len :: nat where
  "wr_max_key_len = 1024"

text \<open>
  The scan of a split. \<open>pos\<close> is the offset of the next character, \<open>key\<close> the filled part of
  \<^verbatim>\<open>tmp_key\<close> and \<open>index\<close> the offset of the word being read.
\<close>

fun wr_scan :: "nat \<Rightarrow> string \<Rightarrow> wc_state \<Rightarrow> string \<Rightarrow> nat \<Rightarrow> (string \<times> nat \<times> nat) list res" where
  "wr_scan pos [] st key index = Inr (if st = IN_WORD then [(key, index, length key)] else [])"
| "wr_scan pos (c # dat) IN_WORD key index =
     (let curr_ltr = c_toupper c in
      if \<not> is_word_char curr_ltr then
        res_bind (wr_scan (pos + 1) dat NOT_IN_WORD key index) (\<lambda>out. Inr ((key, index, length key) # out))
      else c_assert (length key + 1 < wr_max_key_len) (wr_scan (pos + 1) dat IN_WORD (key @ [curr_ltr]) index))"
| "wr_scan pos (c # dat) NOT_IN_WORD key index =
     (let curr_ltr = c_toupper c in
      if is_AZ curr_ltr then wr_scan (pos + 1) dat IN_WORD [curr_ltr] pos
      else wr_scan (pos + 1) dat NOT_IN_WORD key index)"

text \<open>The loop counter has 32 bits, so the loop over a longer split does not end.\<close>

definition wr_map :: "string \<Rightarrow> split \<Rightarrow> (string \<times> nat \<times> nat) list res" where
  "wr_map dat sp =
     (case sp of (a, l) \<Rightarrow>
      if 2 ^ 32 \<le> l then Inl Out_of_fuel else wr_scan a (take l (drop a dat)) NOT_IN_WORD [] 0)"

definition wrmem_map :: "string \<Rightarrow> split \<Rightarrow> (string \<times> nat \<times> nat) list res" where
  "wrmem_map dat sp = wr_map dat sp"

text \<open>The splitter of \<^verbatim>\<open>wr.c\<close> sets the number of splits after the test for the end, that of \<^verbatim>\<open>wrmem.c\<close> before it.\<close>

definition wr_splitter :: "wc_data splitter" where
  "wr_splitter d0 ncores =
     (if flen d0 \<le> fpos d0 then Inr (None, d0)
      else
        let d = (if nsplits d0 = 0 then d0\<lparr>nsplits := ncores * def_nsplits_per_core\<rparr> else d0) in
        if nsplits d = 0 then Inl Div_by_zero
        else
          let split_size = flen d div nsplits d;
              len0 = (if flen d < fpos d + split_size then flen d - fpos d else split_size);
              stop = wc_to_delim (fdata d) (flen d) (fpos d + len0)
          in Inr (Some (fpos d, stop - fpos d), d\<lparr>fpos := stop\<rparr>))"

definition wrmem_splitter :: "wc_data splitter" where
  "wrmem_splitter d0 ncores =
     (let d = (if nsplits d0 = 0 then d0\<lparr>nsplits := ncores * def_nsplits_per_core\<rparr> else d0) in
      if flen d \<le> fpos d then Inr (None, d)
      else if nsplits d = 0 then Inl Div_by_zero
      else
        let len0 = (if flen d < fpos d + flen d div nsplits d then flen d - fpos d else flen d div nsplits d);
            stop = wc_to_delim (fdata d) (flen d) (fpos d + len0)
        in Inr (Some (fpos d, stop - fpos d), d\<lparr>fpos := stop\<rparr>))"

definition wr_keycopy :: "string \<Rightarrow> nat \<Rightarrow> string" where
  "wr_keycopy src s = take s src"

definition wr_env :: "(string, nat) env" where
  "wr_env = \<lparr>atype = Atype_mapgroup, vm = None, combiner = None, reduce_func = None,
     keycmp = mystrcmp, mrkeycopy = Some wr_keycopy, null_key = []\<rparr>"

text \<open>The report: the number of occurrences of all words, and the first words with their counts.\<close>

definition wr_print_top :: "(string, nat) keyvals_len list \<Rightarrow> nat \<Rightarrow> 64 word \<times> (string \<times> nat) list" where
  "wr_print_top wc_vals ndisp =
     (foldl (\<lambda>n x. n + of_nat (kvl_len x)) 0 wc_vals,
      map (\<lambda>x. (kvl_key x, kvl_len x mod 2 ^ 32)) (take (min ndisp (length wc_vals)) wc_vals))"

section \<open>The programs\<close>

definition wr_param :: "wc_data splitter \<Rightarrow> nat \<Rightarrow> nat \<Rightarrow> nat \<Rightarrow> string \<Rightarrow> (string, nat, wc_data) mr_param" where
  "wr_param splitf nprocs map_tasks reduce_tasks dat =
     \<lparr>mp_env = wr_env,
      mp_results = Some \<lparr>res_kv = None, res_kvl = None, res_length = 0\<rparr>,
      mp_outcmp = \<lparr>out_kv_cmp = None, out_kvl_cmp = None\<rparr>,
      mp_tasks = reduce_tasks,
      mp_map_func = wr_map dat,
      mp_split_func = splitf,
      mp_split_arg = \<lparr>fpos = 0, flen = length dat, fdata = dat, nsplits = map_tasks\<rparr>,
      mp_part_func = None,
      mp_bytes = wc_bytes,
      mp_nr_cpus = nprocs\<rparr>"

definition wr_do_mapreduce :: "(string, nat) platform \<Rightarrow> nat list \<Rightarrow> nat list \<Rightarrow> nat list \<Rightarrow> nat \<Rightarrow> nat \<Rightarrow> nat \<Rightarrow> string
    \<Rightarrow> (string, nat) kvst \<Rightarrow> ((string, nat) app_results \<times> (string, nat) kvst) option res" where
  "wr_do_mapreduce pf ss msch rsch nprocs map_tasks reduce_tasks dat s =
     mr_run_scheduler (wr_param wr_splitter nprocs map_tasks reduce_tasks dat) pf ss msch rsch s"

definition wrmem_do_mapreduce :: "(string, nat) platform \<Rightarrow> nat list \<Rightarrow> nat list \<Rightarrow> nat list \<Rightarrow> nat \<Rightarrow> nat \<Rightarrow> nat \<Rightarrow> string
    \<Rightarrow> (string, nat) kvst \<Rightarrow> ((string, nat) app_results \<times> (string, nat) kvst) option res" where
  "wrmem_do_mapreduce pf ss msch rsch nprocs map_tasks reduce_tasks dat s =
     mr_run_scheduler ((wr_param wrmem_splitter nprocs map_tasks reduce_tasks dat)\<lparr>mp_map_func := wrmem_map dat\<rparr>) pf ss msch rsch s"

text \<open>The generated input of \<^verbatim>\<open>wrmem.c\<close>: words of three random letters, each followed by a space, and zeros up to the end.\<close>

definition rnd :: "32 word \<Rightarrow> 32 word \<times> 32 word" where
  "rnd seed = (let seed' = seed * 1103515245 + 12345 in (seed' AND 0x7fffffff, seed'))"

definition wordlength :: nat where
  "wordlength = 3"

fun rnd_word :: "nat \<Rightarrow> 32 word \<Rightarrow> string \<times> 32 word" where
  "rnd_word 0 seed = ([], seed)"
| "rnd_word (Suc j) seed =
     (case rnd seed of (r, seed1) \<Rightarrow>
      case rnd_word j seed1 of (w, seed2) \<Rightarrow> (char_of (unat (r mod 26) + 65) # w, seed2))"

fun rnd_words :: "nat \<Rightarrow> 32 word \<Rightarrow> string" where
  "rnd_words 0 seed = []"
| "rnd_words (Suc i) seed = (case rnd_word wordlength seed of (w, seed') \<Rightarrow> w @ CHR '' '' # rnd_words i seed')"

definition wrmem_input :: "nat \<Rightarrow> string" where
  "wrmem_input inputsize =
     (let ws = rnd_words (inputsize div (wordlength + 1)) 0 in ws @ replicate (inputsize - length ws) nul)"

section \<open>Occurrences of words\<close>

text \<open>The words of a text with their offsets, counted from \<open>p\<close>.\<close>

function occs :: "nat \<Rightarrow> string \<Rightarrow> (string \<times> nat) list" where
  "occs p [] = []"
| "occs p (c # s) =
     (if is_AZ c then (c # takeWhile is_word_char s, p) # occs (p + 1 + length (takeWhile is_word_char s)) (dropWhile is_word_char s)
      else occs (p + 1) s)"
  by pat_completeness auto

termination
  by (relation "measure (\<lambda>(p, s). length s)") (auto simp: length_dropWhile_le le_imp_less_Suc)

definition text_occs :: "string \<Rightarrow> (string \<times> nat) list" where
  "text_occs dat = occs 0 (map c_toupper dat)"

lemma occs_words: "map fst (occs p s) = words s"
  by (induction p s rule: occs.induct) (simp_all add: words_Cons)

lemma occs_append:
  assumes "b = [] \<or> \<not> is_word_char (hd b)"
  shows "occs p (a @ b) = occs p a @ occs (p + length a) b"
proof (induction p a rule: occs.induct)
  case (2 p c s)
  have t: "takeWhile is_word_char (s @ b) = takeWhile is_word_char s"
    "dropWhile is_word_char (s @ b) = dropWhile is_word_char s @ b"
    using assms by (induction s) (cases b; auto)+
  have "length (takeWhile is_word_char s) + length (dropWhile is_word_char s) = length s"
    by (metis length_append takeWhile_dropWhile_id)
  then show ?case
    using 2 by (simp add: t add.assoc)
qed simp

lemma wr_scan_occs:
  defines "short os \<equiv> \<forall>(w, i) \<in> set os. length w < wr_max_key_len"
  shows "let u = map c_toupper s in
    case st of
      NOT_IN_WORD \<Rightarrow> short (occs p u) \<longrightarrow> wr_scan p s st k i = Inr (map (\<lambda>(w, i). (w, i, length w)) (occs p u))
    | IN_WORD \<Rightarrow>
        let os = (k @ takeWhile is_word_char u, i) # occs (p + length (takeWhile is_word_char u)) (dropWhile is_word_char u)
        in short os \<longrightarrow> wr_scan p s st k i = Inr (map (\<lambda>(w, i). (w, i, length w)) os)"
proof (induction p s st k i rule: wr_scan.induct)
  case (2 pos c dat key index)
  then show ?case
    by (auto simp: Let_def short_def is_word_char_def)
next
  case (3 pos c dat key index)
  then show ?case
    by (auto simp: Let_def short_def)
qed (simp add: short_def split: wc_state.split)

lemma occs_chain:
  assumes "chain (wc_ends d) p (flen d) xs" "flen d = length (fdata d)" "p \<le> flen d"
  shows "occs p (map c_toupper (drop p (fdata d))) =
    concat (map (\<lambda>(a, l). occs a (map c_toupper (take l (drop a (fdata d))))) xs)"
  using assms
proof (induction "wc_ends d" p "flen d" xs rule: chain.induct)
  case (2 p a l xs)
  let ?rest = "drop (p + l) (fdata d)"
  have pl: "p + l \<le> flen d"
    using 2(2) by (auto simp: wc_ends_def)
  then have IH: "occs (p + l) (map c_toupper ?rest) =
      concat (map (\<lambda>(a, l). occs a (map c_toupper (take l (drop a (fdata d))))) xs)"
    using 2 by auto
  have "?rest = [] \<or> \<not> is_word_char (c_toupper (hd ?rest))"
    using 2(2,3) by (auto simp: wc_ends_def hd_drop_conv_nth wc_delim_not_word)
  then have "map c_toupper ?rest = [] \<or> \<not> is_word_char (hd (map c_toupper ?rest))"
    by (auto simp: hd_map)
  from occs_append [OF this, of p "map c_toupper (take l (drop p (fdata d)))"]
  have "occs p (map c_toupper (take l (drop p (fdata d)) @ ?rest)) =
      occs p (map c_toupper (take l (drop p (fdata d)))) @ occs (p + l) (map c_toupper ?rest)"
    using pl 2(3) by simp
  moreover have "take l (drop p (fdata d)) @ ?rest = drop p (fdata d)"
    by (metis append_take_drop_id add.commute drop_drop)
  ultimately show ?case
    using IH 2(2) by auto
qed simp

section \<open>The splitters\<close>

lemma wr_splitter_eq: "fpos d < flen d \<Longrightarrow> wr_splitter d nc = wordcount_splitter d nc"
  by (simp add: wr_splitter_def wordcount_splitter_def Let_def)

lemma wrmem_splitter_eq: "wc_good nc d \<Longrightarrow> wrmem_splitter d nc = wordcount_splitter d nc"
  by (auto simp: wrmem_splitter_def wordcount_splitter_def Let_def wc_good_def wc_nsplits_def)

interpretation wrsp: progress_splitter wr_splitter ncores "wc_good ncores" fpos flen wc_ends for ncores
proof unfold_locales
  fix s
  assume good: "wc_good ncores s"
  show "flen s \<le> fpos s \<Longrightarrow> succeeds (wr_splitter s ncores) (\<lambda>(r, s'). r = None)"
    by (simp add: wr_splitter_def)
  assume "fpos s < flen s"
  then show "succeeds (wr_splitter s ncores) (\<lambda>(r, s'). case r of None \<Rightarrow> False
      | Some (a, l) \<Rightarrow> a = fpos s \<and> 0 < l \<and> fpos s' = fpos s + l \<and> fpos s' \<le> flen s \<and>
          flen s' = flen s \<and> wc_good ncores s' \<and> wc_ends s' = wc_ends s \<and> wc_ends s (fpos s'))"
    using wcsp.split_next [OF good] by (simp add: wr_splitter_eq)
qed

interpretation wrmemsp: progress_splitter wrmem_splitter ncores "wc_good ncores" fpos flen wc_ends for ncores
proof unfold_locales
  fix s
  assume good: "wc_good ncores s"
  show "flen s \<le> fpos s \<Longrightarrow> succeeds (wrmem_splitter s ncores) (\<lambda>(r, s'). r = None)"
    using wcsp.split_end [OF good] by (simp add: wrmem_splitter_eq [OF good])
  assume "fpos s < flen s"
  then show "succeeds (wrmem_splitter s ncores) (\<lambda>(r, s'). case r of None \<Rightarrow> False
      | Some (a, l) \<Rightarrow> a = fpos s \<and> 0 < l \<and> fpos s' = fpos s + l \<and> fpos s' \<le> flen s \<and>
          flen s' = flen s \<and> wc_good ncores s' \<and> wc_ends s' = wc_ends s \<and> wc_ends s (fpos s'))"
    using wcsp.split_next [OF good] by (simp add: wrmem_splitter_eq [OF good])
qed

section \<open>The reverse index is a job\<close>

lemma wr_env_simps [simp]:
  "atype wr_env = Atype_mapgroup" "keycmp wr_env = mystrcmp" "vm wr_env = None" "combiner wr_env = None"
  "reduce_func wr_env = None" "mrkeycopy wr_env = Some wr_keycopy"
  by (simp_all add: wr_env_def)

interpretation wr: mr_env wr_env
  by (rule mr_env.intro) (simp add: mystrcmp_comparator)

interpretation wr_msets: value_summary wr_env mset
  by unfold_locales simp_all

interpretation wr_job: mr_job "wr_param f n m r dat" mset wc_hash for f n m r dat
proof (rule mr_job.intro)
  show "mr_env (mp_env (wr_param f n m r dat))" "value_summary (mp_env (wr_param f n m r dat)) mset"
    using wr.mr_env_axioms wr_msets.value_summary_axioms by (simp_all add: wr_param_def)
  show "hash_ok (mp_env (wr_param f n m r dat)) wc_hash"
    by (simp add: hash_ok_def wr_param_def mystrcmp_def c_strcmp_eq wc_hash_def)
qed (simp_all add: wr_param_def reduces_ok_def)

lemma wrmem_param: "(wr_param f n m r dat)\<lparr>mp_map_func := wrmem_map dat\<rparr> = wr_param f n m r dat"
  by (simp add: wr_param_def wrmem_map_def [abs_def])

definition occ_put :: "string \<times> nat \<Rightarrow> (string, nat) put" where
  "occ_put x = (fst x, snd x, length (fst x), wc_hash (fst x))"

definition wr_short :: "(string \<times> nat) list \<Rightarrow> bool" where
  "wr_short os \<longleftrightarrow> (\<forall>x \<in> set os. length (fst x) < wr_max_key_len)"

lemma occs_no_nul: "x \<in> set (occs p s) \<Longrightarrow> nul \<notin> set (fst x)"
  using words_no_nul [of s] unfolding occs_words [of p s, symmetric] by auto

lemma wr_part:
  assumes "nul \<notin> set w"
  shows "part_func (wr_param f n m r dat) w (length w) = Inr (wc_hash w)"
  using assms by (simp add: part_func_def wr_param_def default_hasher_def wc_bytes_def wc_hash_def c_str_id)

lemma wr_split:
  assumes "wr_short (occs b (map c_toupper (take l (drop b dat))))" "l < 2 ^ 32"
  shows "split_ok (wr_param f n m r dat) wc_hash (b, l)"
    and "split_puts (wr_param f n m r dat) wc_hash (b, l) = map occ_put (occs b (map c_toupper (take l (drop b dat))))"
proof -
  let ?os = "occs b (map c_toupper (take l (drop b dat)))"
  have map: "mp_map_func (wr_param f n m r dat) (b, l) = Inr (map (\<lambda>(w, i). (w, i, length w)) ?os)"
    using wr_scan_occs [where s = "take l (drop b dat)" and st = NOT_IN_WORD and p = b and k = "[]" and i = 0] assms
    by (auto simp: wr_param_def wr_map_def Let_def wr_short_def)
  have "part_func (wr_param f n m r dat) (fst x) (length (fst x)) = Inr (wc_hash (fst x))" if "x \<in> set ?os" for x
    by (rule wr_part [OF occs_no_nul [OF that]])
  then show "split_ok (wr_param f n m r dat) wc_hash (b, l)"
    by (auto simp: split_ok_def map case_prod_beta') (simp add: wr_param_def keycopy_ok_def copy_key_def wr_keycopy_def wr.kc.cmp_refl [simplified])
  show "split_puts (wr_param f n m r dat) wc_hash (b, l) = map occ_put ?os"
    by (simp add: split_puts_def map put_of_def occ_put_def case_prod_beta')
qed

lemma chain_member: "chain ends p q xs \<Longrightarrow> (a, l) \<in> set xs \<Longrightarrow> p \<le> a \<and> a + l \<le> q"
proof (induction ends p q xs rule: chain.induct)
  case (2 ends p q b l' xs)
  then show ?case
    using chain_length [of ends "p + l'" q xs] by auto
qed simp

lemma wr_splits:
  assumes sp: "progress_splitter splitf n (wc_good n) fpos flen wc_ends"
    and m: "0 < wc_nsplits \<lparr>fpos = 0, flen = length dat, fdata = dat, nsplits = m\<rparr> n"
      "wc_nsplits \<lparr>fpos = 0, flen = length dat, fdata = dat, nsplits = m\<rparr> n \<le> length dat"
    and short: "wr_short (text_occs dat)" "length dat < 2 ^ 32"
  obtains ps where "presplitter_init splitf \<lparr>fpos = 0, flen = length dat, fdata = dat, nsplits = m\<rparr> n = Some (Inr ps)"
    "length (ps_ma ps) \<le> length dat" "\<forall>sp \<in> set (ps_ma ps). split_ok (wr_param f c m r dat) wc_hash sp"
    "job_puts (wr_param f c m r dat) wc_hash (ps_ma ps) = map occ_put (text_occs dat)"
proof -
  let ?d = "\<lparr>fpos = 0, flen = length dat, fdata = dat, nsplits = m\<rparr>" and ?p = "wr_param f c m r dat"
  let ?os = "\<lambda>(b, l). occs b (map c_toupper (take l (drop b dat)))"
  have "wc_good n ?d" "fpos ?d < flen ?d"
    using m by (auto simp: wc_good_def)
  then obtain ps where ps: "presplitter_init splitf ?d n = Some (Inr ps)" "chain (wc_ends ?d) 0 (length dat) (ps_ma ps)"
    using progress_splitter.presplitter_init_covers [OF sp, of ?d] by auto
  have os: "text_occs dat = concat (map ?os (ps_ma ps))"
    using occs_chain [of ?d 0 "ps_ma ps"] ps(2) by (simp add: text_occs_def)
  have good: "wr_short (occs b (map c_toupper (take l (drop b dat))))" "l < 2 ^ 32" if "(b, l) \<in> set (ps_ma ps)" for b l
  proof -
    have "set (?os (b, l)) \<subseteq> set (text_occs dat)"
      unfolding os using that by force
    then show "wr_short (occs b (map c_toupper (take l (drop b dat))))"
      using short(1) by (auto simp: wr_short_def)
    show "l < 2 ^ 32"
      using chain_member [OF ps(2) that] short(2) by linarith
  qed
  have "split_puts ?p wc_hash sp = map occ_put (?os sp)" if "sp \<in> set (ps_ma ps)" for sp
    using wr_split(2) [OF good] that by (cases sp) auto
  then have "map (split_puts ?p wc_hash) (ps_ma ps) = map (map occ_put) (map ?os (ps_ma ps))"
    by simp
  then have puts: "job_puts ?p wc_hash (ps_ma ps) = map occ_put (text_occs dat)"
    unfolding job_puts_def os map_concat by (simp only:)
  have "\<forall>sp \<in> set (ps_ma ps). split_ok ?p wc_hash sp"
    using wr_split(1) [OF good] by auto
  then show thesis
    using that [OF ps(1)] chain_length [OF ps(2)] puts by simp
qed

text \<open>A reverse index of a list of occurrences: every word once, with the places where it occurs.\<close>

definition reverse_index :: "(string \<times> nat) list \<Rightarrow> (string, nat) keyvals_len list \<Rightarrow> bool" where
  "reverse_index os xs \<longleftrightarrow> distinct (map (\<lambda>x. c_str (kvl_key x)) xs) \<and> set (map (\<lambda>x. c_str (kvl_key x)) xs) = fst ` set os \<and>
     (\<forall>x \<in> set xs. \<exists>vs. kvl_vals x = VArr vs \<and> kvl_len x \<le> length vs \<and>
        mset (take (kvl_len x) vs) = mset (map snd (filter (\<lambda>q. fst q = c_str (kvl_key x)) os)))"

lemma key_values_occs:
  assumes "\<forall>x \<in> set os. nul \<notin> set (fst x)"
  shows "key_values wr_env k (mset (map occ_put os)) = mset (map snd (filter (\<lambda>q. fst q = c_str k) os))"
  using assms
proof (induction os)
  case (Cons x os)
  have "mystrcmp k (fst x) = 0 \<longleftrightarrow> fst x = c_str k"
    using Cons.prems by (auto simp: mystrcmp_def c_strcmp_eq c_str_id)
  with Cons show ?case
    by (simp add: key_values_def occ_put_def)
qed (simp add: key_values_def)

lemma reverse_index_result:
  assumes os: "\<forall>x \<in> set os. nul \<notin> set (fst x)"
    and job: "job_result wr_env mset (mset (map occ_put os)) (mset (map kvl_emit xs))"
  shows "reverse_index os xs"
proof -
  let ?T = "mset (map occ_put os)"
  obtain ks where ks: "mset (map kvl_key xs) = mset ks" "sorted_wrt (\<lambda>x y. keycmp wr_env x y \<noteq> 0) ks"
      "\<forall>k \<in> set ks. key_values wr_env k ?T \<noteq> {#}"
      "\<forall>x \<in> set xs. \<exists>vs. kvl_vals x = VArr vs \<and> kvl_len x \<le> length vs \<and> mset (take (kvl_len x) vs) = key_values wr_env (kvl_key x) ?T"
      "\<forall>q \<in># ?T. \<exists>k \<in> set ks. keycmp wr_env k (fst q) = 0"
    by (rule job_result_groups [OF job]) simp_all
  have cmp: "keycmp wr_env x y = 0 \<longleftrightarrow> c_str x = c_str y" for x y
    by (simp add: mystrcmp_def c_strcmp_eq)
  have "distinct (map c_str ks)"
    using ks(2) by (induction ks) (auto simp: mystrcmp_def c_strcmp_eq)
  moreover have keys: "mset (map c_str (map kvl_key xs)) = mset (map c_str ks)"
    using ks(1) by (metis mset_map)
  ultimately have "distinct (map c_str (map kvl_key xs))"
    by (metis mset_eq_imp_distinct_iff)
  moreover have "set (map c_str (map kvl_key xs)) = c_str ` set ks"
    using keys by (metis set_map set_mset_mset)
  moreover have "c_str ` set ks = fst ` set os"
  proof
    show "c_str ` set ks \<subseteq> fst ` set os"
      using ks(3) unfolding key_values_occs [OF os] by (force simp: filter_empty_conv)
    show "fst ` set os \<subseteq> c_str ` set ks"
    proof
      fix w
      assume "w \<in> fst ` set os"
      then obtain x where x: "x \<in> set os" "w = fst x"
        by blast
      then have "occ_put x \<in># ?T"
        by simp
      then obtain k where "k \<in> set ks" "c_str k = c_str w"
        using ks(5) x(2) unfolding cmp by (auto simp: occ_put_def)
      then show "w \<in> c_str ` set ks"
        using os x c_str_id by (metis image_eqI)
    qed
  qed
  ultimately show ?thesis
    using ks(4) unfolding reverse_index_def key_values_occs [OF os] by (simp add: comp_def)
qed

lemma wr_ready:
  assumes sp: "progress_splitter splitf n (wc_good n) fpos flen wc_ends"
    and n: "n = (if nprocs = 0 then core_count pf else nprocs)" "0 < n" "nprocs \<le> core_count pf"
    and m: "m = (if map_tasks = 0 then n * def_nsplits_per_core else map_tasks)" "m \<le> length dat"
    and size: "length dat + n < 2 ^ 31" and words: "wr_short (text_occs dat)"
    and sorts: "qsort_impl (sort_kv (qsorts pf))" "qsort_impl (sort_kvl (qsorts pf))"
  obtains ps where "run_ready (wr_param splitf nprocs map_tasks r dat) wc_hash pf ps"
    "run_cpus (wr_param splitf nprocs map_tasks r dat) pf = n" "length (ps_ma ps) \<le> length dat"
    "job_puts (wr_param splitf nprocs map_tasks r dat) wc_hash (ps_ma ps) = map occ_put (text_occs dat)"
    "length (text_occs dat) \<le> length dat"
proof -
  let ?p = "wr_param splitf nprocs map_tasks r dat"
  let ?d = "\<lparr>fpos = 0, flen = length dat, fdata = dat, nsplits = map_tasks\<rparr>"
  have cpus: "run_cpus ?p pf = n" and env: "mp_env ?p = wr_env" and split: "mp_split_func ?p = splitf" "mp_split_arg ?p = ?d"
    by (simp_all add: run_cpus_def wr_param_def n(1))
  have m': "wc_nsplits ?d n = m" "0 < m"
    using m n(2) by (auto simp: wc_nsplits_def def_nsplits_per_core_def)
  have "length dat < 2 ^ 32"
    using size by simp
  then obtain ps where ps: "presplitter_init splitf ?d n = Some (Inr ps)" "length (ps_ma ps) \<le> length dat"
      "\<forall>sp \<in> set (ps_ma ps). split_ok ?p wc_hash sp" "job_puts ?p wc_hash (ps_ma ps) = map occ_put (text_occs dat)"
    using wr_splits [OF sp, of dat map_tasks splitf nprocs r] m' m(2) words by metis
  have "length (map fst (text_occs dat)) \<le> length dat"
    using words_length [of "map c_toupper dat"] by (simp only: text_occs_def occs_words length_map)
  then have len: "length (text_occs dat) \<le> length dat"
    by simp
  have arg: "app_set_arg (mp_env ?p) (mp_results ?p) = Inr (out_kind (mp_env ?p))"
    by (simp add: app_set_arg_def wr_param_def uses_vm_def out_kind_def)
  have "merge_env_ok wr_env (mp_outcmp ?p) (qsorts pf)"
    using merge_env_default [of wr_env] mystrcmp_comparator sorts by (simp add: wr_param_def)
  then have "run_ready ?p wc_hash pf ps"
    using n size len ps arg unfolding run_ready_def cpus env split by (simp add: wr_param_def)
  then show thesis
    using that cpus ps(2,4) len by blast
qed

section \<open>The report\<close>

lemma sum_word_counts:
  assumes "distinct ks" "fst ` set os \<subseteq> set ks"
  shows "sum_list (map (\<lambda>k. length (filter (\<lambda>q. fst q = k) os)) ks) = length os"
  using assms(2)
proof (induction os)
  case (Cons x os)
  have "sum_list (map (\<lambda>k. length (filter (\<lambda>q. fst q = k) (x # os))) ks) =
      sum_list (map (\<lambda>k. (if fst x = k then 1 else 0) + length (filter (\<lambda>q. fst q = k) os)) ks)"
    by (intro arg_cong [of _ _ sum_list] map_cong) auto
  also have "\<dots> = sum_list (map (\<lambda>k. if fst x = k then 1 else 0) ks) + length os"
    using Cons by (simp add: sum_list_addf)
  also have "sum_list (map (\<lambda>k. if fst x = k then 1 else (0 :: nat)) ks) = 1"
    using assms(1) Cons.prems by (simp add: sum_list_distinct_conv_sum_set sum.delta)
  finally show ?case
    by simp
qed simp

lemma reverse_index_total:
  assumes "reverse_index os xs"
  shows "sum_list (map kvl_len xs) = length os"
proof -
  have "kvl_len x = length (filter (\<lambda>q. fst q = c_str (kvl_key x)) os)" if "x \<in> set xs" for x
  proof -
    obtain vs where vs: "kvl_len x \<le> length vs" "mset (take (kvl_len x) vs) = mset (map snd (filter (\<lambda>q. fst q = c_str (kvl_key x)) os))"
      using assms \<open>x \<in> set xs\<close> by (auto simp: reverse_index_def)
    then have "length (take (kvl_len x) vs) = length (map snd (filter (\<lambda>q. fst q = c_str (kvl_key x)) os))"
      by (metis mset_eq_length)
    with vs(1) show ?thesis
      by simp
  qed
  then have "map kvl_len xs = map (\<lambda>k. length (filter (\<lambda>q. fst q = k) os)) (map (\<lambda>x. c_str (kvl_key x)) xs)"
    by simp
  then show ?thesis
    using sum_word_counts [of "map (\<lambda>x. c_str (kvl_key x)) xs" os] assms unfolding reverse_index_def by (simp only:)
qed

lemma wr_print_total: "fst (wr_print_top xs ndisp) = of_nat (sum_list (map kvl_len xs))"
proof -
  have "foldl (\<lambda>n x. n + of_nat (kvl_len x)) a xs = a + of_nat (sum_list (map kvl_len xs))" for a :: "64 word"
    by (induction xs arbitrary: a) (simp_all add: add.assoc)
  then show ?thesis
    by (simp add: wr_print_top_def)
qed

section \<open>The generated input\<close>

lemma char_AZ:
  assumes "n < (26 :: nat)"
  shows "is_AZ (char_of (n + 65))" "c_toupper (char_of (n + 65)) = char_of (n + 65)"
  using assms by (simp_all add: is_AZ_def c_toupper_def Let_def)

lemma rnd_word_AZ:
  "rnd_word j seed = (w, seed') \<Longrightarrow> length w = j \<and> (\<forall>c \<in> set w. is_AZ c \<and> c_toupper c = c)"
proof (induction j arbitrary: seed w seed')
  case (Suc j)
  obtain r seed1 where r: "rnd seed = (r, seed1)"
    by (cases "rnd seed")
  obtain w1 seed2 where w1: "rnd_word j seed1 = (w1, seed2)"
    by (cases "rnd_word j seed1")
  have "unat (r mod 26) < 26"
    by (simp add: unat_mod)
  then show ?case
    using Suc.IH [OF w1] Suc.prems char_AZ by (auto simp: r w1)
qed simp

lemma occs_first_word:
  assumes "w \<noteq> []" "\<forall>c \<in> set w. is_AZ c" "\<not> is_word_char d"
  shows "occs p (w @ d # s) = (w, p) # occs (p + length w + 1) s"
proof -
  obtain c cs where w: "w = c # cs"
    using assms(1) by (cases w) auto
  have "\<forall>x \<in> set cs. is_word_char x"
    using assms(2) by (auto simp: w is_word_char_def)
  then have "takeWhile is_word_char (cs @ d # s) = cs" "dropWhile is_word_char (cs @ d # s) = d # s"
    using assms(3) by (simp_all add: takeWhile_append2 dropWhile_append2)
  moreover have "\<not> is_AZ d"
    using assms(3) by (auto simp: is_word_char_def)
  ultimately show ?thesis
    using assms(2) by (simp add: w)
qed

lemma occs_nuls: "occs p (map c_toupper (replicate k nul)) = []"
  by (induction k arbitrary: p) (simp_all add: c_toupper_def is_AZ_def)

lemma occs_rnd_words:
  "length (occs p (map c_toupper (rnd_words i seed @ replicate k nul))) = i \<and>
   (\<forall>x \<in> set (occs p (map c_toupper (rnd_words i seed @ replicate k nul))). length (fst x) = wordlength)"
proof (induction i arbitrary: p seed)
  case (Suc i)
  obtain w seed' where w: "rnd_word wordlength seed = (w, seed')"
    by (cases "rnd_word wordlength seed")
  note AZ = rnd_word_AZ [OF w]
  have "map c_toupper w = w"
    using AZ by (simp add: map_idI)
  moreover have "c_toupper (CHR '' '') = CHR '' ''" "\<not> is_word_char (CHR '' '')"
    by (simp_all add: c_toupper_def is_word_char_def is_AZ_def)
  moreover have "w \<noteq> []"
    using AZ by (auto simp: wordlength_def)
  ultimately have "occs p (map c_toupper (rnd_words (Suc i) seed @ replicate k nul)) =
      (w, p) # occs (p + length w + 1) (map c_toupper (rnd_words i seed' @ replicate k nul))"
    using AZ occs_first_word [of w "CHR '' ''" p "map c_toupper (rnd_words i seed' @ replicate k nul)"] by (simp add: w)
  then show ?case
    using Suc [of "p + length w + 1" seed'] AZ by simp
qed (simp only: rnd_words.simps append.simps occs_nuls, simp)

lemma rnd_words_length: "length (rnd_words i seed) = i * (wordlength + 1)"
proof (induction i arbitrary: seed)
  case (Suc i)
  then show ?case
    using rnd_word_AZ [of wordlength seed] by (auto split: prod.splits)
qed simp

lemma wrmem_input_occs:
  "length (text_occs (wrmem_input N)) = N div (wordlength + 1)" "wr_short (text_occs (wrmem_input N))"
  using occs_rnd_words [of 0 "N div (wordlength + 1)" 0]
  by (auto simp: text_occs_def wrmem_input_def Let_def wr_short_def wordlength_def wr_max_key_len_def)

lemma wrmem_input_length: "length (wrmem_input N) = N"
proof -
  have "N div (wordlength + 1) * (wordlength + 1) \<le> N"
    by (rule div_times_less_eq_dividend)
  then show ?thesis
    by (simp only: wrmem_input_def Let_def length_append length_replicate rnd_words_length le_add_diff_inverse)
qed

section \<open>Main results\<close>

text \<open>What a result of the job means for the caller.\<close>

definition indexes :: "(string \<times> nat) list \<Rightarrow> (string, nat) app_results \<Rightarrow> bool" where
  "indexes os res \<longleftrightarrow> reverse_index os (results_kvl res) \<and>
     csorted (\<lambda>x y. mystrcmp (kvl_key x) (kvl_key y)) (results_kvl res) \<and>
     (\<forall>ndisp. fst (wr_print_top (results_kvl res) ndisp) = of_nat (length os))"

lemma indexes_result:
  assumes "job_result wr_env mset (mset (map occ_put (text_occs dat))) (mset (results_emits wr_env res))"
    and "results_sorted wr_env \<lparr>out_kv_cmp = None, out_kvl_cmp = None\<rparr> res"
  shows "indexes (text_occs dat) res"
proof -
  have "reverse_index (text_occs dat) (results_kvl res)"
    using assms(1) occs_no_nul by (intro reverse_index_result) (auto simp: results_emits_def text_occs_def)
  then show ?thesis
    using assms(2) reverse_index_total
    by (simp add: indexes_def wr_print_total results_sorted_def rbkts_len_cmp_def [abs_def] kvl_get_key_def)
qed





end
