(* ===== verification/Gsl_Counts.thy ===== *)
theory Gsl_Counts
  imports Metis_Prelude "HOL-Library.Word"
begin

text \<open>
  The counters of a GSL lock, the lock manager for PostgreSQL in \<^verbatim>\<open>postgres/gsl\<close>. For each of
  eight modes a lock counts its holders and has a bit that says whether somebody waits. The
  counters exist twice: as arrays (\<^verbatim>\<open>lc-array.h\<close>, here with the suffix \<open>_arr\<close>), and packed into
  a 128-bit word that one instruction compares and swaps (\<^verbatim>\<open>lc-int128-impl.h\<close>), with 16 bits
  for a mode, the topmost of them the wait bit. The theory shows that the packed operations
  compute what the operations on arrays compute, as long as no count reaches \<open>2 ^ 15\<close>.
\<close>

unbundle bit_operations_syntax

section \<open>Counters as arrays (lc-array.h)\<close>

abbreviation (input) LC_MAX_MODES :: nat where
  "LC_MAX_MODES \<equiv> 8"

record lock_counts =
  active :: "32 word list"
  waiting :: "bool list"

definition LC_ZERO_arr :: lock_counts where
  "LC_ZERO_arr = \<lparr>active = replicate LC_MAX_MODES 0, waiting = replicate LC_MAX_MODES False\<rparr>"

definition lcSet_arr :: "lock_counts \<Rightarrow> lock_counts \<Rightarrow> lock_counts \<Rightarrow> bool \<times> lock_counts" where
  "lcSet_arr c old new =
     (if (\<forall>i<LC_MAX_MODES. active c ! i = active old ! i \<and> waiting c ! i = waiting old ! i)
      then (True, new) else (False, c))"

definition lcActive_arr :: "nat \<Rightarrow> lock_counts" where
  "lcActive_arr mode = LC_ZERO_arr\<lparr>active := (active LC_ZERO_arr)[mode := 1]\<rparr>"

definition lcSetWait_arr :: "lock_counts \<Rightarrow> nat \<Rightarrow> bool \<Rightarrow> lock_counts" where
  "lcSetWait_arr c mode w = c\<lparr>waiting := (waiting c)[mode := w]\<rparr>"

definition lcAdd_arr :: "lock_counts \<Rightarrow> lock_counts \<Rightarrow> lock_counts res" where
  "lcAdd_arr a b =
     c_assert (\<forall>i<LC_MAX_MODES. \<not> (waiting a ! i \<and> waiting b ! i))
       (Inr \<lparr>active = map (\<lambda>i. active a ! i + active b ! i) [0..<LC_MAX_MODES],
             waiting = map (\<lambda>i. waiting a ! i \<or> waiting b ! i) [0..<LC_MAX_MODES]\<rparr>)"

definition lcSubtract_arr :: "lock_counts \<Rightarrow> lock_counts \<Rightarrow> lock_counts res" where
  "lcSubtract_arr a b =
     c_assert (\<forall>i<LC_MAX_MODES. active b ! i \<le> active a ! i \<and> (waiting b ! i \<longrightarrow> waiting a ! i))
       (Inr \<lparr>active = map (\<lambda>i. active a ! i - active b ! i) [0..<LC_MAX_MODES],
             waiting = map (\<lambda>i. waiting a ! i \<noteq> waiting b ! i) [0..<LC_MAX_MODES]\<rparr>)"

definition lcNonZero_arr :: "lock_counts \<Rightarrow> bool" where
  "lcNonZero_arr c = (\<exists>i<LC_MAX_MODES. active c ! i \<noteq> 0 \<or> waiting c ! i)"

definition lcZero_arr :: "lock_counts \<Rightarrow> bool" where
  "lcZero_arr c = (\<not> lcNonZero_arr c)"

definition lcGetActive_arr :: "lock_counts \<Rightarrow> nat \<Rightarrow> 32 word" where
  "lcGetActive_arr c mode = active c ! mode"

text \<open>\<^verbatim>\<open>conflicts\<close> is the array of conflict masks: bit \<open>b\<close> of entry \<open>a\<close> says that the modes conflict.\<close>

definition CONFLICTS :: "32 word list \<Rightarrow> nat \<Rightarrow> nat \<Rightarrow> bool" where
  "CONFLICTS conflicts a b = (conflicts ! a AND push_bit b 1 \<noteq> 0)"

definition lcConflictMask_arr :: "32 word list \<Rightarrow> nat \<Rightarrow> bool \<Rightarrow> bool \<Rightarrow> lock_counts" where
  "lcConflictMask_arr conflicts mode act wtg =
     \<lparr>active = map (\<lambda>i. if CONFLICTS conflicts mode i \<and> act then NOT 0 else 0) [0..<LC_MAX_MODES],
      waiting = map (\<lambda>i. CONFLICTS conflicts mode i \<and> wtg) [0..<LC_MAX_MODES]\<rparr>"

definition lcAnd_arr :: "lock_counts \<Rightarrow> lock_counts \<Rightarrow> lock_counts" where
  "lcAnd_arr a b =
     \<lparr>active = map (\<lambda>i. active a ! i AND active b ! i) [0..<LC_MAX_MODES],
      waiting = map (\<lambda>i. waiting a ! i \<and> waiting b ! i) [0..<LC_MAX_MODES]\<rparr>"

definition lcOr_arr :: "lock_counts \<Rightarrow> lock_counts \<Rightarrow> lock_counts" where
  "lcOr_arr a b =
     \<lparr>active = map (\<lambda>i. active a ! i OR active b ! i) [0..<LC_MAX_MODES],
      waiting = map (\<lambda>i. waiting a ! i \<or> waiting b ! i) [0..<LC_MAX_MODES]\<rparr>"

definition lcMaskSet_arr :: lock_counts where
  "lcMaskSet_arr = \<lparr>active = replicate LC_MAX_MODES (NOT 0), waiting = replicate LC_MAX_MODES True\<rparr>"


section \<open>Counters packed into 128 bits (lc-int128-impl.h)\<close>

type_synonym lockCounts = "128 word"

abbreviation (input) LC_BITS_PER_MODE :: nat where
  "LC_BITS_PER_MODE \<equiv> 16"

definition LC_ACTIVE_MASK :: lockCounts where
  "LC_ACTIVE_MASK = 0x7FFF"

definition LC_WAIT_MASK :: lockCounts where
  "LC_WAIT_MASK = 0x8000"

definition LC_ZERO :: lockCounts where
  "LC_ZERO = 0"

text \<open>The conflict table has a mask for each choice of counts, wait bits and mode.\<close>

type_synonym conflictTable = "bool \<Rightarrow> bool \<Rightarrow> nat \<Rightarrow> lockCounts"

definition conflict_bits :: "32 word list \<Rightarrow> nat \<Rightarrow> lockCounts" where
  "conflict_bits conflicts i =
     fold (\<lambda>j bits. if CONFLICTS conflicts i j then bits OR push_bit (j * LC_BITS_PER_MODE) 1 else bits)
       [0..<length conflicts] 0"

definition lcInitConflictTable :: "32 word list \<Rightarrow> conflictTable" where
  "lcInitConflictTable conflicts act wtg i =
     (if i < length conflicts then conflict_bits conflicts i else 0) *
     ((if act then LC_ACTIVE_MASK else 0) OR (if wtg then LC_WAIT_MASK else 0))"

definition lcSet :: "lockCounts \<Rightarrow> lockCounts \<Rightarrow> lockCounts \<Rightarrow> bool \<times> lockCounts" where
  "lcSet c old new = (if c = old then (True, new) else (False, c))"

definition lcActive :: "nat \<Rightarrow> lockCounts" where
  "lcActive mode = push_bit (LC_BITS_PER_MODE * mode) 1"

definition lcSetWait :: "lockCounts \<Rightarrow> nat \<Rightarrow> bool \<Rightarrow> lockCounts" where
  "lcSetWait c mode w =
     (let b = push_bit (LC_BITS_PER_MODE * mode) LC_WAIT_MASK in if w then c OR b else c AND NOT b)"

definition lcAdd :: "lockCounts \<Rightarrow> lockCounts \<Rightarrow> lockCounts" where
  "lcAdd a b = a + b"

definition lcSubtract :: "lockCounts \<Rightarrow> lockCounts \<Rightarrow> lockCounts" where
  "lcSubtract a b = a - b"

definition lcNonZero :: "lockCounts \<Rightarrow> bool" where
  "lcNonZero c = (c \<noteq> 0)"

definition lcZero :: "lockCounts \<Rightarrow> bool" where
  "lcZero c = (c = 0)"

definition lcGetActive :: "lockCounts \<Rightarrow> nat \<Rightarrow> lockCounts" where
  "lcGetActive c mode = drop_bit (LC_BITS_PER_MODE * mode) c AND LC_ACTIVE_MASK"

definition lcConflictMask :: "conflictTable \<Rightarrow> nat \<Rightarrow> bool \<Rightarrow> bool \<Rightarrow> lockCounts" where
  "lcConflictMask conflicts mode act wtg = conflicts act wtg mode"

definition lcAnd :: "lockCounts \<Rightarrow> lockCounts \<Rightarrow> lockCounts" where
  "lcAnd a b = a AND b"

definition lcOr :: "lockCounts \<Rightarrow> lockCounts \<Rightarrow> lockCounts" where
  "lcOr a b = a OR b"

definition lcMaskSet :: lockCounts where
  "lcMaskSet = NOT 0"


section \<open>The modes of PostgreSQL (modes-pg.h)\<close>

datatype pg_mode = AccessShareLock | RowShareLock | RowExclusiveLock | ShareUpdateExclusiveLock
  | ShareLock | ShareRowExclusiveLock | ExclusiveLock | AccessExclusiveLock

primrec pg_num :: "pg_mode \<Rightarrow> nat" where
  "pg_num AccessShareLock = 0"
| "pg_num RowShareLock = 1"
| "pg_num RowExclusiveLock = 2"
| "pg_num ShareUpdateExclusiveLock = 3"
| "pg_num ShareLock = 4"
| "pg_num ShareRowExclusiveLock = 5"
| "pg_num ExclusiveLock = 6"
| "pg_num AccessExclusiveLock = 7"

definition mode_bits :: "pg_mode list \<Rightarrow> 32 word" where
  "mode_bits ms = fold (\<lambda>m w. w OR push_bit (pg_num m) 1) ms 0"

definition pg_conflicts :: "32 word list" where
  "pg_conflicts =
    [mode_bits [AccessExclusiveLock],
     mode_bits [ExclusiveLock, AccessExclusiveLock],
     mode_bits [ShareLock, ShareRowExclusiveLock, ExclusiveLock, AccessExclusiveLock],
     mode_bits [ShareUpdateExclusiveLock, ShareLock, ShareRowExclusiveLock, ExclusiveLock,
       AccessExclusiveLock],
     mode_bits [RowExclusiveLock, ShareUpdateExclusiveLock, ShareRowExclusiveLock, ExclusiveLock,
       AccessExclusiveLock],
     mode_bits [RowExclusiveLock, ShareUpdateExclusiveLock, ShareLock, ShareRowExclusiveLock,
       ExclusiveLock, AccessExclusiveLock],
     mode_bits [RowShareLock, RowExclusiveLock, ShareUpdateExclusiveLock, ShareLock,
       ShareRowExclusiveLock, ExclusiveLock, AccessExclusiveLock],
     mode_bits [AccessShareLock, RowShareLock, RowExclusiveLock, ShareUpdateExclusiveLock,
       ShareLock, ShareRowExclusiveLock, ExclusiveLock, AccessExclusiveLock]]"


section \<open>What a packed word counts\<close>

definition cnt :: "lockCounts \<Rightarrow> nat \<Rightarrow> nat" where
  "cnt c i = unat (lcGetActive c i)"

definition wbit :: "lockCounts \<Rightarrow> nat \<Rightarrow> bool" where
  "wbit c i = bit c (16 * i + 15)"

definition lc_unpack :: "lockCounts \<Rightarrow> lock_counts" where
  "lc_unpack c = \<lparr>active = map (\<lambda>i. word_of_nat (cnt c i)) [0..<LC_MAX_MODES],
                  waiting = map (wbit c) [0..<LC_MAX_MODES]\<rparr>"

text \<open>The 16 bits of a mode, as a digit of the word to the base \<open>2 ^ 16\<close>.\<close>

definition fld :: "lockCounts \<Rightarrow> nat \<Rightarrow> nat" where
  "fld c i = unat c div (2 ^ 16) ^ i mod 2 ^ 16"

primrec digits :: "(nat \<Rightarrow> nat) \<Rightarrow> nat \<Rightarrow> nat" where
  "digits f 0 = 0"
| "digits f (Suc n) = digits f n + f n * (2 ^ 16) ^ n"

lemma digits_less: "(\<And>i. i < n \<Longrightarrow> f i < 2 ^ 16) \<Longrightarrow> digits f n < (2 ^ 16) ^ n"
proof (induction n)
  case (Suc n)
  have "digits f n < (2 ^ 16) ^ n"
    using Suc by simp
  moreover have "f n * (2 ^ 16) ^ n \<le> (2 ^ 16 - 1) * (2 ^ 16) ^ n"
    using Suc.prems [of n] by (intro mult_right_mono) simp_all
  ultimately have "digits f (Suc n) < (2 ^ 16) ^ n + (2 ^ 16 - 1) * (2 ^ 16) ^ n"
    unfolding digits.simps by (rule add_less_le_mono)
  also have "\<dots> = (2 ^ 16) ^ Suc n"
    by simp
  finally show ?case .
qed simp

lemma digits_split:
  "k < n \<Longrightarrow> \<exists>r. digits f n = digits f k + (2 ^ 16) ^ k * (f k + 2 ^ 16 * r)"
proof (induction n)
  case (Suc n)
  show ?case
  proof (cases "k = n")
    case True
    then have "digits f (Suc n) = digits f k + (2 ^ 16) ^ k * (f k + 2 ^ 16 * 0)"
      by simp
    then show ?thesis ..
  next
    case False
    then obtain r where r: "digits f n = digits f k + (2 ^ 16) ^ k * (f k + 2 ^ 16 * r)"
      using Suc by auto
    obtain d where d: "n = Suc (k + d)"
      using False Suc.prems less_imp_Suc_add [of k n] by auto
    have "(2 ^ 16) ^ n = (2 ^ 16) ^ k * (2 ^ 16 * (2 ^ 16) ^ d :: nat)"
      unfolding d by (simp only: power_Suc power_add mult.commute mult.left_commute mult.assoc)
    then have "digits f (Suc n) = digits f k + (2 ^ 16) ^ k * (f k + 2 ^ 16 * (r + f n * (2 ^ 16) ^ d))"
      unfolding digits.simps r by (simp only: distrib_left mult.assoc mult.left_commute add.assoc)
    then show ?thesis ..
  qed
qed simp

lemma digits_at:
  assumes "k < n" "\<And>i. i < n \<Longrightarrow> f i < 2 ^ 16"
  shows "digits f n div (2 ^ 16) ^ k mod 2 ^ 16 = f k"
proof -
  obtain r where r: "digits f n = digits f k + (2 ^ 16) ^ k * (f k + 2 ^ 16 * r)"
    using digits_split assms(1) by blast
  have "digits f k < (2 ^ 16) ^ k"
    using assms by (intro digits_less) simp
  then have "digits f n div (2 ^ 16) ^ k = f k + 2 ^ 16 * r"
    unfolding r by (subst div_mult_self2) simp_all
  then show ?thesis
    using assms by (metis mod_less mod_mult_self2)
qed

lemma digits_of: "x < (2 ^ 16) ^ n \<Longrightarrow> digits (\<lambda>i. x div (2 ^ 16) ^ i mod 2 ^ 16) n = x"
proof -
  have "digits (\<lambda>i. x div (2 ^ 16) ^ i mod 2 ^ 16) n = x mod (2 ^ 16) ^ n"
  proof (induction n)
    case (Suc n)
    have "x mod ((2 ^ 16) ^ n * 2 ^ 16) = (2 ^ 16) ^ n * (x div (2 ^ 16) ^ n mod 2 ^ 16) + x mod (2 ^ 16) ^ n"
      by (rule mod_mult2_eq)
    then show ?case
      unfolding digits.simps Suc power_Suc2 by (simp only: mult.commute add.commute)
  qed simp
  then show "x < (2 ^ 16) ^ n \<Longrightarrow> digits (\<lambda>i. x div (2 ^ 16) ^ i mod 2 ^ 16) n = x"
    by simp
qed

lemma digits_add: "digits (\<lambda>i. f i + g i) n = digits f n + digits g n"
  by (induction n) (simp_all add: distrib_right)

lemma digits_cong: "(\<And>i. i < n \<Longrightarrow> f i = g i) \<Longrightarrow> digits f n = digits g n"
  by (induction n) simp_all

lemma unat_digits: "unat c = digits (fld c) 8"
proof -
  have "unat c < (2 ^ 16) ^ 8"
    using unsigned_less [of c] by simp
  then show ?thesis
    using digits_of [of "unat c" 8] unfolding fld_def by simp
qed

lemma fld_less [simp]: "fld c i < 65536"
  unfolding fld_def by simp

lemma fld_eqI: "(\<And>i. i < 8 \<Longrightarrow> fld a i = fld b i) \<Longrightarrow> a = b"
  using digits_cong [of 8 "fld a" "fld b"] by (simp add: unat_digits [symmetric] unsigned_word_eqI)

lemma fld_of_digits: "(\<And>i. i < 8 \<Longrightarrow> f i < 65536) \<Longrightarrow> i < 8 \<Longrightarrow> fld (word_of_nat (digits f 8)) i = f i"
  using digits_less [of 8 f] digits_at [of i 8 f] unfolding fld_def
  by (simp add: unsigned_of_nat take_bit_nat_eq_self)

lemma fld_add:
  assumes "\<And>i. i < 8 \<Longrightarrow> fld a i + fld b i < 65536" "i < 8"
  shows "fld (a + b) i = fld a i + fld b i"
proof -
  have "a + b = word_of_nat (digits (fld a) 8 + digits (fld b) 8)"
    by (simp add: unat_digits [symmetric])
  also have "\<dots> = word_of_nat (digits (\<lambda>i. fld a i + fld b i) 8)"
    by (simp only: digits_add)
  finally show ?thesis
    using fld_of_digits [of "\<lambda>i. fld a i + fld b i" i] assms by simp
qed

lemma fld_sub:
  assumes "\<And>i. i < 8 \<Longrightarrow> fld b i \<le> fld a i" "i < 8"
  shows "fld (a - b) i = fld a i - fld b i"
proof -
  define d :: lockCounts where "d = word_of_nat (digits (\<lambda>i. fld a i - fld b i) 8)"
  have d: "fld d i = fld a i - fld b i" if "i < 8" for i
    unfolding d_def using that by (subst fld_of_digits) (simp_all add: less_imp_diff_less)
  have "d + b = a"
  proof (rule fld_eqI)
    fix i :: nat
    assume "i < 8"
    then show "fld (d + b) i = fld a i"
      using d assms(1) by (subst fld_add) simp_all
  qed
  then show ?thesis
    using d [OF assms(2)] by auto
qed

lemma digits_mult: "digits (\<lambda>i. f i * m) n = digits f n * m"
  by (induction n) (simp_all add: distrib_right)

lemma fld_mult:
  assumes "\<And>i. i < 8 \<Longrightarrow> fld a i * m < 65536" "i < 8"
  shows "fld (a * word_of_nat m) i = fld a i * m"
proof -
  have "a * word_of_nat m = word_of_nat (digits (fld a) 8 * m)"
    by (simp add: unat_digits [symmetric])
  also have "\<dots> = word_of_nat (digits (\<lambda>i. fld a i * m) 8)"
    by (simp only: digits_mult)
  finally show ?thesis
    using fld_of_digits [of "\<lambda>i. fld a i * m" i] assms by simp
qed

lemma bit_fld: "i < 8 \<Longrightarrow> bit (fld c i) k \<longleftrightarrow> k < 16 \<and> bit c (16 * i + k)"
proof -
  have "fld c i = take_bit 16 (drop_bit (16 * i) (unat c))"
    unfolding fld_def power_mult [symmetric] take_bit_eq_mod drop_bit_eq_div ..
  then show "i < 8 \<Longrightarrow> bit (fld c i) k \<longleftrightarrow> k < 16 \<and> bit c (16 * i + k)"
    by (auto simp: bit_take_bit_iff bit_drop_bit_eq bit_unsigned_iff)
qed

lemma fld_bits:
  "i < 8 \<Longrightarrow> fld (a AND b) i = fld a i AND fld b i"
  "i < 8 \<Longrightarrow> fld (a OR b) i = fld a i OR fld b i"
  by (auto intro!: bit_eqI simp: bit_fld bit_and_iff bit_or_iff)

lemma cnt_fld: "cnt c i = fld c i mod 2 ^ 15"
proof -
  have m: "LC_ACTIVE_MASK = mask 15"
    unfolding LC_ACTIVE_MASK_def by (simp add: mask_eq_exp_minus_1)
  have "cnt c i = take_bit 15 (drop_bit (16 * i) (unat c))"
    unfolding cnt_def lcGetActive_def m
    by (auto intro!: bit_eqI simp: bit_and_iff bit_unsigned_iff bit_take_bit_iff bit_drop_bit_eq bit_mask_iff)
  also have "\<dots> = take_bit 15 (take_bit 16 (drop_bit (16 * i) (unat c)))"
    by simp
  finally show ?thesis
    unfolding fld_def power_mult [symmetric] take_bit_eq_mod drop_bit_eq_div .
qed

lemma wbit_fld: "i < 8 \<Longrightarrow> wbit c i \<longleftrightarrow> bit (fld c i) 15"
  unfolding wbit_def by (simp add: bit_fld)

lemma fld_eq: "i < 8 \<Longrightarrow> fld c i = cnt c i + (if wbit c i then 2 ^ 15 else 0)"
proof -
  assume i: "i < 8"
  have f: "fld c i = fld c i div 2 ^ 15 * 2 ^ 15 + fld c i mod 2 ^ 15"
    by (rule div_mult_mod_eq [symmetric])
  have "fld c i div 2 ^ 15 < 2"
    using fld_less [of c i] by (simp add: less_mult_imp_div_less)
  then have "fld c i div 2 ^ 15 = (if odd (fld c i div 2 ^ 15) then 1 else 0)"
    by (cases "fld c i div 2 ^ 15 = 0") auto
  then have "fld c i div 2 ^ 15 * 2 ^ 15 = (if odd (fld c i div 2 ^ 15) then 2 ^ 15 else 0)"
    by (metis mult_1 mult_0)
  then show ?thesis
    unfolding cnt_fld wbit_fld [OF i] bit_iff_odd using f by linarith
qed

lemma cnt_less: "cnt c i < 2 ^ 15"
  unfolding cnt_fld by simp


section \<open>The laws of the packed operations\<close>

lemma cnt_wbit_eqI:
  "(\<And>i. i < 8 \<Longrightarrow> cnt a i = cnt b i) \<Longrightarrow> (\<And>i. i < 8 \<Longrightarrow> wbit a i = wbit b i) \<Longrightarrow> a = b"
  by (rule fld_eqI) (simp add: fld_eq)

lemma field_split:
  assumes "i < 8" "fld c i = x + (if w then 2 ^ 15 else 0)" "x < 2 ^ 15"
  shows "cnt c i = x" "wbit c i = w"
  using assms cnt_less [of c i] fld_eq [of i c] by (auto split: if_splits)

lemma lcAdd_fields:
  assumes "\<And>i. i < 8 \<Longrightarrow> cnt a i + cnt b i < 2 ^ 15" "\<And>i. i < 8 \<Longrightarrow> \<not> (wbit a i \<and> wbit b i)" "i < 8"
  shows "cnt (lcAdd a b) i = cnt a i + cnt b i" "wbit (lcAdd a b) i = (wbit a i \<or> wbit b i)"
proof -
  have b: "fld a i + fld b i = (cnt a i + cnt b i) + (if wbit a i \<or> wbit b i then 2 ^ 15 else 0)" if "i < 8" for i
    using that assms(2) [OF that] by (simp add: fld_eq)
  moreover have "fld (lcAdd a b) i = fld a i + fld b i"
    unfolding lcAdd_def using b assms by (intro fld_add) (force simp: b)+
  ultimately show "cnt (lcAdd a b) i = cnt a i + cnt b i" "wbit (lcAdd a b) i = (wbit a i \<or> wbit b i)"
    using field_split [of i "lcAdd a b" "cnt a i + cnt b i"] assms by auto
qed

lemma lcSubtract_fields:
  assumes "\<And>i. i < 8 \<Longrightarrow> cnt b i \<le> cnt a i" "\<And>i. i < 8 \<Longrightarrow> wbit b i \<Longrightarrow> wbit a i" "i < 8"
  shows "cnt (lcSubtract a b) i = cnt a i - cnt b i" "wbit (lcSubtract a b) i = (wbit a i \<noteq> wbit b i)"
proof -
  have "fld (lcSubtract a b) i = fld a i - fld b i"
    unfolding lcSubtract_def using assms by (intro fld_sub) (auto simp: fld_eq trans_le_add1)
  also have "\<dots> = (cnt a i - cnt b i) + (if wbit a i \<noteq> wbit b i then 2 ^ 15 else 0)"
    using assms(1,2) [OF assms(3)] assms(3) by (simp add: fld_eq)
  finally show "cnt (lcSubtract a b) i = cnt a i - cnt b i" "wbit (lcSubtract a b) i = (wbit a i \<noteq> wbit b i)"
    using field_split [of i "lcSubtract a b"] assms(3) cnt_less [of a i] by (auto simp: less_imp_diff_less)
qed

lemma fld_bitI:
  "i < 8 \<Longrightarrow> x < 65536 \<Longrightarrow> (\<And>k. k < 16 \<Longrightarrow> bit c (16 * i + k) \<longleftrightarrow> bit x k) \<Longrightarrow> fld c i = x"
proof (rule bit_eqI)
  fix k
  assume a: "i < 8" "x < 65536" "\<And>k. k < 16 \<Longrightarrow> bit c (16 * i + k) \<longleftrightarrow> bit x k"
  have "x = take_bit 16 x"
    using a(2) by (simp add: take_bit_nat_eq_self)
  then have "bit x k \<Longrightarrow> k < 16"
    by (metis bit_take_bit_iff)
  then show "bit (fld c i) k = bit x k"
    using a by (auto simp: bit_fld)
qed

lemma lcActive_fields:
  assumes "m < 8" "i < 8"
  shows "cnt (lcActive m) i = (if i = m then 1 else 0)" "\<not> wbit (lcActive m) i"
proof -
  have "fld (lcActive m) i = (if i = m then 1 else 0)"
    using assms by (intro fld_bitI) (auto simp: lcActive_def bit_exp_iff bit_Suc_0_iff)
  then show "cnt (lcActive m) i = (if i = m then 1 else 0)" "\<not> wbit (lcActive m) i"
    using field_split [of i "lcActive m" "if i = m then 1 else 0" False] assms(2) by auto
qed

lemma lcZero_fields: "lcZero c \<longleftrightarrow> (\<forall>i<8. cnt c i = 0 \<and> \<not> wbit c i)"
proof -
  have "cnt 0 i = 0 \<and> \<not> wbit 0 i" for i
    unfolding cnt_fld wbit_def fld_def by simp
  then show ?thesis
    unfolding lcZero_def using cnt_wbit_eqI [of c 0] by auto
qed

lemma lcZero_and: "lcZero (lcAnd a b) \<longleftrightarrow> (\<forall>i<8. fld a i AND fld b i = 0)"
proof -
  have "c = 0 \<longleftrightarrow> (\<forall>i<8. fld c i = 0)" for c :: lockCounts
    using fld_eqI [of c 0] by (auto simp: fld_def)
  then show ?thesis
    unfolding lcZero_def lcAnd_def by (simp add: fld_bits)
qed

definition conf :: "32 word list \<Rightarrow> nat \<Rightarrow> nat \<Rightarrow> bool" where
  "conf cs i j \<longleftrightarrow> i < length cs \<and> j < length cs \<and> CONFLICTS cs i j"

lemma conflict_bits_from:
  assumes "n \<le> 8" "i < 8"
  shows "fld (fold (\<lambda>j bits. if P j then bits OR push_bit (j * 16) 1 else bits) [0..<n] 0) i
         = (if i < n \<and> P i then 1 else 0)"
  using assms(1)
proof (induction n)
  case 0
  then show ?case
    by (simp add: fld_def)
next
  case (Suc n)
  have "fld (push_bit (n * 16) 1) i = (if i = n then 1 else 0)"
    using Suc.prems assms(2) lcActive_fields [of n i] fld_eq [of i "lcActive n"]
    unfolding lcActive_def by (simp add: mult.commute)
  then show ?case
    using Suc assms(2) by (auto simp: fld_bits less_Suc_eq)
qed

lemma mask_fields:
  assumes "length cs \<le> 8" "i < 8"
  shows "fld (lcConflictMask (lcInitConflictTable cs) m act wtg) i =
    (if conf cs m i then (if act then 0x7FFF else 0) + (if wtg then 0x8000 else 0) else 0)"
proof -
  define k :: nat where "k = (if act then 0x7FFF else 0) + (if wtg then 0x8000 else 0)"
  have k: "(if act then LC_ACTIVE_MASK else 0) OR (if wtg then LC_WAIT_MASK else 0) = word_of_nat k"
    unfolding k_def LC_ACTIVE_MASK_def LC_WAIT_MASK_def by simp
  have b: "fld (if m < length cs then conflict_bits cs m else 0) i = (if conf cs m i then 1 else 0)"
    if "i < 8" for i
    using conflict_bits_from [of "length cs" i "CONFLICTS cs m"] assms(1) that
    unfolding conflict_bits_def conf_def by (simp add: fld_def [of 0])
  have "k < 65536"
    unfolding k_def by simp
  then show ?thesis
    unfolding lcConflictMask_def lcInitConflictTable_def k k_def [symmetric]
    using b assms(2) by (subst fld_mult) auto
qed

lemma and_fields:
  fixes x :: nat
  assumes "x < 2 ^ 15"
  shows "(x + (if w then 2 ^ 15 else 0)) AND ((if act then 0x7FFF else 0) + (if wtg then 0x8000 else 0)) = 0
    \<longleftrightarrow> (act \<longrightarrow> x = 0) \<and> (wtg \<longrightarrow> \<not> w)"
proof -
  define y where "y = x + (if w then 2 ^ 15 else 0)"
  have m: "y AND mask 15 = x" "y AND mask 16 = y"
    unfolding take_bit_eq_mask [symmetric] take_bit_eq_mod y_def using assms by auto
  have "(x + 2 ^ 15) div 2 ^ 15 = 1"
    using assms by (intro div_nat_eqI) simp_all
  then have w: "y AND 2 ^ 15 = 0 \<longleftrightarrow> \<not> w"
    unfolding and_exp_eq_0_iff_not_bit bit_iff_odd y_def using assms by auto
  have "y = 0 \<longleftrightarrow> x = 0 \<and> \<not> w"
    unfolding y_def by simp
  moreover have "mask 15 = (32767 :: nat)" "mask 16 = (65535 :: nat)" "2 ^ 15 = (32768 :: nat)"
    by (simp_all add: mask_eq_exp_minus_1)
  ultimately show ?thesis
    unfolding y_def [symmetric] using m w by (cases act; cases wtg) simp_all
qed

lemma conflict_test:
  assumes "length cs \<le> 8"
  shows "lcZero (lcAnd c (lcConflictMask (lcInitConflictTable cs) m act wtg)) \<longleftrightarrow>
    (\<forall>i<8. conf cs m i \<longrightarrow> (act \<longrightarrow> cnt c i = 0) \<and> (wtg \<longrightarrow> \<not> wbit c i))"
proof -
  have "fld c i AND fld (lcConflictMask (lcInitConflictTable cs) m act wtg) i = 0 \<longleftrightarrow>
      (conf cs m i \<longrightarrow> (act \<longrightarrow> cnt c i = 0) \<and> (wtg \<longrightarrow> \<not> wbit c i))" if "i < 8" for i
    unfolding mask_fields [OF assms that] fld_eq [OF that, of c]
    using and_fields [OF cnt_less, of c i "wbit c i" act wtg] by (cases "conf cs m i") auto
  then show ?thesis
    unfolding lcZero_and by blast
qed

lemma wait_bit: "m < 8 \<Longrightarrow> bit (push_bit (16 * m) LC_WAIT_MASK) n \<longleftrightarrow> n = 16 * m + 15"
proof -
  have w: "LC_WAIT_MASK = push_bit 15 1"
    unfolding LC_WAIT_MASK_def by simp
  show "m < 8 \<Longrightarrow> bit (push_bit (16 * m) LC_WAIT_MASK) n \<longleftrightarrow> n = 16 * m + 15"
    unfolding w push_bit_push_bit by (auto simp: bit_exp_iff)
qed

lemma below_wait_bit: "k < 15 \<Longrightarrow> 16 * i + k \<noteq> 16 * m + (15 :: nat)"
  by presburger

lemma cnt_bitI:
  assumes "i < 8" "\<And>k. k < 15 \<Longrightarrow> bit a (16 * i + k) = bit b (16 * i + k)"
  shows "cnt a i = cnt b i"
  unfolding cnt_fld take_bit_eq_mod [symmetric]
  using assms by (auto intro!: bit_eqI simp: bit_take_bit_iff bit_fld)

lemma set_wait_fields:
  assumes "m < 8" "i < 8"
  shows "cnt (lcOr c (lcSetWait LC_ZERO m True)) i = cnt c i"
    "wbit (lcOr c (lcSetWait LC_ZERO m True)) i \<longleftrightarrow> i = m \<or> wbit c i"
proof -
  have b: "bit (lcOr c (lcSetWait LC_ZERO m True)) n \<longleftrightarrow> bit c n \<or> n = 16 * m + 15" for n
    unfolding lcOr_def lcSetWait_def LC_ZERO_def Let_def using wait_bit [OF assms(1), of n]
    by (simp add: bit_or_iff)
  show "cnt (lcOr c (lcSetWait LC_ZERO m True)) i = cnt c i"
    using assms(2) by (intro cnt_bitI) (simp_all add: b below_wait_bit)
  show "wbit (lcOr c (lcSetWait LC_ZERO m True)) i \<longleftrightarrow> i = m \<or> wbit c i"
    unfolding wbit_def b by auto
qed

lemma clear_wait_fields:
  assumes "m < 8" "i < 8"
  shows "cnt (lcAnd c (lcSetWait lcMaskSet m False)) i = cnt c i"
    "wbit (lcAnd c (lcSetWait lcMaskSet m False)) i \<longleftrightarrow> i \<noteq> m \<and> wbit c i"
proof -
  have b: "bit (lcAnd c (lcSetWait lcMaskSet m False)) n \<longleftrightarrow> bit c n \<and> n \<noteq> 16 * m + 15" for n
    unfolding lcAnd_def lcSetWait_def lcMaskSet_def Let_def using wait_bit [OF assms(1), of n] bit_imp_le_length [of c n]
    by (auto simp: bit_and_iff bit_not_iff)
  show "cnt (lcAnd c (lcSetWait lcMaskSet m False)) i = cnt c i"
    using assms(2) by (intro cnt_bitI) (simp_all add: b below_wait_bit)
  show "wbit (lcAnd c (lcSetWait lcMaskSet m False)) i \<longleftrightarrow> i \<noteq> m \<and> wbit c i"
    unfolding wbit_def b by auto
qed

lemma lcAnd_MaskSet [simp]: "lcAnd c lcMaskSet = c"
  unfolding lcAnd_def lcMaskSet_def by simp


section \<open>The packed counters refine the arrays\<close>

lemma unpack_nth [simp]:
  "i < 8 \<Longrightarrow> active (lc_unpack c) ! i = word_of_nat (cnt c i)"
  "i < 8 \<Longrightarrow> waiting (lc_unpack c) ! i = wbit c i"
  unfolding lc_unpack_def by simp_all

lemma unpack_eqI:
  assumes "\<And>i. i < 8 \<Longrightarrow> f i = word_of_nat (cnt c i)" "\<And>i. i < 8 \<Longrightarrow> g i = wbit c i"
  shows "\<lparr>active = map f [0..<8], waiting = map g [0..<8]\<rparr> = lc_unpack c"
  unfolding lc_unpack_def using assms by simp

lemma unat_cnt [simp]: "unat (word_of_nat (cnt c i) :: 32 word) = cnt c i"
  using cnt_less [of c i] by (simp add: unsigned_of_nat take_bit_nat_eq_self)

lemma cnt_word_zero: "(word_of_nat (cnt c i) :: 32 word) = 0 \<longleftrightarrow> cnt c i = 0"
  by (simp only: unat_eq_0 [symmetric] unat_cnt)

lemma unpack_inject: "lc_unpack a = lc_unpack b \<longleftrightarrow> a = b"
proof
  assume e: "lc_unpack a = lc_unpack b"
  show "a = b"
  proof (rule cnt_wbit_eqI)
    fix i :: nat
    assume i: "i < 8"
    show "cnt a i = cnt b i"
    proof -
      have "unat (active (lc_unpack a) ! i) = unat (active (lc_unpack b) ! i)"
        unfolding e ..
      then show ?thesis
        using i by simp
    qed
    show "wbit a i = wbit b i"
      using unpack_nth(2) [OF i, of a] unpack_nth(2) [OF i, of b] e by simp
  qed
qed simp

lemma lcAdd_refines:
  assumes "\<And>i. i < 8 \<Longrightarrow> cnt a i + cnt b i < 2 ^ 15" "\<And>i. i < 8 \<Longrightarrow> \<not> (wbit a i \<and> wbit b i)"
  shows "lcAdd_arr (lc_unpack a) (lc_unpack b) = Inr (lc_unpack (lcAdd a b))"
  unfolding lcAdd_arr_def using assms
  by (auto simp: c_assert_def lcAdd_fields intro!: unpack_eqI)

lemma lcSubtract_refines:
  assumes "lcSubtract_arr (lc_unpack a) (lc_unpack b) = Inr r"
  shows "r = lc_unpack (lcSubtract a b)"
proof -
  have le: "cnt b i \<le> cnt a i" "wbit b i \<longrightarrow> wbit a i" if "i < 8" for i
  proof -
    have "active (lc_unpack b) ! i \<le> active (lc_unpack a) ! i \<and> (waiting (lc_unpack b) ! i \<longrightarrow> waiting (lc_unpack a) ! i)"
      using assms that unfolding lcSubtract_arr_def by simp
    then show "cnt b i \<le> cnt a i" "wbit b i \<longrightarrow> wbit a i"
      using that by (simp_all add: word_le_nat_alt)
  qed
  have "r = \<lparr>active = map (\<lambda>i. active (lc_unpack a) ! i - active (lc_unpack b) ! i) [0..<8],
             waiting = map (\<lambda>i. waiting (lc_unpack a) ! i \<noteq> waiting (lc_unpack b) ! i) [0..<8]\<rparr>"
    using assms unfolding lcSubtract_arr_def by simp
  also have "\<dots> = lc_unpack (lcSubtract a b)"
    using le by (intro unpack_eqI) (simp_all add: lcSubtract_fields of_nat_diff)
  finally show ?thesis .
qed

lemma cnt_and: "i < 8 \<Longrightarrow> cnt (lcAnd a b) i = cnt a i AND cnt b i"
  unfolding cnt_fld lcAnd_def take_bit_eq_mod [symmetric] by (simp add: fld_bits take_bit_and)

lemma cnt_or: "i < 8 \<Longrightarrow> cnt (lcOr a b) i = cnt a i OR cnt b i"
  unfolding cnt_fld lcOr_def take_bit_eq_mod [symmetric] by (simp add: fld_bits take_bit_or)

lemma wbit_and: "wbit (lcAnd a b) i \<longleftrightarrow> wbit a i \<and> wbit b i"
  unfolding wbit_def lcAnd_def by (simp add: bit_and_iff)

lemma wbit_or: "wbit (lcOr a b) i \<longleftrightarrow> wbit a i \<or> wbit b i"
  unfolding wbit_def lcOr_def by (simp add: bit_or_iff)

lemma lcAnd_refines: "lcAnd_arr (lc_unpack a) (lc_unpack b) = lc_unpack (lcAnd a b)"
  unfolding lcAnd_arr_def
  by (intro unpack_eqI) (simp_all add: cnt_and wbit_and of_nat_and_eq)

lemma lcOr_refines: "lcOr_arr (lc_unpack a) (lc_unpack b) = lc_unpack (lcOr a b)"
  unfolding lcOr_arr_def
  by (intro unpack_eqI) (simp_all add: cnt_or wbit_or of_nat_or_eq)

lemma lcZero_refines: "lcZero_arr (lc_unpack c) = lcZero c"
  unfolding lcZero_arr_def lcNonZero_arr_def lcZero_fields by (auto simp: cnt_word_zero)

lemma lcActive_refines: "m < 8 \<Longrightarrow> lcActive_arr m = lc_unpack (lcActive m)"
  unfolding lcActive_arr_def LC_ZERO_arr_def
  by (subst unpack_eqI [symmetric, where f = "\<lambda>i. if i = m then 1 else 0" and g = "\<lambda>i. False"])
    (auto simp: lcActive_fields nth_list_update intro!: nth_equalityI)

text \<open>A mask of the arrays has all 32 bits set; only what it leaves of a count matters.\<close>

lemma lcConflictMask_refines:
  assumes "length cs = 8" "m < 8"
  shows "lcAnd_arr (lc_unpack a) (lcConflictMask_arr cs m act wtg) =
         lc_unpack (lcAnd a (lcConflictMask (lcInitConflictTable cs) m act wtg))"
proof -
  let ?k = "lcConflictMask (lcInitConflictTable cs) m act wtg"
  have k: "cnt ?k i = (if CONFLICTS cs m i \<and> act then mask 15 else 0)" "wbit ?k i = (CONFLICTS cs m i \<and> wtg)"
    if "i < 8" for i
  proof -
    have "fld ?k i = (if CONFLICTS cs m i \<and> act then 0x7FFF else 0) + (if CONFLICTS cs m i \<and> wtg then 2 ^ 15 else 0)"
      using mask_fields [of cs i m act wtg] that assms unfolding conf_def by simp
    from field_split [OF that this]
    show "cnt ?k i = (if CONFLICTS cs m i \<and> act then mask 15 else 0)" "wbit ?k i = (CONFLICTS cs m i \<and> wtg)"
      by (simp_all add: mask_eq_exp_minus_1)
  qed
  have "cnt a i AND mask 15 = cnt a i" for i
    using cnt_less [of a i] by (simp add: take_bit_eq_mask [symmetric] take_bit_nat_eq_self)
  then show ?thesis
    unfolding lcAnd_arr_def lcConflictMask_arr_def
    by (intro unpack_eqI) (auto simp: k cnt_and wbit_and)
qed

text \<open>
  C11. The packed counters refine the counters as arrays: when no wait bit is added twice and no
  count reaches \<open>2 ^ 15\<close>, adding packed words is adding arrays; whenever the assertions of the
  array subtraction hold, the packed subtraction gives the same counters; and the conflict test,
  which decides whether a lock is granted, has the same outcome on both.
\<close>

theorem lc_int128_refines_array:
  assumes "length cs = 8" "m < 8"
  shows
    "((\<forall>i<8. cnt a i + cnt b i < 2 ^ 15 \<and> \<not> (wbit a i \<and> wbit b i)) \<longrightarrow>
       lcAdd_arr (lc_unpack a) (lc_unpack b) = Inr (lc_unpack (lcAdd a b))) \<and>
     (\<forall>r. lcSubtract_arr (lc_unpack a) (lc_unpack b) = Inr r \<longrightarrow> r = lc_unpack (lcSubtract a b)) \<and>
     lcZero_arr (lcAnd_arr (lc_unpack a) (lcConflictMask_arr cs m act wtg)) =
       lcZero (lcAnd a (lcConflictMask (lcInitConflictTable cs) m act wtg))"
  using lcAdd_refines [of a b] lcSubtract_refines [of a b]
  by (simp add: lcConflictMask_refines [OF assms] lcZero_refines)

text \<open>One holder of mode 7 is added to one holder of mode 0, and conflicts with mode 0.\<close>

theorem lc_int128_refines_array_witness:
  "lcAdd_arr (lc_unpack (lcActive 0)) (lc_unpack (lcActive 7)) = Inr (lc_unpack (lcAdd (lcActive 0) (lcActive 7))) \<and>
   lcZero_arr (lcAnd_arr (lc_unpack (lcActive 0)) (lcConflictMask_arr pg_conflicts 7 True True)) =
     lcZero (lcAnd (lcActive 0) (lcConflictMask (lcInitConflictTable pg_conflicts) 7 True True))"
proof -
  have "length pg_conflicts = 8"
    by (simp add: pg_conflicts_def)
  moreover have "\<forall>i<8. cnt (lcActive 0) i + cnt (lcActive 7) i < 2 ^ 15 \<and> \<not> (wbit (lcActive 0) i \<and> wbit (lcActive 7) i)"
    by (simp add: lcActive_fields)
  ultimately show ?thesis
    using lc_int128_refines_array [of pg_conflicts 7 "lcActive 0" "lcActive 7" True True] by simp
qed

end
