(* ===== verification/Gsl.thy ===== *)
theory Gsl
  imports Gsl_Counts
begin

text \<open>
  The lock manager itself (\<^verbatim>\<open>postgres/gsl/gsl-impl.h\<close>, \<^verbatim>\<open>gsl-header.h\<close>): a lock that processes
  hold in modes, with a packed counter that is compared and swapped on the fast path, and a
  queue of waiting processes under a mutex on the slow path. One lock and its processes are modelled.

  A process runs through its call by steps, numbered by \<open>gsl_pc\<close>. Each atomic read of the
  counter (\<^verbatim>\<open>lcGet\<close>), each compare and swap (\<^verbatim>\<open>lcSet\<close>), taking the mutex, releasing it and
  being woken is a step of its own; the queue is only touched by the holder of the mutex, and what
  the holder does to it between two of these operations belongs to one step. The steps of the processes interleave arbitrarily.

  The header asks its user for a mutex, for a way to sleep that also lets go of the mutex, and for
  a way to wake a process, possibly before it sleeps. They are modelled by what it asks of
  them: the mutex by its holder, and a wake-up by a flag that ends the next sleep. The statistics
  counters are left out, as the header allows them to do nothing.
\<close>

section \<open>State\<close>

text \<open>A link is the address of a pointer to a process: \<^verbatim>\<open>&lock->waiter\<close> or \<^verbatim>\<open>&proc->lockNext\<close>.\<close>

datatype link = L_waiter | L_next nat

datatype wake_caller = By_acquire nat | By_release

datatype gsl_pc = is_Idle: Idle
  | Try nat | Try_set nat lockCounts
  | Acq nat | Acq_set nat lockCounts
  | Slow nat | Undo nat | Undo_set nat lockCounts | Enq nat
  | Wake wake_caller link | Wake_set wake_caller link lockCounts | Wake_grant wake_caller link
  | Sleep_in nat | Asleep nat
  | Rel nat | Rel_set nat lockCounts | Rel_slow | Rel_unlock
  | Cancel_in

text \<open>The three structures of a process, its flag of a wake-up, and the results of its last call.\<close>

record gsl_proc =
  lockNext :: "nat option"
  wantMode :: nat
  isUpgrade :: bool
  waitHolding :: lockCounts
  awaitedLock :: bool
  holding :: lockCounts
  pc :: gsl_pc
  woken :: bool
  res_ok :: bool
  lastLocalHold :: bool
  lastHold :: bool

record gsl_state =
  lock_c :: lockCounts
  queueLock :: "nat option"
  waiter :: "nat option"
  waiterTail :: "link option"
  waitCounts :: "int list"
  procs :: "nat \<Rightarrow> gsl_proc"

definition gslLockInit :: gsl_state where
  "gslLockInit = \<lparr>lock_c = LC_ZERO, queueLock = None, waiter = None, waiterTail = None,
     waitCounts = replicate LC_MAX_MODES 0,
     procs = (\<lambda>_. \<lparr>lockNext = None, wantMode = 0, isUpgrade = False, waitHolding = LC_ZERO,
       awaitedLock = False, holding = LC_ZERO, pc = Idle, woken = False, res_ok = False,
       lastLocalHold = False, lastHold = False\<rparr>)\<rparr>"

definition upd :: "nat \<Rightarrow> (gsl_proc \<Rightarrow> gsl_proc) \<Rightarrow> gsl_state \<Rightarrow> gsl_state" where
  "upd p f s = s\<lparr>procs := (procs s)(p := f (procs s p))\<rparr>"

definition goto :: "nat \<Rightarrow> gsl_pc \<Rightarrow> gsl_state \<Rightarrow> gsl_state" where
  "goto p k = upd p (\<lambda>x. x\<lparr>pc := k\<rparr>)"

fun link_get :: "gsl_state \<Rightarrow> link \<Rightarrow> nat option" where
  "link_get s L_waiter = waiter s"
| "link_get s (L_next q) = lockNext (procs s q)"

fun link_set :: "link \<Rightarrow> nat option \<Rightarrow> gsl_state \<Rightarrow> gsl_state" where
  "link_set L_waiter v s = s\<lparr>waiter := v\<rparr>"
| "link_set (L_next q) v s = upd q (\<lambda>x. x\<lparr>lockNext := v\<rparr>) s"

text \<open>The processes of the queue; \<open>n\<close> is the number of processes, and a longer chain is a cycle.\<close>

fun queue_from :: "gsl_state \<Rightarrow> nat \<Rightarrow> nat option \<Rightarrow> nat list res" where
  "queue_from s n None = Inr []"
| "queue_from s 0 (Some q) = Inl Out_of_fuel"
| "queue_from s (Suc n) (Some q) =
     res_bind (queue_from s n (lockNext (procs s q))) (\<lambda>qs. Inr (q # qs))"


section \<open>Waking the waiters\<close>

text \<open>The part of \<^verbatim>\<open>wake\<close> before its loop: under \<^verbatim>\<open>GSL_PARANOID\<close> the wait counts are compared with the queue.\<close>

definition wake_begin :: "nat \<Rightarrow> nat \<Rightarrow> wake_caller \<Rightarrow> gsl_state \<Rightarrow> gsl_state res" where
  "wake_begin n p k s =
     c_assert (queueLock s \<noteq> None)
       (res_bind (queue_from s n (waiter s)) (\<lambda>qs.
          c_assert (\<forall>i<LC_MAX_MODES. waitCounts s ! i =
              int (length (filter (\<lambda>q. wantMode (procs s q) = i) qs)))
            (Inr (goto p (Wake k L_waiter) s))))"

primrec wake_return :: "nat \<Rightarrow> wake_caller \<Rightarrow> gsl_state \<Rightarrow> gsl_state" where
  "wake_return p (By_acquire mode) s = goto p (Sleep_in mode) s"
| "wake_return p By_release s = goto p Rel_unlock s"

text \<open>The loop of \<^verbatim>\<open>wake\<close>: \<open>l\<close> is \<^verbatim>\<open>prevLink\<close>.\<close>

definition wake_test :: "conflictTable \<Rightarrow> nat \<Rightarrow> wake_caller \<Rightarrow> link \<Rightarrow> gsl_state \<Rightarrow> gsl_state" where
  "wake_test tbl p k l s =
     (case link_get s l of
        None \<Rightarrow> wake_return p k s
      | Some q \<Rightarrow>
          (let y = procs s q; preCounts = lock_c s;
               conflictMask = lcConflictMask tbl (wantMode y) True False;
               otherCounts = lcSubtract preCounts (waitHolding y) in
           if lcNonZero (lcAnd otherCounts conflictMask)
           then (if isUpgrade y then goto p (Wake k (L_next q)) s else wake_return p k s)
           else goto p (Wake_set k l preCounts) s))"

definition wake_cas :: "nat \<Rightarrow> wake_caller \<Rightarrow> link \<Rightarrow> lockCounts \<Rightarrow> gsl_state \<Rightarrow> gsl_state res" where
  "wake_cas p k l preCounts s =
     (case link_get s l of
        None \<Rightarrow> Inl Null_deref
      | Some q \<Rightarrow>
          (let mode = wantMode (procs s q);
               waitMask = (if waitCounts s ! mode = 1 then lcSetWait lcMaskSet mode False else lcMaskSet);
               counts = lcAnd (lcAdd preCounts (lcActive mode)) waitMask in
           case lcSet (lock_c s) preCounts counts of
             (True, c) \<Rightarrow> Inr (goto p (Wake_grant k l) (s\<lparr>lock_c := c\<rparr>))
           | (False, _) \<Rightarrow> Inr (goto p (Wake k l) s)))"

definition wake_grant :: "nat \<Rightarrow> wake_caller \<Rightarrow> link \<Rightarrow> gsl_state \<Rightarrow> gsl_state res" where
  "wake_grant p k l s =
     (case link_get s l of
        None \<Rightarrow> Inl Null_deref
      | Some q \<Rightarrow>
          (let mode = wantMode (procs s q);
               s1 = upd q (\<lambda>y. y\<lparr>woken := True\<rparr>) s;
               s2 = s1\<lparr>waitCounts := (waitCounts s1)[mode := waitCounts s1 ! mode - 1]\<rparr>;
               s3 = link_set l (lockNext (procs s2 q)) s2;
               s4 = upd q (\<lambda>y. y\<lparr>lockNext := None\<rparr>) s3 in
           Inr (goto p (Wake k l) s4)))"


section \<open>Acquiring\<close>

definition gslAcquire_call :: "nat \<Rightarrow> nat \<Rightarrow> bool \<Rightarrow> gsl_state \<Rightarrow> gsl_state res" where
  "gslAcquire_call p mode dontWait s =
     (let x = procs s p in
      c_assert (\<not> awaitedLock x) (c_assert (lcGetActive (holding x) mode = 0)
        (Inr (goto p (if dontWait then Try mode else Acq mode) s))))"

text \<open>Whoever already holds the lock may overtake waiters: the wait bits are then not in the mask.\<close>

definition acquire_free :: "conflictTable \<Rightarrow> gsl_proc \<Rightarrow> nat \<Rightarrow> lockCounts \<Rightarrow> bool" where
  "acquire_free tbl x mode preCounts =
     (let holdLock = lcNonZero (holding x);
          conflictMask = lcConflictMask tbl mode True (\<not> holdLock) in
      lcZero (lcAnd (lcSubtract preCounts (holding x)) conflictMask))"

definition acquired :: "nat \<Rightarrow> nat \<Rightarrow> gsl_state \<Rightarrow> gsl_state" where
  "acquired p mode =
     upd p (\<lambda>x. x\<lparr>holding := lcAdd (holding x) (lcActive mode), pc := Idle, res_ok := True\<rparr>)"

definition try_test :: "conflictTable \<Rightarrow> nat \<Rightarrow> nat \<Rightarrow> gsl_state \<Rightarrow> gsl_state" where
  "try_test tbl p mode s =
     (if acquire_free tbl (procs s p) mode (lock_c s) then goto p (Try_set mode (lock_c s)) s
      else upd p (\<lambda>x. x\<lparr>pc := Idle, res_ok := False\<rparr>) s)"

definition try_cas :: "nat \<Rightarrow> nat \<Rightarrow> lockCounts \<Rightarrow> gsl_state \<Rightarrow> gsl_state" where
  "try_cas p mode preCounts s =
     (case lcSet (lock_c s) preCounts (lcAdd preCounts (lcActive mode)) of
        (True, c) \<Rightarrow> acquired p mode (s\<lparr>lock_c := c\<rparr>)
      | (False, _) \<Rightarrow> goto p (Try mode) s)"

definition acq_cas :: "conflictTable \<Rightarrow> nat \<Rightarrow> nat \<Rightarrow> lockCounts \<Rightarrow> gsl_state \<Rightarrow> gsl_state" where
  "acq_cas tbl p mode preCounts s =
     (case lcSet (lock_c s) preCounts (lcAdd preCounts (lcActive mode)) of
        (True, c) \<Rightarrow>
          (if acquire_free tbl (procs s p) mode preCounts then acquired p mode (s\<lparr>lock_c := c\<rparr>)
           else goto p (Slow mode) (s\<lparr>lock_c := c\<rparr>))
      | (False, _) \<Rightarrow> goto p (Acq mode) s)"

definition undo_cas :: "nat \<Rightarrow> nat \<Rightarrow> lockCounts \<Rightarrow> gsl_state \<Rightarrow> gsl_state" where
  "undo_cas p mode preCounts s =
     (let counts = lcOr (lcSubtract preCounts (lcActive mode)) (lcSetWait LC_ZERO mode True) in
      case lcSet (lock_c s) preCounts counts of
        (True, c) \<Rightarrow> goto p (Enq mode) (s\<lparr>lock_c := c\<rparr>)
      | (False, _) \<Rightarrow> goto p (Undo mode) s)"

definition enqueue_head :: "nat \<Rightarrow> gsl_state \<Rightarrow> gsl_state" where
  "enqueue_head p s =
     (let s1 = (if waiter s = None then s\<lparr>waiterTail := Some (L_next p)\<rparr> else s);
          s2 = upd p (\<lambda>x. x\<lparr>lockNext := waiter s1\<rparr>) s1;
          s3 = s2\<lparr>waiter := Some p\<rparr> in
      upd p (\<lambda>x. x\<lparr>isUpgrade := True\<rparr>) s3)"

definition enqueue_tail :: "nat \<Rightarrow> gsl_state \<Rightarrow> gsl_state res" where
  "enqueue_tail p s =
     (let s1 = (if waiter s = None then s\<lparr>waiterTail := Some L_waiter\<rparr> else s) in
      case waiterTail s1 of
        None \<Rightarrow> Inl Null_deref
      | Some l \<Rightarrow>
          Inr (upd p (\<lambda>x. x\<lparr>lockNext := None, isUpgrade := False\<rparr>)
                 ((link_set l (Some p) s1)\<lparr>waiterTail := Some (L_next p)\<rparr>)))"

definition enqueue :: "nat \<Rightarrow> nat \<Rightarrow> nat \<Rightarrow> gsl_state \<Rightarrow> gsl_state res" where
  "enqueue n p mode s =
     (let procCounts = holding (procs s p); holdLock = lcNonZero procCounts in
      res_bind (if holdLock then Inr (enqueue_head p s) else enqueue_tail p s) (\<lambda>s1.
        (let s2 = s1\<lparr>waitCounts := (waitCounts s1)[mode := waitCounts s1 ! mode + 1]\<rparr>;
             s3 = upd p (\<lambda>x. x\<lparr>wantMode := mode, waitHolding := procCounts\<rparr>) s2 in
         wake_begin n p (By_acquire mode) s3)))"

definition sleep_in :: "nat \<Rightarrow> nat \<Rightarrow> gsl_state \<Rightarrow> gsl_state" where
  "sleep_in p mode s = upd p (\<lambda>x. x\<lparr>awaitedLock := True, pc := Asleep mode\<rparr>) (s\<lparr>queueLock := None\<rparr>)"

definition sleep_out :: "nat \<Rightarrow> nat \<Rightarrow> gsl_state \<Rightarrow> gsl_state res" where
  "sleep_out p mode s =
     c_assert (awaitedLock (procs s p))
       (Inr (acquired p mode (upd p (\<lambda>x. x\<lparr>woken := False, awaitedLock := False\<rparr>) s)))"


section \<open>Releasing\<close>

definition gslRelease_call :: "nat \<Rightarrow> nat \<Rightarrow> gsl_state \<Rightarrow> gsl_state res" where
  "gslRelease_call p mode s =
     c_assert (\<not> awaitedLock (procs s p)) (c_assert (lcGetActive (lock_c s) mode \<noteq> 0)
       (Inr (goto p (Rel mode) s)))"

definition rel_cas :: "conflictTable \<Rightarrow> nat \<Rightarrow> nat \<Rightarrow> lockCounts \<Rightarrow> gsl_state \<Rightarrow> gsl_state" where
  "rel_cas tbl p mode preCounts s =
     (let postCounts = lcSubtract preCounts (lcActive mode);
          conflictMask = lcConflictMask tbl mode False True in
      case lcSet (lock_c s) preCounts postCounts of
        (True, c) \<Rightarrow>
          (let h = lcSubtract (holding (procs s p)) (lcActive mode);
               s1 = upd p (\<lambda>x. x\<lparr>holding := h, lastLocalHold := lcZero h\<rparr>) (s\<lparr>lock_c := c\<rparr>) in
           if lcZero (lcAnd postCounts conflictMask)
           then upd p (\<lambda>x. x\<lparr>pc := Idle, lastHold := lcZero postCounts\<rparr>) s1
           else goto p Rel_slow s1)
      | (False, _) \<Rightarrow> goto p (Rel mode) s)"

definition rel_unlock :: "nat \<Rightarrow> gsl_state \<Rightarrow> gsl_state" where
  "rel_unlock p s = upd p (\<lambda>x. x\<lparr>pc := Idle, lastHold := False\<rparr>) (s\<lparr>queueLock := None\<rparr>)"


section \<open>Cancelling\<close>

definition gslCancel_call :: "nat \<Rightarrow> gsl_state \<Rightarrow> gsl_state res" where
  "gslCancel_call p s = c_assert (awaitedLock (procs s p)) (Inr (goto p Cancel_in s))"

text \<open>The link that points to the process, if it is in the queue.\<close>

fun find_link :: "gsl_state \<Rightarrow> nat \<Rightarrow> nat \<Rightarrow> link \<Rightarrow> link option res" where
  "find_link s n p l =
     (case link_get s l of
        None \<Rightarrow> Inr None
      | Some q \<Rightarrow>
          if q = p then Inr (Some l)
          else (case n of 0 \<Rightarrow> Inl Out_of_fuel | Suc n' \<Rightarrow> find_link s n' p (L_next q)))"

definition cancel_section :: "nat \<Rightarrow> nat \<Rightarrow> gsl_state \<Rightarrow> gsl_state res" where
  "cancel_section n p s =
     (let x = procs s p; mode = wantMode x in
      if lockNext x = None
      then Inr (upd p (\<lambda>x. x\<lparr>holding := lcAdd (holding x) (lcActive mode), awaitedLock := False,
                            pc := Idle, res_ok := False\<rparr>) s)
      else res_bind (find_link s n p L_waiter) (\<lambda>r.
        case r of
          None \<Rightarrow> Inl Assert_failed
        | Some l \<Rightarrow>
            (let s1 = upd p (\<lambda>x. x\<lparr>lockNext := None\<rparr>) (link_set l (lockNext x) s) in
             c_assert (waitCounts s1 ! mode \<noteq> 0)
               (Inr (upd p (\<lambda>x. x\<lparr>lastLocalHold := lcZero (holding x), pc := Idle, res_ok := True\<rparr>)
                  (s1\<lparr>waitCounts := (waitCounts s1)[mode := waitCounts s1 ! mode - 1]\<rparr>))))))"


section \<open>Steps and runs\<close>

text \<open>The next step of a process inside a call. \<open>Inr None\<close>: it cannot move now.\<close>

definition gsl_step :: "conflictTable \<Rightarrow> nat \<Rightarrow> nat \<Rightarrow> gsl_state \<Rightarrow> gsl_state option res" where
  "gsl_step tbl n p s =
     (case pc (procs s p) of
        Idle \<Rightarrow> Inr None
      | Try mode \<Rightarrow> ret (try_test tbl p mode s)
      | Try_set mode pre \<Rightarrow> ret (try_cas p mode pre s)
      | Acq mode \<Rightarrow> ret (goto p (Acq_set mode (lock_c s)) s)
      | Acq_set mode pre \<Rightarrow> ret (acq_cas tbl p mode pre s)
      | Slow mode \<Rightarrow>
          if queueLock s = None then ret (goto p (Undo mode) (s\<lparr>queueLock := Some p\<rparr>)) else Inr None
      | Undo mode \<Rightarrow> ret (goto p (Undo_set mode (lock_c s)) s)
      | Undo_set mode pre \<Rightarrow> ret (undo_cas p mode pre s)
      | Enq mode \<Rightarrow> lift_res (enqueue n p mode s)
      | Wake k l \<Rightarrow> ret (wake_test tbl p k l s)
      | Wake_set k l pre \<Rightarrow> lift_res (wake_cas p k l pre s)
      | Wake_grant k l \<Rightarrow> lift_res (wake_grant p k l s)
      | Sleep_in mode \<Rightarrow> ret (sleep_in p mode s)
      | Asleep mode \<Rightarrow> if woken (procs s p) then lift_res (sleep_out p mode s) else Inr None
      | Rel mode \<Rightarrow> ret (goto p (Rel_set mode (lock_c s)) s)
      | Rel_set mode pre \<Rightarrow> ret (rel_cas tbl p mode pre s)
      | Rel_slow \<Rightarrow>
          if queueLock s = None then lift_res (wake_begin n p By_release (s\<lparr>queueLock := Some p\<rparr>))
          else Inr None
      | Rel_unlock \<Rightarrow> ret (rel_unlock p s)
      | Cancel_in \<Rightarrow> if queueLock s = None then lift_res (cancel_section n p s) else Inr None)"

datatype gsl_event = E_acquire nat nat bool | E_release nat nat | E_cancel nat | E_step nat

primrec gsl_exec :: "conflictTable \<Rightarrow> nat \<Rightarrow> gsl_event \<Rightarrow> gsl_state \<Rightarrow> gsl_state option res" where
  "gsl_exec tbl n (E_acquire p mode dontWait) s = lift_res (gslAcquire_call p mode dontWait s)"
| "gsl_exec tbl n (E_release p mode) s = lift_res (gslRelease_call p mode s)"
| "gsl_exec tbl n (E_cancel p) s = lift_res (gslCancel_call p s)"
| "gsl_exec tbl n (E_step p) s = gsl_step tbl n p s"

text \<open>
  What the callers keep to: a process is in one call at a time, names one of the modes, releases
  only what it holds, and cancels only while it sleeps.
\<close>

primrec gsl_usage :: "nat \<Rightarrow> gsl_event \<Rightarrow> gsl_state \<Rightarrow> bool" where
  "gsl_usage n (E_acquire p mode dontWait) s \<longleftrightarrow> p < n \<and> pc (procs s p) = Idle \<and> mode < LC_MAX_MODES"
| "gsl_usage n (E_release p mode) s \<longleftrightarrow>
     p < n \<and> pc (procs s p) = Idle \<and> mode < LC_MAX_MODES \<and> lcGetActive (holding (procs s p)) mode \<noteq> 0"
| "gsl_usage n (E_cancel p) s \<longleftrightarrow> p < n \<and> (\<exists>mode<LC_MAX_MODES. pc (procs s p) = Asleep mode)"
| "gsl_usage n (E_step p) s \<longleftrightarrow> p < n"

primrec gsl_run :: "conflictTable \<Rightarrow> nat \<Rightarrow> gsl_event list \<Rightarrow> gsl_state \<Rightarrow> gsl_state option res" where
  "gsl_run tbl n [] s = ret s"
| "gsl_run tbl n (e # es) s =
     (if gsl_usage n e s then run_bind (gsl_exec tbl n e s) (gsl_run tbl n es) else Inr None)"

fun is_cancel :: "gsl_event \<Rightarrow> bool" where
  "is_cancel (E_cancel p) = True"
| "is_cancel e = False"

text \<open>The states of \<open>n\<close> processes that never cancel.\<close>

inductive gsl_reach :: "conflictTable \<Rightarrow> nat \<Rightarrow> gsl_state \<Rightarrow> bool" for tbl n where
  start: "gsl_reach tbl n gslLockInit"
| event: "gsl_reach tbl n s \<Longrightarrow> gsl_usage n e s \<Longrightarrow> \<not> is_cancel e \<Longrightarrow> gsl_exec tbl n e s = Inr (Some s') \<Longrightarrow>
    gsl_reach tbl n s'"


section \<open>What the updates change\<close>

lemma upd_sel [simp]:
  "lock_c (upd p f s) = lock_c s" "queueLock (upd p f s) = queueLock s" "waiter (upd p f s) = waiter s"
  "waiterTail (upd p f s) = waiterTail s" "waitCounts (upd p f s) = waitCounts s"
  "procs (upd p f s) = (procs s)(p := f (procs s p))"
  unfolding upd_def by simp_all

lemma goto_sel [simp]:
  "lock_c (goto p k s) = lock_c s" "queueLock (goto p k s) = queueLock s" "waiter (goto p k s) = waiter s"
  "waiterTail (goto p k s) = waiterTail s" "waitCounts (goto p k s) = waitCounts s"
  "procs (goto p k s) = (procs s)(p := (procs s p)\<lparr>pc := k\<rparr>)"
  unfolding goto_def by simp_all

lemma link_set_sel [simp]:
  "lock_c (link_set l v s) = lock_c s" "queueLock (link_set l v s) = queueLock s"
  "waiterTail (link_set l v s) = waiterTail s" "waitCounts (link_set l v s) = waitCounts s"
  "waiter (link_set l v s) = (if l = L_waiter then v else waiter s)"
  "lockNext (procs (link_set l v s) r) = (if l = L_next r then v else lockNext (procs s r))"
  "wantMode (procs (link_set l v s) r) = wantMode (procs s r)"
  "isUpgrade (procs (link_set l v s) r) = isUpgrade (procs s r)"
  "waitHolding (procs (link_set l v s) r) = waitHolding (procs s r)"
  "awaitedLock (procs (link_set l v s) r) = awaitedLock (procs s r)"
  "holding (procs (link_set l v s) r) = holding (procs s r)"
  "pc (procs (link_set l v s) r) = pc (procs s r)"
  "woken (procs (link_set l v s) r) = woken (procs s r)"
  by (cases l; simp)+

lemma step_result [simp]:
  "ret x = Inr (Some y) \<longleftrightarrow> x = y" "lift_res r = Inr (Some y) \<longleftrightarrow> r = Inr y"
  unfolding lift_res_def ret_def by (auto split: sum.splits)

end
