(* ===== verification/Gsl_Correct.thy ===== *)
theory Gsl_Correct
  imports Gsl
begin

text \<open>
  Exclusion for the GSL lock: under every interleaving of up to \<open>2 ^ 15 - 1\<close> processes, two
  processes never hold the lock in conflicting modes. The invariant relates the packed counter to
  the modes that the processes hold, have been granted while they sleep, or have announced on the
  fast path; \<open>L\<close> is the queue, and \<open>g\<close> the process that has been counted in but is not yet
  out of the queue.
\<close>

section \<open>Counting users of modes\<close>

text \<open>
  \<open>H p\<close> are the modes that process \<open>p\<close> has, \<open>T p\<close> those that it counts in only until it has seen
  the conflict.
\<close>

definition users :: "nat \<Rightarrow> (nat \<Rightarrow> nat set) \<Rightarrow> nat \<Rightarrow> nat" where
  "users n U i = card {p. p < n \<and> i \<in> U p}"

definition view :: "32 word list \<Rightarrow> nat \<Rightarrow> lockCounts \<Rightarrow> (nat \<Rightarrow> nat set) \<Rightarrow> (nat \<Rightarrow> nat set) \<Rightarrow> bool" where
  "view cs n c H T \<longleftrightarrow>
     (\<forall>i<8. cnt c i = users n (\<lambda>p. H p \<union> T p) i) \<and>
     (\<forall>p<n. \<forall>q<n. p \<noteq> q \<longrightarrow> (\<forall>i\<in>H p. \<forall>j\<in>H q. \<not> conf cs i j))"

definition conf_sym :: "32 word list \<Rightarrow> bool" where
  "conf_sym cs \<longleftrightarrow> length cs \<le> 8 \<and> (\<forall>i<length cs. \<forall>j<length cs. CONFLICTS cs i j = CONFLICTS cs j i)"

lemma conf_symD: "conf_sym cs \<Longrightarrow> conf cs i j = conf cs j i"
  unfolding conf_sym_def conf_def by auto

lemma users_le: "users n U i \<le> n"
  unfolding users_def using card_mono [of "{..<n}" "{p. p < n \<and> i \<in> U p}"] by auto

lemma users_update:
  assumes "p < n"
  shows "users n (U(p := A)) i + (if i \<in> U p then 1 else 0) = users n U i + (if i \<in> A then 1 else 0)"
proof -
  let ?R = "{q. q < n \<and> q \<noteq> p \<and> i \<in> U q}"
  have u: "users n V i = card ?R + (if i \<in> V p then 1 else 0)" if "\<And>q. q \<noteq> p \<Longrightarrow> V q = U q" for V
  proof -
    have "{q. q < n \<and> i \<in> V q} = (if i \<in> V p then insert p ?R else ?R)"
      using that assms by (auto split: if_splits) metis+
    then show ?thesis
      unfolding users_def by simp
  qed
  show ?thesis
    using u [of U] u [of "U(p := A)"] by simp
qed

lemma users_room:
  assumes "p < n" "i \<notin> U p"
  shows "users n U i < n"
proof -
  have "{q. q < n \<and> i \<in> U q} \<subset> {..<n}"
    using assms by auto
  from psubset_card_mono [OF finite_lessThan this] show ?thesis
    unfolding users_def by (simp only: card_lessThan)
qed

lemma users_zero: "users n U i = 0 \<Longrightarrow> p < n \<Longrightarrow> i \<notin> U p"
  unfolding users_def by (auto simp: card_eq_0_iff)

text \<open>What the conflict test says: once its own modes are subtracted, nobody else uses a conflicting mode.\<close>

lemma others_zero:
  assumes c: "cnt c i = users n U i" and h: "cnt h i = (if i \<in> U p then 1 else 0)" "cnt h i \<le> cnt c i"
    and z: "cnt c i - cnt h i = 0" and p: "p < n" "q < n" "p \<noteq> q"
  shows "i \<notin> U q"
proof -
  have "users n (U(p := {})) i = 0"
    using users_update [OF p(1), of U "{}" i] c h z by auto
  then show ?thesis
    using users_zero [of n "U(p := {})" i q] p by simp
qed

lemma own_le_users:
  assumes "cnt c i = users n U i" "cnt h i = (if i \<in> U p then 1 else 0)" "p < n"
  shows "cnt h i \<le> cnt c i"
  using users_update [OF assms(3), of U "{}" i] assms by auto

lemma view_change:
  assumes v: "view cs n c H T" and p: "p < n"
    and c: "\<And>i. i < 8 \<Longrightarrow> cnt c' i + (if i \<in> H p \<union> T p then 1 else 0) = cnt c i + (if i \<in> A \<union> B then 1 else 0)"
    and ex: "\<And>q i j. q < n \<Longrightarrow> q \<noteq> p \<Longrightarrow> i \<in> A \<Longrightarrow> j \<in> H q \<Longrightarrow> \<not> conf cs i j \<and> \<not> conf cs j i"
  shows "view cs n c' (H(p := A)) (T(p := B))"
proof -
  have "(\<lambda>q. (H(p := A)) q \<union> (T(p := B)) q) = (\<lambda>q. H q \<union> T q)(p := A \<union> B)"
    by (rule ext) simp
  then have "cnt c' i = users n (\<lambda>q. (H(p := A)) q \<union> (T(p := B)) q) i" if "i < 8" for i
    using users_update [OF p, of "\<lambda>q. H q \<union> T q" "A \<union> B" i] c [OF that] v that unfolding view_def by simp
  then show ?thesis
    using v ex unfolding view_def by auto
qed

lemma view_cnt_less: "view cs n c H T \<Longrightarrow> i < 8 \<Longrightarrow> cnt c i \<le> n"
  unfolding view_def using users_le by simp

lemma add_cnt:
  assumes v: "view cs n c H T" and n: "n < 2 ^ 15" and p: "p < n" "m < 8" "m \<notin> H p \<union> T p" and i: "i < 8"
  shows "cnt (lcAdd c (lcActive m)) i = cnt c i + (if i = m then 1 else 0)"
    "wbit (lcAdd c (lcActive m)) i = wbit c i"
proof -
  have "users n (\<lambda>q. H q \<union> T q) m < n"
    using users_room [of p n m "\<lambda>q. H q \<union> T q"] p by simp
  then have "cnt c m + 1 < 2 ^ 15"
    using v p n unfolding view_def by simp
  then have b: "cnt c j + cnt (lcActive m) j < 2 ^ 15" if "j < 8" for j
    using that p(2) cnt_less [of c j] by (simp add: lcActive_fields)
  show "cnt (lcAdd c (lcActive m)) i = cnt c i + (if i = m then 1 else 0)"
    "wbit (lcAdd c (lcActive m)) i = wbit c i"
    using lcAdd_fields [of c "lcActive m" i] b i p(2) by (simp_all add: lcActive_fields)
qed

lemma sub_cnt:
  assumes "0 < cnt c m" "m < 8" "i < 8"
  shows "cnt (lcSubtract c (lcActive m)) i = cnt c i - (if i = m then 1 else 0)"
    "wbit (lcSubtract c (lcActive m)) i = wbit c i"
proof -
  have b: "cnt (lcActive m) j \<le> cnt c j" "\<not> wbit (lcActive m) j" if "j < 8" for j
    using that assms by (simp_all add: lcActive_fields)
  show "cnt (lcSubtract c (lcActive m)) i = cnt c i - (if i = m then 1 else 0)"
    "wbit (lcSubtract c (lcActive m)) i = wbit c i"
    using lcSubtract_fields [of "lcActive m" c i] b assms by (simp_all add: lcActive_fields)
qed

lemma view_used: "view cs n c H T \<Longrightarrow> p < n \<Longrightarrow> m < 8 \<Longrightarrow> m \<in> H p \<union> T p \<Longrightarrow> 0 < cnt c m"
  unfolding view_def using users_zero [of n "\<lambda>q. H q \<union> T q" m p] by (metis (no_types, lifting) gr0I)


section \<open>What a process has\<close>

definition holds :: "gsl_proc \<Rightarrow> nat set" where
  "holds x = {i. i < 8 \<and> cnt (holding x) i \<noteq> 0}"

definition hold_ok :: "gsl_proc \<Rightarrow> bool" where
  "hold_ok x \<longleftrightarrow> (\<forall>i<8. cnt (holding x) i \<le> 1 \<and> \<not> wbit (holding x) i)"

text \<open>The mode a process asks for, the mode it waits for, the mode it has announced, the mode it gives up.\<close>

fun caller_mode :: "wake_caller \<Rightarrow> nat option" where
  "caller_mode (By_acquire m) = Some m"
| "caller_mode By_release = None"

fun waits :: "gsl_pc \<Rightarrow> nat option" where
  "waits (Wake k l) = caller_mode k"
| "waits (Wake_set k l pre) = caller_mode k"
| "waits (Wake_grant k l) = caller_mode k"
| "waits (Sleep_in m) = Some m"
| "waits (Asleep m) = Some m"
| "waits _ = None"

fun asks :: "gsl_pc \<Rightarrow> nat option" where
  "asks (Try m) = Some m"
| "asks (Try_set m pre) = Some m"
| "asks (Acq m) = Some m"
| "asks (Acq_set m pre) = Some m"
| "asks (Slow m) = Some m"
| "asks (Undo m) = Some m"
| "asks (Undo_set m pre) = Some m"
| "asks (Enq m) = Some m"
| "asks k = waits k"

fun tries :: "gsl_pc \<Rightarrow> nat set" where
  "tries (Slow m) = {m}"
| "tries (Undo m) = {m}"
| "tries (Undo_set m pre) = {m}"
| "tries _ = {}"

fun gives :: "gsl_pc \<Rightarrow> nat option" where
  "gives (Rel m) = Some m"
| "gives (Rel_set m pre) = Some m"
| "gives _ = None"

fun crit :: "gsl_pc \<Rightarrow> bool" where
  "crit (Undo m) = True"
| "crit (Undo_set m pre) = True"
| "crit (Enq m) = True"
| "crit (Wake k l) = True"
| "crit (Wake_set k l pre) = True"
| "crit (Wake_grant k l) = True"
| "crit (Sleep_in m) = True"
| "crit Rel_unlock = True"
| "crit _ = False"

fun at_link :: "gsl_pc \<Rightarrow> link option" where
  "at_link (Wake k l) = Some l"
| "at_link (Wake_set k l pre) = Some l"
| "at_link (Wake_grant k l) = Some l"
| "at_link _ = None"

fun at_grant :: "gsl_pc \<Rightarrow> link option" where
  "at_grant (Wake_grant k l) = Some l"
| "at_grant _ = None"

definition proc_ok :: "32 word list \<Rightarrow> gsl_proc \<Rightarrow> bool" where
  "proc_ok cs x \<longleftrightarrow> hold_ok x \<and> pc x \<noteq> Cancel_in \<and>
     (\<forall>m pre. pc x = Try_set m pre \<longrightarrow> acquire_free (lcInitConflictTable cs) x m pre) \<and>
     (\<forall>m. asks (pc x) = Some m \<longrightarrow> m < 8 \<and> m \<notin> holds x) \<and>
     (\<forall>m. waits (pc x) = Some m \<longrightarrow> wantMode x = m \<and> waitHolding x = holding x) \<and>
     (\<forall>m. gives (pc x) = Some m \<longrightarrow> m \<in> holds x)"

definition has :: "nat list \<Rightarrow> nat option \<Rightarrow> nat \<Rightarrow> gsl_proc \<Rightarrow> nat set" where
  "has L g p x = holds x \<union>
     (case waits (pc x) of None \<Rightarrow> {} | Some m \<Rightarrow> if p \<in> set L \<and> g \<noteq> Some p then {} else {m})"

abbreviation has_of :: "gsl_state \<Rightarrow> nat list \<Rightarrow> nat option \<Rightarrow> nat \<Rightarrow> nat set" where
  "has_of s L g \<equiv> \<lambda>p. has L g p (procs s p)"

abbreviation tries_of :: "gsl_state \<Rightarrow> nat \<Rightarrow> nat set" where
  "tries_of s \<equiv> \<lambda>p. tries (pc (procs s p))"

lemma holds_cnt: "hold_ok x \<Longrightarrow> i < 8 \<Longrightarrow> cnt (holding x) i = (if i \<in> holds x then 1 else 0)"
  unfolding hold_ok_def holds_def by (auto simp: le_Suc_eq)

lemma others_free:
  assumes v: "view cs n c H T" and p: "p < n" "H p \<union> T p = holds x" "hold_ok x" and cs: "length cs \<le> 8"
    and z: "\<And>i. i < 8 \<Longrightarrow> conf cs m i \<Longrightarrow> cnt (lcSubtract c (holding x)) i = 0"
    and q: "q < n" "q \<noteq> p" "j \<in> H q \<union> T q"
  shows "\<not> conf cs m j"
proof
  assume j: "conf cs m j"
  then have j8: "j < 8"
    using cs unfolding conf_def by simp
  have h: "cnt (holding x) i = (if i \<in> H p \<union> T p then 1 else 0)" if "i < 8" for i
    using holds_cnt [OF p(3) that] p(2) by simp
  have le: "cnt (holding x) i \<le> cnt c i" "\<not> wbit (holding x) i" if "i < 8" for i
    using own_le_users [of c i n "\<lambda>q. H q \<union> T q" "holding x" p] h [OF that] v that p(1,3)
    unfolding view_def hold_ok_def by auto
  have "cnt (lcSubtract c (holding x)) j = cnt c j - cnt (holding x) j"
    using lcSubtract_fields(1) [of "holding x" c j] le j8 by blast
  then have "cnt c j - cnt (holding x) j = 0"
    using z [OF j8 j] by simp
  then show False
    using others_zero [of c j n "\<lambda>q. H q \<union> T q" "holding x" p q] v h [OF j8] le [OF j8] p(1) q j8
    unfolding view_def by auto
qed

lemma view_grant:
  assumes v: "view cs n c H T" and n: "n < 2 ^ 15" and cs: "conf_sym cs"
    and p: "p < n" "H p = holds x" "T p = {}" "hold_ok x" and m: "m < 8" "m \<notin> holds x"
    and z: "\<And>i. i < 8 \<Longrightarrow> conf cs m i \<Longrightarrow> cnt (lcSubtract c (holding x)) i = 0"
    and c': "\<And>i. i < 8 \<Longrightarrow> cnt c' i = cnt (lcAdd c (lcActive m)) i"
  shows "view cs n c' (H(p := insert m (holds x))) (T(p := {}))"
proof (rule view_change [OF v p(1)])
  fix i :: nat
  assume "i < 8"
  then show "cnt c' i + (if i \<in> H p \<union> T p then 1 else 0) = cnt c i + (if i \<in> insert m (holds x) \<union> {} then 1 else 0)"
    using add_cnt(1) [OF v n p(1) m(1) _, of i] c' p m by auto
next
  fix q i j
  assume q: "q < n" "q \<noteq> p" "i \<in> insert m (holds x)" "j \<in> H q"
  have len: "length cs \<le> 8"
    using cs unfolding conf_sym_def by simp
  have "\<not> conf cs i j"
  proof (cases "i = m")
    case True
    then show ?thesis
      using others_free [OF v p(1) _ p(4) len z q(1,2)] p q by auto
  next
    case False
    then have "i \<in> H p"
      using q p by auto
    moreover have "p \<noteq> q"
      using q(2) by simp
    ultimately show ?thesis
      using v q(1,4) p(1) unfolding view_def by blast
  qed
  then show "\<not> conf cs i j \<and> \<not> conf cs j i"
    using conf_symD [OF cs] by auto
qed

lemma view_announce:
  assumes v: "view cs n c H T" and n: "n < 2 ^ 15" and p: "p < n" "m < 8" "m \<notin> H p" "T p = {}"
    and c': "\<And>i. i < 8 \<Longrightarrow> cnt c' i = cnt (lcAdd c (lcActive m)) i"
  shows "view cs n c' H (T(p := {m}))"
proof -
  have "view cs n c' (H(p := H p)) (T(p := {m}))"
  proof (rule view_change [OF v p(1)])
    fix i :: nat
    assume "i < 8"
    then show "cnt c' i + (if i \<in> H p \<union> T p then 1 else 0) = cnt c i + (if i \<in> H p \<union> {m} then 1 else 0)"
      using add_cnt(1) [OF v n p(1,2), of i] c' p by auto
  qed (use v p(1) in \<open>auto simp: view_def\<close>)
  then show ?thesis
    by simp
qed

lemma view_drop:
  assumes v: "view cs n c H T" and p: "p < n" "m < 8" "m \<in> H p \<union> T p" "A \<union> B = H p \<union> T p - {m}" "A \<subseteq> H p"
    and c': "\<And>i. i < 8 \<Longrightarrow> cnt c' i = cnt (lcSubtract c (lcActive m)) i"
  shows "view cs n c' (H(p := A)) (T(p := B))"
proof (rule view_change [OF v p(1)])
  fix i :: nat
  assume "i < 8"
  then show "cnt c' i + (if i \<in> H p \<union> T p then 1 else 0) = cnt c i + (if i \<in> A \<union> B then 1 else 0)"
    using sub_cnt(1) [OF view_used [OF v p(1-3)] p(2), of i] c' p(3,4) view_used [OF v p(1-3)] by auto
qed (use v p(1,5) in \<open>auto simp: view_def\<close>)


section \<open>The invariant\<close>

fun path :: "(nat \<Rightarrow> nat option) \<Rightarrow> nat option \<Rightarrow> nat list \<Rightarrow> bool" where
  "path nx h [] \<longleftrightarrow> h = None"
| "path nx h (q # qs) \<longleftrightarrow> h = Some q \<and> path nx (nx q) qs"

fun link_in :: "nat list \<Rightarrow> link \<Rightarrow> bool" where
  "link_in L L_waiter = True"
| "link_in L (L_next q) = (q \<in> set L)"

abbreviation next_of :: "gsl_state \<Rightarrow> nat \<Rightarrow> nat option" where
  "next_of s \<equiv> \<lambda>q. lockNext (procs s q)"

definition grantable :: "32 word list \<Rightarrow> gsl_proc \<Rightarrow> lockCounts \<Rightarrow> bool" where
  "grantable cs y c \<longleftrightarrow>
     lcZero (lcAnd (lcSubtract c (waitHolding y))
       (lcConflictMask (lcInitConflictTable cs) (wantMode y) True False))"

definition wake_ok :: "32 word list \<Rightarrow> gsl_state \<Rightarrow> nat list \<Rightarrow> nat option \<Rightarrow> gsl_pc \<Rightarrow> bool" where
  "wake_ok cs s L g k \<longleftrightarrow>
     (\<forall>l. at_link k = Some l \<longrightarrow> link_in L l) \<and>
     (\<forall>c l pre. k = Wake_set c l pre \<longrightarrow> (\<exists>q. link_get s l = Some q \<and> grantable cs (procs s q) pre)) \<and>
     (\<forall>l. at_grant k = Some l \<longrightarrow> link_get s l = g \<and> g \<noteq> None)"

definition waiters_of :: "gsl_state \<Rightarrow> nat list \<Rightarrow> nat \<Rightarrow> nat" where
  "waiters_of s L i = length (filter (\<lambda>q. wantMode (procs s q) = i) L)"

definition gsl_inv :: "32 word list \<Rightarrow> nat \<Rightarrow> gsl_state \<Rightarrow> nat list \<Rightarrow> nat option \<Rightarrow> bool" where
  "gsl_inv cs n s L g \<longleftrightarrow>
     (\<forall>p<n. proc_ok cs (procs s p)) \<and>
     (\<forall>p<n. crit (pc (procs s p)) \<longleftrightarrow> queueLock s = Some p) \<and> (\<forall>p. queueLock s = Some p \<longrightarrow> p < n) \<and>
     path (next_of s) (waiter s) L \<and> distinct L \<and>
     (\<forall>q\<in>set L. q < n \<and> waits (pc (procs s q)) \<noteq> None) \<and>
     (\<forall>p<n. woken (procs s p) \<longleftrightarrow> waits (pc (procs s p)) \<noteq> None \<and> p \<notin> set L) \<and>
     (\<forall>p<n. wake_ok cs s L g (pc (procs s p))) \<and>
     (g \<noteq> None \<longrightarrow> (\<exists>p<n. at_grant (pc (procs s p)) \<noteq> None)) \<and>
     length (waitCounts s) = 8 \<and> (\<forall>i<8. waitCounts s ! i = int (waiters_of s L i)) \<and>
     view cs n (lock_c s) (has_of s L g) (tries_of s)"

lemma path_in: "path nx h L \<Longrightarrow> q \<in> set L \<Longrightarrow> nx q = Some r \<Longrightarrow> r \<in> set L"
  by (induction nx h L rule: path.induct) (auto elim: path.elims)

lemma link_get_in:
  "path (next_of s) (waiter s) L \<Longrightarrow> link_in L l \<Longrightarrow> link_get s l = Some q \<Longrightarrow> q \<in> set L"
  by (cases l) (auto intro: path_in elim: path.elims)

lemma gsl_inv_init: "gsl_inv cs n gslLockInit [] None"
proof -
  have z: "cnt 0 i = 0" "\<not> wbit 0 i" for i
    unfolding cnt_fld fld_def wbit_def by simp_all
  then have "holds (procs gslLockInit p) = {}" for p
    unfolding holds_def gslLockInit_def LC_ZERO_def by simp
  then have "has_of gslLockInit [] None = (\<lambda>_. {})"
    unfolding has_def by (simp add: gslLockInit_def)
  then show ?thesis
    unfolding gsl_inv_def using z
    by (simp add: gslLockInit_def proc_ok_def hold_ok_def LC_ZERO_def wake_ok_def view_def users_def waiters_of_def)
qed

text \<open>A step that changes the record of one process, the counter and the mutex, but no link.\<close>

lemma inv_local:
  assumes i: "gsl_inv cs n s L g" and p: "p < n"
    and s': "s' = s\<lparr>lock_c := c', queueLock := ql, procs := (procs s)(p := x')\<rparr>"
    and same: "lockNext x' = lockNext (procs s p)" "wantMode x' = wantMode (procs s p)"
      "waitHolding x' = waitHolding (procs s p)"
    and ok: "proc_ok cs x'"
    and mx: "ql = (if crit (pc x') then Some p else if crit (pc (procs s p)) then None else queueLock s)"
      "crit (pc x') \<Longrightarrow> crit (pc (procs s p)) \<or> queueLock s = None"
    and w: "woken x' \<longleftrightarrow> waits (pc x') \<noteq> None \<and> p \<notin> set L" "p \<in> set L \<Longrightarrow> waits (pc x') \<noteq> None"
    and k: "wake_ok cs s L g (pc x')" "at_grant (pc (procs s p)) = None"
    and v: "view cs n c' ((has_of s L g)(p := has L g p x')) ((tries_of s)(p := tries (pc x')))"
  shows "gsl_inv cs n s' L g"
proof -
  have nx: "next_of s' = next_of s"
    using same(1) unfolding s' by auto
  have lg: "link_get s' l = link_get s l" for l
    using same(1) by (cases l) (auto simp: s')
  have gr: "grantable cs (procs s' q) pre = grantable cs (procs s q) pre" for q pre
    using same unfolding s' grantable_def by simp
  have wk: "wake_ok cs s' L g k = wake_ok cs s L g k" for k
    unfolding wake_ok_def lg gr ..
  have wo: "waiters_of s' L = waiters_of s L"
    using same(2) unfolding s' waiters_of_def by (auto simp: fun_eq_iff intro: arg_cong [where f = length] filter_cong)
  have h: "has_of s' L g = (has_of s L g)(p := has L g p x')" "tries_of s' = (tries_of s)(p := tries (pc x'))"
    unfolding s' by (auto simp: fun_eq_iff)
  have m: "crit (pc (procs s' q)) \<longleftrightarrow> ql = Some q" if "q < n" for q
    using i p mx that unfolding gsl_inv_def s' by (auto split: if_splits)
  have m2: "q < n" if "ql = Some q" for q
    using i p mx that unfolding gsl_inv_def by (auto split: if_splits)
  have g: "\<exists>q<n. at_grant (pc (procs s' q)) \<noteq> None" if gn: "g \<noteq> None"
  proof -
    obtain q where q: "q < n" "at_grant (pc (procs s q)) \<noteq> None"
      using i gn unfolding gsl_inv_def by auto
    then have "q \<noteq> p"
      using k(2) by auto
    then show ?thesis
      using q unfolding s' by auto
  qed
  have c: "lock_c s' = c'" "queueLock s' = ql" "waiter s' = waiter s" "procs s' = (procs s)(p := x')"
    "waitCounts s' = waitCounts s"
    unfolding s' by simp_all
  show ?thesis
    unfolding gsl_inv_def h c(1-3) nx wk wo
    using i ok m m2 g v w k(1) unfolding gsl_inv_def c(4,5) by auto
qed

lemma inv_goto:
  assumes i: "gsl_inv cs n s L g" and p: "p < n"
    and s': "s' = s\<lparr>queueLock := ql, procs := (procs s)(p := x')\<rparr>"
    and same: "lockNext x' = lockNext (procs s p)" "woken x' = woken (procs s p)"
      "wantMode x' = wantMode (procs s p)" "waitHolding x' = waitHolding (procs s p)"
      "holding x' = holding (procs s p)"
    and ok: "proc_ok cs x'"
    and mx: "ql = (if crit (pc x') then Some p else if crit (pc (procs s p)) then None else queueLock s)"
      "crit (pc x') \<Longrightarrow> crit (pc (procs s p)) \<or> queueLock s = None"
    and w: "waits (pc x') = waits (pc (procs s p))" "tries (pc x') = tries (pc (procs s p))"
    and k: "wake_ok cs s L g (pc x')" "at_grant (pc (procs s p)) = None"
  shows "gsl_inv cs n s' L g"
proof (rule inv_local [OF i p _ same(1,3,4) ok mx _ _ k])
  show "s' = s\<lparr>lock_c := lock_c s, queueLock := ql, procs := (procs s)(p := x')\<rparr>"
    unfolding s' by simp
  show "woken x' \<longleftrightarrow> waits (pc x') \<noteq> None \<and> p \<notin> set L" "p \<in> set L \<Longrightarrow> waits (pc x') \<noteq> None"
    using i p unfolding w(1) same(2) gsl_inv_def by auto
  have "has L g p x' = has L g p (procs s p)"
    unfolding has_def holds_def w same(5) ..
  then have "(has_of s L g)(p := has L g p x') = has_of s L g" "(tries_of s)(p := tries (pc x')) = tries_of s"
    using w(2) by auto
  then show "view cs n (lock_c s) ((has_of s L g)(p := has L g p x')) ((tries_of s)(p := tries (pc x')))"
    using i unfolding gsl_inv_def by (simp only:)
qed auto

lemma inv_facts:
  assumes "gsl_inv cs n s L g" "p < n"
  shows "proc_ok cs (procs s p)" "crit (pc (procs s p)) \<longleftrightarrow> queueLock s = Some p"
    "woken (procs s p) \<longleftrightarrow> waits (pc (procs s p)) \<noteq> None \<and> p \<notin> set L" "wake_ok cs s L g (pc (procs s p))"
    "view cs n (lock_c s) (has_of s L g) (tries_of s)"
    "path (next_of s) (waiter s) L" "distinct L" "\<And>q. q \<in> set L \<Longrightarrow> q < n \<and> waits (pc (procs s q)) \<noteq> None"
  using assms unfolding gsl_inv_def by auto

lemma has_plain: "waits (pc x) = None \<Longrightarrow> has L g p x = holds x"
  unfolding has_def by simp

lemma wake_ok_plain: "at_link k = None \<Longrightarrow> wake_ok cs s L g k"
  unfolding wake_ok_def by (cases k) auto

lemma at_grant_crit: "\<not> crit k \<Longrightarrow> at_grant k = None"
  by (cases k) auto

lemma acquire_call_inv:
  assumes i: "gsl_inv cs n s L g" and u: "gsl_usage n (E_acquire p m b) s"
    and e: "gslAcquire_call p m b s = Inr s'"
  shows "gsl_inv cs n s' L g"
proof -
  have p: "p < n" "pc (procs s p) = Idle" "m < 8"
    using u by simp_all
  have h: "lcGetActive (holding (procs s p)) m = 0"
    using e unfolding gslAcquire_call_def by (simp add: Let_def)
  show ?thesis
  proof (rule inv_goto [OF i p(1)])
    show "s' = s\<lparr>queueLock := queueLock s, procs := (procs s)(p := (procs s p)\<lparr>pc := if b then Try m else Acq m\<rparr>)\<rparr>"
      using e unfolding gslAcquire_call_def goto_def upd_def by (simp add: Let_def)
    have "cnt (holding (procs s p)) m = 0"
      using h unfolding cnt_def by simp
    then show "proc_ok cs ((procs s p)\<lparr>pc := if b then Try m else Acq m\<rparr>)"
      using inv_facts(1) [OF i p(1)] p unfolding proc_ok_def by (auto simp: hold_ok_def holds_def)
  qed (use p in \<open>auto intro: wake_ok_plain split: if_splits\<close>)
qed

lemma release_call_inv:
  assumes i: "gsl_inv cs n s L g" and u: "gsl_usage n (E_release p m) s"
    and e: "gslRelease_call p m s = Inr s'"
  shows "gsl_inv cs n s' L g"
proof -
  have p: "p < n" "pc (procs s p) = Idle" "m < 8" "lcGetActive (holding (procs s p)) m \<noteq> 0"
    using u by simp_all
  show ?thesis
  proof (rule inv_goto [OF i p(1)])
    show "s' = s\<lparr>queueLock := queueLock s, procs := (procs s)(p := (procs s p)\<lparr>pc := Rel m\<rparr>)\<rparr>"
      using e unfolding gslRelease_call_def goto_def upd_def by simp
    have "cnt (holding (procs s p)) m \<noteq> 0"
      using p(4) unfolding cnt_def by (simp add: unat_eq_0)
    then show "proc_ok cs ((procs s p)\<lparr>pc := Rel m\<rparr>)"
      using inv_facts(1) [OF i p(1)] p unfolding proc_ok_def by (auto simp: hold_ok_def holds_def)
  qed (use p in \<open>auto intro: wake_ok_plain split: if_splits\<close>)
qed

lemma hold_add:
  assumes "hold_ok x" "m < 8" "m \<notin> holds x" "holding x' = lcAdd (holding x) (lcActive m)"
  shows "hold_ok x'" "holds x' = insert m (holds x)"
proof -
  have b: "cnt (holding x) j + cnt (lcActive m) j < 2 ^ 15" "\<not> (wbit (holding x) j \<and> wbit (lcActive m) j)"
    if "j < 8" for j
    using assms that by (auto simp: holds_cnt lcActive_fields)
  have f: "cnt (holding x') j = (if j \<in> insert m (holds x) then 1 else 0)" "\<not> wbit (holding x') j" if "j < 8" for j
    using lcAdd_fields [OF b that] assms(1-3) that holds_cnt [OF assms(1) that] lcActive_fields [OF assms(2) that]
    unfolding assms(4) hold_ok_def by auto
  show "hold_ok x'"
    unfolding hold_ok_def using f by simp
  show "holds x' = insert m (holds x)"
    unfolding holds_def [of x'] using f assms(2) by (auto simp: holds_def split: if_splits)
qed

lemma hold_sub:
  assumes "hold_ok x" "m \<in> holds x" "holding x' = lcSubtract (holding x) (lcActive m)"
  shows "hold_ok x'" "holds x' = holds x - {m}"
proof -
  have m: "m < 8" "0 < cnt (holding x) m"
    using assms(2) unfolding holds_def by auto
  have f: "cnt (holding x') j = (if j \<in> holds x - {m} then 1 else 0)" if "j < 8" for j
    unfolding assms(3) sub_cnt(1) [OF m(2,1) that] holds_cnt [OF assms(1) that] by simp
  moreover have "\<not> wbit (holding x') j" if "j < 8" for j
    unfolding assms(3) sub_cnt(2) [OF m(2,1) that] using assms(1) that unfolding hold_ok_def by simp
  ultimately show "hold_ok x'"
    unfolding hold_ok_def by simp
  show "holds x' = holds x - {m}"
    unfolding holds_def [of x'] using f by (auto simp: holds_def split: if_splits)
qed

lemma acquire_free_zero:
  assumes "acquire_free (lcInitConflictTable cs) x m c" "length cs \<le> 8" "i < 8" "conf cs m i"
  shows "cnt (lcSubtract c (holding x)) i = 0"
  using assms unfolding acquire_free_def Let_def conflict_test [OF assms(2)] by simp

lemma grantable_zero:
  assumes "length cs \<le> 8"
  shows "grantable cs y c \<longleftrightarrow> (\<forall>i<8. conf cs (wantMode y) i \<longrightarrow> cnt (lcSubtract c (waitHolding y)) i = 0)"
  unfolding grantable_def conflict_test [OF assms] by simp

lemma acquired_inv:
  assumes i: "gsl_inv cs n s L g" and p: "p < n" and n: "n < 2 ^ 15" and cs: "conf_sym cs"
    and k: "waits (pc (procs s p)) = None" "tries (pc (procs s p)) = {}" "asks (pc (procs s p)) = Some m"
      "\<not> crit (pc (procs s p))"
    and free: "acquire_free (lcInitConflictTable cs) (procs s p) m (lock_c s)"
  shows "gsl_inv cs n (acquired p m (s\<lparr>lock_c := lcAdd (lock_c s) (lcActive m)\<rparr>)) L g"
proof -
  let ?x = "procs s p"
  let ?y = "?x\<lparr>holding := lcAdd (holding ?x) (lcActive m), pc := Idle, res_ok := True\<rparr>"
  have len: "length cs \<le> 8"
    using cs unfolding conf_sym_def by simp
  have x: "hold_ok ?x" "m < 8" "m \<notin> holds ?x"
    using inv_facts(1) [OF i p] k(3) unfolding proc_ok_def by auto
  have y: "hold_ok ?y" "holds ?y = insert m (holds ?x)"
    using hold_add [OF x, of ?y] by simp_all
  have h: "has L g p ?x = holds ?x" "has L g p ?y = insert m (holds ?x)"
    using k(1) y(2) by (simp_all add: has_plain)
  show ?thesis
  proof (rule inv_local [OF i p])
    show "acquired p m (s\<lparr>lock_c := lcAdd (lock_c s) (lcActive m)\<rparr>) =
        s\<lparr>lock_c := lcAdd (lock_c s) (lcActive m), queueLock := queueLock s, procs := (procs s)(p := ?y)\<rparr>"
      unfolding acquired_def upd_def by simp
    show "proc_ok cs ?y"
      using y(1) unfolding proc_ok_def by simp
    have "view cs n (lcAdd (lock_c s) (lcActive m)) ((has_of s L g)(p := insert m (holds ?x))) ((tries_of s)(p := {}))"
      using view_grant [OF inv_facts(5) [OF i p] n cs p h(1) k(2) x acquire_free_zero [OF free len]] by simp
    then show "view cs n (lcAdd (lock_c s) (lcActive m)) ((has_of s L g)(p := has L g p ?y)) ((tries_of s)(p := tries (pc ?y)))"
      unfolding h(2) by simp
  qed (use k inv_facts(3,8) [OF i p] in \<open>auto intro: wake_ok_plain simp: at_grant_crit\<close>)
qed

text \<open>A step that only moves on, to a place where the process asks for the same mode.\<close>

lemma goto_inv:
  assumes i: "gsl_inv cs n s L g" and p: "p < n" and k: "waits k = waits (pc (procs s p))" "tries k = tries (pc (procs s p))"
      "asks k = asks (pc (procs s p))" "gives k = gives (pc (procs s p))" "crit k = crit (pc (procs s p))"
      "at_link k = None" "at_grant (pc (procs s p)) = None" "k \<noteq> Cancel_in" "\<And>m pre. k \<noteq> Try_set m pre"
  shows "gsl_inv cs n (goto p k s) L g"
proof (rule inv_goto [OF i p])
  show "goto p k s = s\<lparr>queueLock := queueLock s, procs := (procs s)(p := (procs s p)\<lparr>pc := k\<rparr>)\<rparr>"
    unfolding goto_def upd_def by simp
  show "proc_ok cs ((procs s p)\<lparr>pc := k\<rparr>)"
    using inv_facts(1) [OF i p] k unfolding proc_ok_def by (auto simp: hold_ok_def holds_def)
  show "queueLock s = (if crit (pc ((procs s p)\<lparr>pc := k\<rparr>)) then Some p else if crit (pc (procs s p)) then None else queueLock s)"
    using inv_facts(2) [OF i p] k(5) by simp
qed (use k in \<open>auto intro: wake_ok_plain\<close>)

lemma try_test_inv:
  assumes i: "gsl_inv cs n s L g" and p: "p < n" "pc (procs s p) = Try m"
  shows "gsl_inv cs n (try_test (lcInitConflictTable cs) p m s) L g"
proof -
  let ?x = "procs s p"
  let ?y = "if acquire_free (lcInitConflictTable cs) ?x m (lock_c s) then ?x\<lparr>pc := Try_set m (lock_c s)\<rparr>
    else ?x\<lparr>pc := Idle, res_ok := False\<rparr>"
  show ?thesis
  proof (rule inv_goto [OF i p(1)])
    show "try_test (lcInitConflictTable cs) p m s = s\<lparr>queueLock := queueLock s, procs := (procs s)(p := ?y)\<rparr>"
      unfolding try_test_def goto_def upd_def by simp
    show "proc_ok cs ?y"
      using inv_facts(1) [OF i p(1)] p(2) unfolding proc_ok_def
      by (auto simp: hold_ok_def holds_def acquire_free_def)
  qed (use p in \<open>auto intro: wake_ok_plain split: if_splits\<close>)
qed

lemma set_cas: "lcSet c pre new = (c = pre, if c = pre then new else c)"
  unfolding lcSet_def by simp

lemma try_cas_inv:
  assumes i: "gsl_inv cs n s L g" and p: "p < n" "pc (procs s p) = Try_set m pre" and n: "n < 2 ^ 15" and cs: "conf_sym cs"
  shows "gsl_inv cs n (try_cas p m pre s) L g"
proof (cases "lock_c s = pre")
  case True
  have "acquire_free (lcInitConflictTable cs) (procs s p) m (lock_c s)"
    using inv_facts(1) [OF i p(1)] p(2) True unfolding proc_ok_def by auto
  from acquired_inv [OF i p(1) n cs _ _ _ _ this] show ?thesis
    using p True unfolding try_cas_def by (simp add: set_cas)
next
  case False
  then show ?thesis
    using goto_inv [OF i p(1), of "Try m"] p(2) unfolding try_cas_def by (simp add: set_cas)
qed

lemma acq_cas_inv:
  assumes i: "gsl_inv cs n s L g" and p: "p < n" "pc (procs s p) = Acq_set m pre" and n: "n < 2 ^ 15" and cs: "conf_sym cs"
  shows "gsl_inv cs n (acq_cas (lcInitConflictTable cs) p m pre s) L g"
proof (cases "lock_c s = pre")
  case c: True
  show ?thesis
  proof (cases "acquire_free (lcInitConflictTable cs) (procs s p) m pre")
    case True
    then show ?thesis
      using acquired_inv [OF i p(1) n cs, of m] p c unfolding acq_cas_def by (simp add: set_cas)
  next
    case False
    let ?x = "procs s p"
    have x: "m < 8" "m \<notin> holds ?x" "hold_ok ?x"
      using inv_facts(1) [OF i p(1)] p(2) unfolding proc_ok_def by auto
    show ?thesis
    proof (rule inv_local [OF i p(1)])
      show "acq_cas (lcInitConflictTable cs) p m pre s =
          s\<lparr>lock_c := lcAdd pre (lcActive m), queueLock := queueLock s, procs := (procs s)(p := ?x\<lparr>pc := Slow m\<rparr>)\<rparr>"
        using c False unfolding acq_cas_def goto_def upd_def by (simp add: set_cas)
      show "proc_ok cs (?x\<lparr>pc := Slow m\<rparr>)"
        using x unfolding proc_ok_def by (auto simp: hold_ok_def holds_def)
      have h: "has L g p (?x\<lparr>pc := Slow m\<rparr>) = has L g p ?x" "has L g p ?x = holds ?x"
        using p(2) by (simp_all add: has_plain) (simp add: holds_def)
      have "view cs n (lcAdd pre (lcActive m)) (has_of s L g) ((tries_of s)(p := {m}))"
        using view_announce [OF inv_facts(5) [OF i p(1)] n p(1) x(1), of "lcAdd pre (lcActive m)"] x(2) h(2) p(2) c
        by simp
      then show "view cs n (lcAdd pre (lcActive m)) ((has_of s L g)(p := has L g p (?x\<lparr>pc := Slow m\<rparr>)))
          ((tries_of s)(p := tries (pc (?x\<lparr>pc := Slow m\<rparr>))))"
        unfolding h(1) by (simp add: fun_upd_idem)
    qed (use p inv_facts(3) [OF i p(1)] inv_facts(8) [OF i p(1), of p] in \<open>auto intro: wake_ok_plain\<close>)
  qed
next
  case False
  then show ?thesis
    using goto_inv [OF i p(1), of "Acq m"] p(2) unfolding acq_cas_def by (simp add: set_cas)
qed

lemma slow_inv:
  assumes i: "gsl_inv cs n s L g" and p: "p < n" "pc (procs s p) = Slow m" and q: "queueLock s = None"
  shows "gsl_inv cs n (goto p (Undo m) (s\<lparr>queueLock := Some p\<rparr>)) L g"
proof (rule inv_goto [OF i p(1)])
  show "goto p (Undo m) (s\<lparr>queueLock := Some p\<rparr>) =
      s\<lparr>queueLock := Some p, procs := (procs s)(p := (procs s p)\<lparr>pc := Undo m\<rparr>)\<rparr>"
    unfolding goto_def upd_def by simp
  show "proc_ok cs ((procs s p)\<lparr>pc := Undo m\<rparr>)"
    using inv_facts(1) [OF i p(1)] p(2) unfolding proc_ok_def by (auto simp: hold_ok_def holds_def)
qed (use p q in \<open>auto intro: wake_ok_plain\<close>)

lemma undo_cas_inv:
  assumes i: "gsl_inv cs n s L g" and p: "p < n" "pc (procs s p) = Undo_set m pre"
  shows "gsl_inv cs n (undo_cas p m pre s) L g"
proof (cases "lock_c s = pre")
  case c: True
  let ?x = "procs s p"
  let ?c = "lcOr (lcSubtract pre (lcActive m)) (lcSetWait LC_ZERO m True)"
  have x: "m < 8" "m \<notin> holds ?x" "hold_ok ?x"
    using inv_facts(1) [OF i p(1)] p(2) unfolding proc_ok_def by auto
  show ?thesis
  proof (rule inv_local [OF i p(1)])
    show "undo_cas p m pre s = s\<lparr>lock_c := ?c, queueLock := queueLock s, procs := (procs s)(p := ?x\<lparr>pc := Enq m\<rparr>)\<rparr>"
      using c unfolding undo_cas_def goto_def upd_def by (simp add: set_cas Let_def)
    show "proc_ok cs (?x\<lparr>pc := Enq m\<rparr>)"
      using x unfolding proc_ok_def by (auto simp: hold_ok_def holds_def)
    have h: "has L g p (?x\<lparr>pc := Enq m\<rparr>) = holds ?x" "has L g p ?x = holds ?x"
      using p(2) by (simp_all add: has_plain) (simp add: holds_def)
    have "view cs n ?c ((has_of s L g)(p := holds ?x)) ((tries_of s)(p := {}))"
      using c x p(2) h set_wait_fields(1) [OF x(1)]
      by (intro view_drop [OF inv_facts(5) [OF i p(1)] p(1) x(1)]) auto
    then show "view cs n ?c ((has_of s L g)(p := has L g p (?x\<lparr>pc := Enq m\<rparr>)))
        ((tries_of s)(p := tries (pc (?x\<lparr>pc := Enq m\<rparr>))))"
      unfolding h(1) by simp
  qed (use p inv_facts(2,3) [OF i p(1)] inv_facts(8) [OF i p(1), of p] in \<open>auto intro: wake_ok_plain\<close>)
next
  case False
  then show ?thesis
    using goto_inv [OF i p(1), of "Undo m"] p(2) unfolding undo_cas_def by (simp add: set_cas Let_def)
qed

lemma rel_cas_inv:
  assumes i: "gsl_inv cs n s L g" and p: "p < n" "pc (procs s p) = Rel_set m pre"
  shows "gsl_inv cs n (rel_cas (lcInitConflictTable cs) p m pre s) L g"
proof (cases "lock_c s = pre")
  case c: True
  let ?x = "procs s p"
  let ?c = "lcSubtract pre (lcActive m)"
  let ?h = "lcSubtract (holding ?x) (lcActive m)"
  define y where "y = (if lcZero (lcAnd ?c (lcConflictMask (lcInitConflictTable cs) m False True))
    then ?x\<lparr>holding := ?h, lastLocalHold := lcZero ?h, pc := Idle, lastHold := lcZero ?c\<rparr>
    else ?x\<lparr>holding := ?h, lastLocalHold := lcZero ?h, pc := Rel_slow\<rparr>)"
  have y: "holding y = ?h" "pc y = Idle \<or> pc y = Rel_slow" "lockNext y = lockNext ?x" "wantMode y = wantMode ?x"
    "waitHolding y = waitHolding ?x" "woken y = woken ?x"
    unfolding y_def by simp_all
  have x: "m \<in> holds ?x" "m < 8" "hold_ok ?x"
    using inv_facts(1) [OF i p(1)] p(2) unfolding proc_ok_def by (auto simp: holds_def)
  show ?thesis
  proof (rule inv_local [OF i p(1)])
    show "rel_cas (lcInitConflictTable cs) p m pre s =
        s\<lparr>lock_c := ?c, queueLock := queueLock s, procs := (procs s)(p := y)\<rparr>"
      using c unfolding rel_cas_def goto_def upd_def y_def by (simp add: set_cas Let_def)
    show "proc_ok cs y"
      using hold_sub(1) [OF x(3,1) y(1)] y(2) unfolding proc_ok_def by auto
    have w: "waits (pc y) = None" "tries (pc y) = {}" "tries (pc ?x) = {}" "waits (pc ?x) = None"
      using p(2) y(2) by auto
    have h: "has L g p y = holds ?x - {m}" "has L g p ?x = holds ?x"
      using hold_sub(2) [OF x(3,1) y(1)] w by (simp_all add: has_plain)
    have "view cs n ?c ((has_of s L g)(p := holds ?x - {m})) ((tries_of s)(p := {}))"
      using x(1) w(3) h(2) c by (intro view_drop [OF inv_facts(5) [OF i p(1)] p(1) x(2)]) auto
    then show "view cs n ?c ((has_of s L g)(p := has L g p y)) ((tries_of s)(p := tries (pc y)))"
      unfolding h(1) w(2) .
  qed (use p y inv_facts(2,3) [OF i p(1)] inv_facts(8) [OF i p(1), of p] in \<open>auto intro: wake_ok_plain\<close>)
next
  case False
  then show ?thesis
    using goto_inv [OF i p(1), of "Rel m"] p(2) unfolding rel_cas_def by (simp add: set_cas Let_def)
qed

lemma rel_unlock_inv:
  assumes i: "gsl_inv cs n s L g" and p: "p < n" "pc (procs s p) = Rel_unlock"
  shows "gsl_inv cs n (rel_unlock p s) L g"
proof (rule inv_goto [OF i p(1)])
  show "rel_unlock p s = s\<lparr>queueLock := None, procs := (procs s)(p := (procs s p)\<lparr>pc := Idle, lastHold := False\<rparr>)\<rparr>"
    unfolding rel_unlock_def upd_def by simp
  show "proc_ok cs ((procs s p)\<lparr>pc := Idle, lastHold := False\<rparr>)"
    using inv_facts(1) [OF i p(1)] p(2) unfolding proc_ok_def by (auto simp: hold_ok_def holds_def)
qed (use p in \<open>auto intro: wake_ok_plain\<close>)

lemma sleep_in_inv:
  assumes i: "gsl_inv cs n s L g" and p: "p < n" "pc (procs s p) = Sleep_in m"
  shows "gsl_inv cs n (sleep_in p m s) L g"
proof (rule inv_goto [OF i p(1)])
  show "sleep_in p m s =
      s\<lparr>queueLock := None, procs := (procs s)(p := (procs s p)\<lparr>awaitedLock := True, pc := Asleep m\<rparr>)\<rparr>"
    unfolding sleep_in_def upd_def by simp
  show "proc_ok cs ((procs s p)\<lparr>awaitedLock := True, pc := Asleep m\<rparr>)"
    using inv_facts(1) [OF i p(1)] p(2) unfolding proc_ok_def by (auto simp: hold_ok_def holds_def)
qed (use p in \<open>auto intro: wake_ok_plain\<close>)

lemma sleep_out_inv:
  assumes i: "gsl_inv cs n s L g" and p: "p < n" "pc (procs s p) = Asleep m" "woken (procs s p)"
    and e: "sleep_out p m s = Inr s'"
  shows "gsl_inv cs n s' L g"
proof -
  let ?x = "procs s p"
  let ?y = "?x\<lparr>woken := False, awaitedLock := False, holding := lcAdd (holding ?x) (lcActive m), pc := Idle, res_ok := True\<rparr>"
  have x: "hold_ok ?x" "m < 8" "m \<notin> holds ?x" "p \<notin> set L"
    using inv_facts(1,3) [OF i p(1)] p(2,3) unfolding proc_ok_def by auto
  have y: "hold_ok ?y" "holds ?y = insert m (holds ?x)"
    using hold_add [OF x(1-3), of ?y] by simp_all
  have h: "has L g p ?y = has L g p ?x"
    using x(4) p(2) y(2) unfolding has_def by simp
  show ?thesis
  proof (rule inv_local [OF i p(1)])
    show "s' = s\<lparr>lock_c := lock_c s, queueLock := queueLock s, procs := (procs s)(p := ?y)\<rparr>"
      using e unfolding sleep_out_def acquired_def upd_def by simp
    show "proc_ok cs ?y"
      using y(1) unfolding proc_ok_def by simp
    show "view cs n (lock_c s) ((has_of s L g)(p := has L g p ?y)) ((tries_of s)(p := tries (pc ?y)))"
      using inv_facts(5) [OF i p(1)] p(2) unfolding h by (simp add: fun_upd_idem)
  qed (use p x(4) in \<open>auto intro: wake_ok_plain\<close>)
qed

lemma wake_test_inv:
  assumes i: "gsl_inv cs n s L g" and p: "p < n" "pc (procs s p) = Wake k l"
  shows "gsl_inv cs n (wake_test (lcInitConflictTable cs) p k l s) L g"
proof -
  have l: "link_in L l"
    using inv_facts(4) [OF i p(1)] p(2) unfolding wake_ok_def by simp
  have move: "gsl_inv cs n (goto p k' s) L g"
    if "waits k' = caller_mode k" "tries k' = {}" "asks k' = caller_mode k" "gives k' = None" "crit k'"
      "wake_ok cs s L g k'" "k' \<noteq> Cancel_in" "\<And>m pre. k' \<noteq> Try_set m pre" for k'
  proof (rule inv_goto [OF i p(1)])
    show "goto p k' s = s\<lparr>queueLock := queueLock s, procs := (procs s)(p := (procs s p)\<lparr>pc := k'\<rparr>)\<rparr>"
      unfolding goto_def upd_def by simp
    show "proc_ok cs ((procs s p)\<lparr>pc := k'\<rparr>)"
      using inv_facts(1) [OF i p(1)] p(2) that unfolding proc_ok_def by (auto simp: hold_ok_def holds_def)
  qed (use p that inv_facts(2) [OF i p(1)] in auto)
  have ret: "gsl_inv cs n (wake_return p k s) L g"
    by (cases k) (auto intro!: move wake_ok_plain)
  show ?thesis
  proof (cases "link_get s l")
    case None
    then show ?thesis
      using ret unfolding wake_test_def by simp
  next
    case (Some q)
    have "q \<in> set L"
      using link_get_in [OF inv_facts(6) [OF i p(1)] l Some] .
    then have "gsl_inv cs n (goto p (Wake k (L_next q)) s) L g"
      by (intro move) (simp_all add: wake_ok_def)
    moreover have "gsl_inv cs n (goto p (Wake_set k l (lock_c s)) s) L g" if "grantable cs (procs s q) (lock_c s)"
      using that l Some by (intro move) (simp_all add: wake_ok_def)
    ultimately show ?thesis
      using ret Some unfolding wake_test_def grantable_def by (simp add: Let_def lcNonZero_def lcZero_def)
  qed
qed

end
