(* ===== verification/Gsl_Excl.thy ===== *)
theory Gsl_Excl
  imports Gsl_Correct
begin

text \<open>
  The steps of the GSL lock that work on the queue keep the invariant, and with it exclusion: two
  processes never hold the lock in conflicting modes, and the counter of a mode never carries into
  its wait bit.
\<close>

section \<open>Granting\<close>

lemma alone:
  assumes "gsl_inv cs n s L g" "p < n" "crit (pc (procs s p))" "q < n" "crit (pc (procs s q))"
  shows "q = p"
  using assms unfolding gsl_inv_def by simp

lemma none_granting:
  assumes i: "gsl_inv cs n s L g" and p: "p < n" "crit (pc (procs s p))" "at_grant (pc (procs s p)) = None"
  shows "g = None"
proof (rule ccontr)
  assume "g \<noteq> None"
  then obtain q where q: "q < n" "at_grant (pc (procs s q)) \<noteq> None"
    using i unfolding gsl_inv_def by auto
  then have "crit (pc (procs s q))"
    by (metis at_grant_crit)
  then show False
    using alone [OF i p(1,2) q(1)] q(2) p(3) by simp
qed

lemma waits_tries: "waits k \<noteq> None \<Longrightarrow> tries k = {}"
  by (cases k) auto

lemma others_plain:
  assumes "gsl_inv cs n s L g" "p < n" "crit (pc (procs s p))" "q < n" "q \<noteq> p"
  shows "at_link (pc (procs s q)) = None"
proof -
  have "\<not> crit (pc (procs s q))"
    using alone [OF assms(1-4)] assms(5) by metis
  then show ?thesis
    by (cases "pc (procs s q)") auto
qed

text \<open>What is known of the process a waker looks at.\<close>

lemma waiter_facts:
  assumes i: "gsl_inv cs n s L g" and p: "p < n" "at_link (pc (procs s p)) = Some l" and q: "link_get s l = Some q"
  shows "q \<in> set L" "q < n" "waits (pc (procs s q)) = Some (wantMode (procs s q))"
    "waitHolding (procs s q) = holding (procs s q)" "wantMode (procs s q) < 8"
    "wantMode (procs s q) \<notin> holds (procs s q)" "hold_ok (procs s q)" "tries (pc (procs s q)) = {}"
proof -
  have "link_in L l"
    using inv_facts(4) [OF i p(1)] p(2) unfolding wake_ok_def by simp
  then show L: "q \<in> set L"
    by (rule link_get_in [OF inv_facts(6) [OF i p(1)] _ q])
  then show n: "q < n"
    using inv_facts(8) [OF i p(1) L] by simp
  obtain m where m: "waits (pc (procs s q)) = Some m"
    using inv_facts(8) [OF i p(1) L] by auto
  have a: "asks (pc (procs s q)) = Some m"
    using m by (cases "pc (procs s q)") auto
  show "waits (pc (procs s q)) = Some (wantMode (procs s q))" "waitHolding (procs s q) = holding (procs s q)"
    "wantMode (procs s q) < 8" "wantMode (procs s q) \<notin> holds (procs s q)" "hold_ok (procs s q)"
    using inv_facts(1) [OF i n] m a unfolding proc_ok_def by auto
  show "tries (pc (procs s q)) = {}"
    using m waits_tries by simp
qed

lemma wake_cas_inv:
  assumes i: "gsl_inv cs n s L g" and p: "p < n" "pc (procs s p) = Wake_set k l pre" and n: "n < 2 ^ 15"
    and cs: "conf_sym cs" and e: "wake_cas p k l pre s = Inr s'"
  shows "\<exists>g'. gsl_inv cs n s' L g'"
proof -
  obtain q where q: "link_get s l = Some q" "grantable cs (procs s q) pre"
    using inv_facts(4) [OF i p(1)] p(2) unfolding wake_ok_def by auto
  have at: "at_link (pc (procs s p)) = Some l"
    using p(2) by simp
  note w = waiter_facts [OF i p(1) at q(1)]
  have l: "link_in L l"
    using inv_facts(4) [OF i p(1)] p(2) unfolding wake_ok_def by simp
  show ?thesis
  proof (cases "lock_c s = pre")
    case False
    have s': "s' = s\<lparr>queueLock := queueLock s, procs := (procs s)(p := (procs s p)\<lparr>pc := Wake k l\<rparr>)\<rparr>"
      using e False q(1) unfolding wake_cas_def goto_def upd_def by (simp add: Let_def set_cas)
    have "gsl_inv cs n s' L g"
    proof (rule inv_goto [OF i p(1) s'])
      show "proc_ok cs ((procs s p)\<lparr>pc := Wake k l\<rparr>)"
        using inv_facts(1) [OF i p(1)] p(2) unfolding proc_ok_def by (auto simp: hold_ok_def holds_def)
      show "wake_ok cs s L g (pc ((procs s p)\<lparr>pc := Wake k l\<rparr>))"
        using l unfolding wake_ok_def by simp
    qed (use p(2) inv_facts(2) [OF i p(1)] in auto)
    then show ?thesis ..
  next
    case c: True
    have g: "g = None"
      using none_granting [OF i p(1)] p(2) by simp
    let ?m = "wantMode (procs s q)"
    obtain c' where c': "s' = s\<lparr>lock_c := c', procs := (procs s)(p := (procs s p)\<lparr>pc := Wake_grant k l\<rparr>)\<rparr>"
      "\<And>i. i < 8 \<Longrightarrow> cnt c' i = cnt (lcAdd pre (lcActive ?m)) i"
      using e c q(1) clear_wait_fields(1) [OF w(5)]
      unfolding wake_cas_def goto_def upd_def by (auto simp: Let_def set_cas split: if_splits)
    have v: "view cs n c' ((has_of s L None)(q := insert ?m (holds (procs s q)))) ((tries_of s)(q := {}))"
    proof (rule view_grant [where x = "procs s q" and c = pre, OF _ n cs w(2) _ _ w(7,5,6)])
      show "view cs n pre (has_of s L None) (tries_of s)"
        using inv_facts(5) [OF i p(1)] g c by simp
      show "has_of s L None q = holds (procs s q)"
        using w(1,3) unfolding has_def by simp
      show "cnt (lcSubtract pre (holding (procs s q))) i = 0" if "i < 8" "conf cs ?m i" for i
        using q(2) that cs w(4) grantable_zero unfolding conf_sym_def by metis
    qed (use c'(2) w(8) in simp_all)
    have h: "has_of s' L (Some q) = (has_of s L None)(q := insert ?m (holds (procs s q)))"
    proof
      fix r
      show "has_of s' L (Some q) r = ((has_of s L None)(q := insert ?m (holds (procs s q)))) r"
        using w(1,3) p(2) unfolding c'(1) has_def by (auto simp: holds_def split: option.splits)
    qed
    have t: "tries_of s' = (tries_of s)(q := {})"
      using p(2) w(8) by (intro ext) (simp add: c'(1))
    have nx: "next_of s' = next_of s" and lg: "link_get s' l = link_get s l"
      unfolding c'(1) by (auto, cases l) auto
    have wo: "waiters_of s' L i = waiters_of s L i" for i
      unfolding waiters_of_def c'(1) by (auto intro: arg_cong [where f = length] filter_cong)
    have wk: "wake_ok cs s' L (Some q) (pc (procs s' r))" if "r < n" for r
    proof (cases "r = p")
      case True
      then show ?thesis
        using q(1) l lg unfolding wake_ok_def c'(1) by simp
    next
      case False
      then show ?thesis
        using others_plain [OF i p(1) _ that False] p(2) unfolding c'(1) by (simp add: wake_ok_plain)
    qed
    have "gsl_inv cs n s' L (Some q)"
      using i wk v p nx wo unfolding gsl_inv_def h t
      by (auto simp: c'(1) proc_ok_def hold_ok_def holds_def)
    then show ?thesis ..
  qed
qed

fun seg :: "(nat \<Rightarrow> nat option) \<Rightarrow> nat option \<Rightarrow> nat list \<Rightarrow> nat option \<Rightarrow> bool" where
  "seg nx h [] e \<longleftrightarrow> h = e"
| "seg nx h (q # qs) e \<longleftrightarrow> h = Some q \<and> seg nx (nx q) qs e"

lemma path_append: "path nx h (A @ B) \<longleftrightarrow> (\<exists>e. seg nx h A e \<and> path nx e B)"
  by (induction A arbitrary: h) auto

lemma path_cong: "(\<And>q. q \<in> set L \<Longrightarrow> nx' q = nx q) \<Longrightarrow> path nx' h L = path nx h L"
  by (induction L arbitrary: h) auto

lemma seg_cong: "(\<And>q. q \<in> set L \<Longrightarrow> nx' q = nx q) \<Longrightarrow> seg nx' h L e = seg nx h L e"
  by (induction L arbitrary: h) auto

lemma path_unique: "path nx h A \<Longrightarrow> path nx h B \<Longrightarrow> A = B"
proof (induction A arbitrary: h B)
  case Nil
  then show ?case
    by (cases B) auto
next
  case (Cons a A)
  then show ?case
    by (cases B) auto
qed

lemma unlink_head: "path nx (Some q) L \<Longrightarrow> distinct L \<Longrightarrow> path (nx(q := None)) (nx q) (remove1 q L)"
proof (cases L)
  case (Cons r M)
  assume a: "path nx (Some q) L" "distinct L"
  then have "path (nx(q := None)) (nx q) M = path nx (nx q) M"
    using Cons by (intro path_cong) auto
  then show ?thesis
    using a Cons by auto
qed simp

lemma unlink_next:
  assumes "path nx h L" "distinct L" "r \<in> set L" "nx r = Some q"
  shows "path (nx(r := nx q, q := None)) h (remove1 q L)"
proof -
  obtain A B where L: "L = A @ r # B"
    using assms(3) by (meson split_list)
  then obtain C where B: "B = q # C"
    using assms(1,4) by (cases B) (auto simp: path_append)
  have d: "r \<noteq> q" "q \<notin> set A" "r \<notin> set A" "q \<notin> set C" "r \<notin> set C"
    using assms(2) unfolding L B by auto
  have "seg (nx(r := nx q, q := None)) h A (Some r) = seg nx h A (Some r)"
    "path (nx(r := nx q, q := None)) (nx q) C = path nx (nx q) C"
    using d by (intro seg_cong path_cong; auto)+
  then have "seg (nx(r := nx q, q := None)) h A (Some r)" "path (nx(r := nx q, q := None)) (nx q) C"
    using assms(1) unfolding L B by (auto simp: path_append)
  then show ?thesis
    unfolding L B using d by (auto simp: path_append remove1_append)
qed

lemma link_not_self:
  assumes "path (next_of s) (waiter s) L" "distinct L" "link_in L l" "link_get s l = Some q"
  shows "l \<noteq> L_next q"
proof
  assume l: "l = L_next q"
  then obtain A B where L: "L = A @ q # B"
    using assms(3) by (auto dest: split_list)
  then have "path (next_of s) (next_of s q) B"
    using assms(1) by (auto simp: path_append)
  then have "q \<in> set B"
    using assms(4) l by (cases B) auto
  then show False
    using assms(2) L by simp
qed

lemma waiters_of_remove:
  "q \<in> set L \<Longrightarrow> waiters_of s L i = waiters_of s (remove1 q L) i + (if wantMode (procs s q) = i then 1 else 0)"
  unfolding waiters_of_def by (induction L) auto

lemma waiters_of_cong: "(\<And>q. wantMode (procs s' q) = wantMode (procs s q)) \<Longrightarrow> waiters_of s' = waiters_of s"
  unfolding waiters_of_def by simp

lemma wake_grant_inv:
  assumes i: "gsl_inv cs n s L g" and p: "p < n" "pc (procs s p) = Wake_grant k l"
    and e: "wake_grant p k l s = Inr s'"
  shows "\<exists>L'. gsl_inv cs n s' L' None"
proof -
  obtain q where q: "link_get s l = Some q" "g = Some q"
    using inv_facts(4) [OF i p(1)] p(2) unfolding wake_ok_def by auto
  have at: "at_link (pc (procs s p)) = Some l"
    using p(2) by simp
  note w = waiter_facts [OF i p(1) at q(1)]
  have l: "link_in L l"
    using inv_facts(4) [OF i p(1)] p(2) unfolding wake_ok_def by simp
  let ?L = "remove1 q L"
  define nx where "nx = (case l of L_waiter \<Rightarrow> (next_of s)(q := None) | L_next r \<Rightarrow> (next_of s)(r := next_of s q, q := None))"
  have d: "distinct L"
    using inv_facts(7) [OF i p(1)] .
  have a: "s' = goto p (Wake k l) (upd q (\<lambda>y. y\<lparr>lockNext := None\<rparr>) (link_set l (next_of s q)
      ((upd q (\<lambda>y. y\<lparr>woken := True\<rparr>) s)\<lparr>waitCounts := (waitCounts s)
        [wantMode (procs s q) := waitCounts s ! wantMode (procs s q) - 1]\<rparr>)))"
    using e q(1) unfolding wake_grant_def by (simp add: Let_def upd_def)
  have s': "next_of s' = nx" "waiter s' = (case l of L_waiter \<Rightarrow> next_of s q | _ \<Rightarrow> waiter s)"
    "lock_c s' = lock_c s" "queueLock s' = queueLock s"
    "waitCounts s' = (waitCounts s)[wantMode (procs s q) := waitCounts s ! wantMode (procs s q) - 1]"
    "\<And>r. pc (procs s' r) = (if r = p then Wake k l else pc (procs s r))"
    "\<And>r. woken (procs s' r) = (r = q \<or> woken (procs s r))"
    "\<And>r. holding (procs s' r) = holding (procs s r)" "\<And>r. wantMode (procs s' r) = wantMode (procs s r)"
    "\<And>r. waitHolding (procs s' r) = waitHolding (procs s r)"
    unfolding nx_def by (cases l; auto simp: a fun_eq_iff)+
  have path: "path nx (waiter s') ?L"
    using inv_facts(6) [OF i p(1)] d l q(1) unlink_head unlink_next unfolding nx_def s'(2) by (cases l) auto
  have sL: "set ?L = set L - {q}"
    using d by (rule set_remove1_eq)
  have pw: "waits (pc (procs s' r)) = waits (pc (procs s r))" "holds (procs s' r) = holds (procs s r)" for r
    using p(2) unfolding holds_def s' by simp_all
  have h: "has_of s' ?L None = has_of s L g"
    unfolding has_def pw sL q(2) by (rule ext) (auto split: option.splits)
  have t: "tries_of s' = tries_of s"
    using p(2) by (intro ext) (simp add: s')
  have wk: "wake_ok cs s' ?L None (pc (procs s' r))" if "r < n" for r
  proof (cases "r = p")
    case True
    have "link_in ?L l"
      using l link_not_self [OF inv_facts(6) [OF i p(1)] d l q(1)] sL by (cases l) auto
    then show ?thesis
      using True unfolding wake_ok_def s' by simp
  next
    case False
    then show ?thesis
      using others_plain [OF i p(1) _ that False] p(2) unfolding s' by (simp add: wake_ok_plain)
  qed
  have ok: "proc_ok cs (procs s' r)" if "r < n" for r
    using inv_facts(1) [OF i that] p(2) unfolding proc_ok_def hold_ok_def pw s'
    by (auto simp: acquire_free_def s')
  have cr: "crit (pc (procs s' r)) = crit (pc (procs s r))" for r
    using p(2) unfolding s' by simp
  have wc: "waitCounts s' ! j = int (waiters_of s' ?L j)" if "j < 8" for j
  proof -
    have "waitCounts s ! j = int (waiters_of s L j)" "length (waitCounts s) = 8"
      using i that unfolding gsl_inv_def by auto
    then show ?thesis
      using waiters_of_remove [OF w(1), of s j] waiters_of_cong [OF s'(9)] w(5) that
      unfolding s'(5) by (auto simp: nth_list_update)
  qed
  have "gsl_inv cs n s' ?L None"
    unfolding gsl_inv_def h t cr pw s'(1,3,4)
    using i ok path wk wc d sL w(3) unfolding gsl_inv_def s'(5,7) by auto
  then show ?thesis ..
qed


section \<open>Entering the queue\<close>

lemma queue_from_path: "queue_from s n h = Inr qs \<Longrightarrow> path (next_of s) h qs"
  by (induction s n h arbitrary: qs rule: queue_from.induct) auto

text \<open>
  The tail pointer may point into a process that has left the queue. Wherever it points, the chain
  after the write has one more process only if it pointed to the end.
\<close>

lemma append_shape:
  assumes P: "path nx h L" "distinct L" "p \<notin> set L"
  shows "\<exists>qs. path (case l of L_waiter \<Rightarrow> nx(p := None) | L_next r \<Rightarrow> nx(r := Some p, p := None))
             (case l of L_waiter \<Rightarrow> Some p | _ \<Rightarrow> h) qs \<and>
           set qs \<subseteq> insert p (set L) \<and> (length qs = Suc (length L) \<longrightarrow> qs = L @ [p])"
proof (cases l)
  case L_waiter
  then show ?thesis
    by (intro exI [of _ "[p]"]) auto
next
  case (L_next r)
  let ?nx = "nx(r := Some p, p := None)"
  show ?thesis
  proof (cases "r \<in> set L")
    case True
    then obtain A B where L: "L = A @ r # B"
      by (meson split_list)
    have "seg ?nx h A (Some r) = seg nx h A (Some r)"
      using P unfolding L by (intro seg_cong) auto
    then have "path ?nx h (A @ [r, p])"
      using P unfolding L by (auto simp: path_append)
    then show ?thesis
      unfolding L L_next by (intro exI [of _ "A @ [r, p]"]) auto
  next
    case False
    then have "path ?nx h L = path nx h L"
      using P by (intro path_cong) auto
    then show ?thesis
      unfolding L_next using P by (intro exI [of _ L]) auto
  qed
qed

lemma sum_waiters:
  fixes k :: nat
  shows "(\<And>q. q \<in> set qs \<Longrightarrow> f q < k) \<Longrightarrow> (\<Sum>i<k. length (filter (\<lambda>q. f q = i) qs)) = length qs"
proof (induction qs)
  case (Cons q qs)
  have "(\<Sum>i<k. length (filter (\<lambda>r. f r = i) (q # qs))) =
      (\<Sum>i<k. (if f q = i then 1 else 0) + length (filter (\<lambda>r. f r = i) qs))"
    by (rule sum.cong) auto
  also have "\<dots> = (\<Sum>i<k. if f q = i then 1 else 0) + length qs"
    using Cons by (simp add: sum.distrib)
  also have "(\<Sum>i<k. if f q = i then 1 else 0) = (1 :: nat)"
    using Cons.prems [of q] by (subst sum.delta') auto
  finally show ?case
    by simp
qed simp

text \<open>The state in which \<^verbatim>\<open>enqueue\<close> calls \<^verbatim>\<open>wake\<close>; only links and the upgrade flag differ in \<open>s1\<close>.\<close>

definition same_but_links :: "gsl_state \<Rightarrow> gsl_state \<Rightarrow> bool" where
  "same_but_links s1 s \<longleftrightarrow> lock_c s1 = lock_c s \<and> queueLock s1 = queueLock s \<and> waitCounts s1 = waitCounts s \<and>
     (\<forall>r. pc (procs s1 r) = pc (procs s r) \<and> woken (procs s1 r) = woken (procs s r) \<and>
       wantMode (procs s1 r) = wantMode (procs s r) \<and> waitHolding (procs s1 r) = waitHolding (procs s r) \<and>
       holding (procs s1 r) = holding (procs s r) \<and> awaitedLock (procs s1 r) = awaitedLock (procs s r))"

lemma enqueue_head_shape:
  assumes "path (next_of s) (waiter s) L" "p \<notin> set L"
  shows "same_but_links (enqueue_head p s) s" "path (next_of (enqueue_head p s)) (waiter (enqueue_head p s)) (p # L)"
proof -
  show "same_but_links (enqueue_head p s) s"
    unfolding same_but_links_def enqueue_head_def by (simp add: Let_def)
  have nx: "next_of (enqueue_head p s) = (next_of s)(p := waiter s)" "waiter (enqueue_head p s) = Some p"
    unfolding enqueue_head_def by (auto simp: Let_def fun_eq_iff)
  have "path ((next_of s)(p := waiter s)) (waiter s) L = path (next_of s) (waiter s) L"
    using assms(2) by (intro path_cong) auto
  then show "path (next_of (enqueue_head p s)) (waiter (enqueue_head p s)) (p # L)"
    unfolding nx using assms(1) by simp
qed

lemma enqueue_tail_shape:
  assumes "path (next_of s) (waiter s) L" "distinct L" "p \<notin> set L" "enqueue_tail p s = Inr s1"
  shows "same_but_links s1 s"
    "\<exists>qs. path (next_of s1) (waiter s1) qs \<and> set qs \<subseteq> insert p (set L) \<and> (length qs = Suc (length L) \<longrightarrow> qs = L @ [p])"
proof -
  obtain l where l: "s1 = upd p (\<lambda>x. x\<lparr>lockNext := None, isUpgrade := False\<rparr>)
      ((link_set l (Some p) (if waiter s = None then s\<lparr>waiterTail := Some L_waiter\<rparr> else s))\<lparr>waiterTail := Some (L_next p)\<rparr>)"
    using assms(4) unfolding enqueue_tail_def by (auto simp: Let_def split: option.splits)
  show "same_but_links s1 s"
    unfolding same_but_links_def l by simp
  have nx: "next_of s1 = (case l of L_waiter \<Rightarrow> (next_of s)(p := None) | L_next r \<Rightarrow> (next_of s)(r := Some p, p := None))"
    "waiter s1 = (case l of L_waiter \<Rightarrow> Some p | _ \<Rightarrow> waiter s)"
    unfolding l by (cases l; auto simp: fun_eq_iff)+
  show "\<exists>qs. path (next_of s1) (waiter s1) qs \<and> set qs \<subseteq> insert p (set L) \<and> (length qs = Suc (length L) \<longrightarrow> qs = L @ [p])"
    unfolding nx using append_shape [OF assms(1-3), of l] .
qed

lemma enqueue_shape:
  assumes i: "gsl_inv cs n s L g" and p: "p < n" "pc (procs s p) = Enq m" and e: "enqueue n p m s = Inr s'"
  obtains s1 qs where "same_but_links s1 s" "path (next_of s1) (waiter s1) qs" "qs = p # L \<or> qs = L @ [p]"
    "s' = goto p (Wake (By_acquire m) L_waiter) (upd p (\<lambda>x. x\<lparr>wantMode := m, waitHolding := holding (procs s p)\<rparr>)
        (s1\<lparr>waitCounts := (waitCounts s1)[m := waitCounts s1 ! m + 1]\<rparr>))"
proof -
  have P: "path (next_of s) (waiter s) L" "distinct L" "p \<notin> set L"
    using inv_facts(6,7) [OF i p(1)] inv_facts(8) [OF i p(1), of p] p(2) by auto
  obtain s1 where s1: "(if lcNonZero (holding (procs s p)) then Inr (enqueue_head p s) else enqueue_tail p s) = Inr s1"
      "wake_begin n p (By_acquire m) (upd p (\<lambda>x. x\<lparr>wantMode := m, waitHolding := holding (procs s p)\<rparr>)
        (s1\<lparr>waitCounts := (waitCounts s1)[m := waitCounts s1 ! m + 1]\<rparr>)) = Inr s'" (is "wake_begin n p _ ?s3 = _")
    using e unfolding enqueue_def by (auto simp: Let_def)
  obtain qs where qs: "queue_from ?s3 n (waiter ?s3) = Inr qs"
      "\<forall>i<8. waitCounts ?s3 ! i = int (length (filter (\<lambda>q. wantMode (procs ?s3 q) = i) qs))"
      "s' = goto p (Wake (By_acquire m) L_waiter) ?s3"
    using s1(2) unfolding wake_begin_def by (auto simp del: upd_sel)
  have nx: "next_of ?s3 = next_of s1" "waiter ?s3 = waiter s1"
    by (auto simp: fun_eq_iff)
  have path: "path (next_of s1) (waiter s1) qs"
    using queue_from_path [OF qs(1)] unfolding nx .
  show ?thesis
  proof (cases "lcNonZero (holding (procs s p))")
    case True
    then have "s1 = enqueue_head p s"
      using s1(1) by simp
    then show ?thesis
      using that [OF _ _ _ qs(3)] enqueue_head_shape [OF P(1,3)] by blast
  next
    case False
    then have t: "enqueue_tail p s = Inr s1"
      using s1(1) by simp
    note shape = enqueue_tail_shape [OF P t]
    obtain ks where ks: "path (next_of s1) (waiter s1) ks" "set ks \<subseteq> insert p (set L)"
        "length ks = Suc (length L) \<longrightarrow> ks = L @ [p]"
      using shape(2) by blast
    have q: "qs = ks"
      using path_unique [OF path ks(1)] .
    have m: "m < 8"
      using inv_facts(1) [OF i p(1)] p(2) unfolding proc_ok_def by simp
    have want: "wantMode (procs s r) < 8" if "r \<in> set L" for r
      using inv_facts(8) [OF i p(1) that] inv_facts(1) [OF i, of r] unfolding proc_ok_def
      by (cases "pc (procs s r)") auto
    have want3: "wantMode (procs ?s3 r) = (if r = p then m else wantMode (procs s r))" for r
      using shape(1) unfolding same_but_links_def by simp
    have wc: "waitCounts s1 = waitCounts s" "length (waitCounts s) = 8" "\<forall>i<8. waitCounts s ! i = int (waiters_of s L i)"
      using shape(1) i unfolding same_but_links_def gsl_inv_def by auto
    have "wantMode (procs ?s3 r) < 8" if "r \<in> set qs" for r
      using ks(2) want m that unfolding q want3 by auto
    then have "int (length qs) = (\<Sum>i<8. int (length (filter (\<lambda>q. wantMode (procs ?s3 q) = i) qs)))"
      using sum_waiters [of qs "\<lambda>q. wantMode (procs ?s3 q)" 8] by (simp only: of_nat_sum [symmetric])
    also have "\<dots> = (\<Sum>i<8. waitCounts ?s3 ! i)"
      using qs(2) by (intro sum.cong) simp_all
    also have "\<dots> = (\<Sum>i<8. waitCounts s ! i + (if i = m then 1 else 0))"
      using wc m by (intro sum.cong) (auto simp: nth_list_update)
    also have "\<dots> = int (length L) + 1"
      using sum_waiters [of L "\<lambda>q. wantMode (procs s q)" 8] wc(3) want m
      unfolding waiters_of_def by (simp add: sum.distrib flip: of_nat_sum)
    finally have "qs = L @ [p]"
      using ks(3) q by simp
    then show ?thesis
      using that [OF shape(1) path _ qs(3)] by blast
  qed
qed

lemma enqueue_inv:
  assumes i: "gsl_inv cs n s L g" and p: "p < n" "pc (procs s p) = Enq m" and e: "enqueue n p m s = Inr s'"
  shows "\<exists>L'. gsl_inv cs n s' L' g"
proof -
  obtain s1 qs where s1: "same_but_links s1 s" "path (next_of s1) (waiter s1) qs" "qs = p # L \<or> qs = L @ [p]"
    and s': "s' = goto p (Wake (By_acquire m) L_waiter) (upd p (\<lambda>x. x\<lparr>wantMode := m, waitHolding := holding (procs s p)\<rparr>)
        (s1\<lparr>waitCounts := (waitCounts s1)[m := waitCounts s1 ! m + 1]\<rparr>))"
    by (rule enqueue_shape [OF i p e])
  have x: "m < 8" "m \<notin> holds (procs s p)" "hold_ok (procs s p)" "p \<notin> set L" "distinct L"
    using inv_facts(1,7) [OF i p(1)] inv_facts(8) [OF i p(1), of p] p(2) unfolding proc_ok_def by auto
  have g: "g = None"
    using none_granting [OF i p(1)] p(2) by simp
  have f: "lock_c s' = lock_c s" "queueLock s' = queueLock s" "waiter s' = waiter s1" "next_of s' = next_of s1"
    "waitCounts s' = (waitCounts s)[m := waitCounts s ! m + 1]"
    "\<And>r. pc (procs s' r) = (if r = p then Wake (By_acquire m) L_waiter else pc (procs s r))"
    "\<And>r. woken (procs s' r) = woken (procs s r)" "\<And>r. holding (procs s' r) = holding (procs s r)"
    "\<And>r. wantMode (procs s' r) = (if r = p then m else wantMode (procs s r))"
    "\<And>r. waitHolding (procs s' r) = (if r = p then holding (procs s p) else waitHolding (procs s r))"
    using s1(1) unfolding s' same_but_links_def by (auto simp: fun_eq_iff)
  have h: "holds (procs s' r) = holds (procs s r)" for r
    unfolding holds_def f ..
  have qs: "distinct qs" "set qs = insert p (set L)"
    using s1(3) x(4,5) by auto
  have "has qs None r (procs s' r) = has L None r (procs s r)" for r
    unfolding has_def h f(6) qs(2) using p(2) x(4) by (cases "r = p") (simp_all cong: option.case_cong)
  moreover have "tries (pc (procs s' r)) = tries (pc (procs s r))" for r
    unfolding f(6) using p(2) by simp
  ultimately have has: "has_of s' qs None = has_of s L None" "tries_of s' = tries_of s"
    by (simp_all only:)
  have ok: "proc_ok cs (procs s' r)" if "r < n" for r
    using inv_facts(1) [OF i that] p(2) x(1-3) unfolding proc_ok_def hold_ok_def h f acquire_free_def
    by (cases "r = p") simp_all
  have wk: "wake_ok cs s' qs None (pc (procs s' r))" if "r < n" for r
  proof (cases "r = p")
    case False
    then show ?thesis
      using others_plain [OF i p(1) _ that False] p(2) unfolding f by (simp add: wake_ok_plain)
  qed (simp add: f wake_ok_def)
  have wc: "waitCounts s' ! j = int (waiters_of s' qs j)" if "j < 8" for j
  proof -
    have "waitCounts s ! j = int (waiters_of s L j)" "length (waitCounts s) = 8"
      using i that unfolding gsl_inv_def by auto
    moreover have "waiters_of s' qs j = waiters_of s L j + (if j = m then 1 else 0)"
    proof -
      have "filter (\<lambda>q. wantMode (procs s' q) = j) L = filter (\<lambda>q. wantMode (procs s q) = j) L"
        using x(4) unfolding f by (intro filter_cong) auto
      moreover have "wantMode (procs s' p) = m"
        by (simp add: f(9))
      ultimately show ?thesis
        using s1(3) unfolding waiters_of_def by auto
    qed
    ultimately show ?thesis
      using that unfolding f(5) by (auto simp: nth_list_update)
  qed
  have cr: "crit (pc (procs s' r)) = crit (pc (procs s r))" for r
    using p(2) unfolding f by simp
  have "gsl_inv cs n s' qs None"
    unfolding gsl_inv_def has f(1-4) cr
    using i ok s1(2) wk wc qs p x(4) unfolding gsl_inv_def g f(5-7) by auto
  then show ?thesis
    using g by blast
qed

lemma rel_slow_inv:
  assumes i: "gsl_inv cs n s L g" and p: "p < n" "pc (procs s p) = Rel_slow" and q: "queueLock s = None"
    and e: "wake_begin n p By_release (s\<lparr>queueLock := Some p\<rparr>) = Inr s'"
  shows "gsl_inv cs n s' L g"
proof (rule inv_goto [OF i p(1)])
  show "s' = s\<lparr>queueLock := Some p, procs := (procs s)(p := (procs s p)\<lparr>pc := Wake By_release L_waiter\<rparr>)\<rparr>"
    using e unfolding wake_begin_def goto_def upd_def by auto
  show "proc_ok cs ((procs s p)\<lparr>pc := Wake By_release L_waiter\<rparr>)"
    using inv_facts(1) [OF i p(1)] p(2) unfolding proc_ok_def by (auto simp: hold_ok_def holds_def)
qed (use p q in \<open>auto simp: wake_ok_def\<close>)


section \<open>Exclusion\<close>

lemma gsl_step_inv:
  assumes i: "gsl_inv cs n s L g" and p: "p < n" and n: "n < 2 ^ 15" and cs: "conf_sym cs"
    and e: "gsl_step (lcInitConflictTable cs) n p s = Inr (Some s')"
  shows "\<exists>L' g'. gsl_inv cs n s' L' g'"
proof (cases "pc (procs s p)")
  case Idle
  then show ?thesis
    using e unfolding gsl_step_def by simp
next
  case (Try m)
  then show ?thesis
    using e try_test_inv [OF i p] unfolding gsl_step_def by auto
next
  case (Try_set m pre)
  then show ?thesis
    using e try_cas_inv [OF i p _ n cs] unfolding gsl_step_def by auto
next
  case (Acq m)
  then show ?thesis
    using e goto_inv [OF i p, of "Acq_set m (lock_c s)"] unfolding gsl_step_def by auto
next
  case (Acq_set m pre)
  then show ?thesis
    using e acq_cas_inv [OF i p _ n cs] unfolding gsl_step_def by auto
next
  case (Slow m)
  then show ?thesis
    using e slow_inv [OF i p] unfolding gsl_step_def by (auto split: if_splits)
next
  case (Undo m)
  then show ?thesis
    using e goto_inv [OF i p, of "Undo_set m (lock_c s)"] unfolding gsl_step_def by auto
next
  case (Undo_set m pre)
  then show ?thesis
    using e undo_cas_inv [OF i p] unfolding gsl_step_def by auto
next
  case (Enq m)
  then show ?thesis
    using e enqueue_inv [OF i p Enq] unfolding gsl_step_def by auto
next
  case (Wake k l)
  then show ?thesis
    using e wake_test_inv [OF i p] unfolding gsl_step_def by auto
next
  case (Wake_set k l pre)
  then show ?thesis
    using e wake_cas_inv [OF i p Wake_set n cs] unfolding gsl_step_def by auto
next
  case (Wake_grant k l)
  then show ?thesis
    using e wake_grant_inv [OF i p Wake_grant] unfolding gsl_step_def by auto
next
  case (Sleep_in m)
  then show ?thesis
    using e sleep_in_inv [OF i p] unfolding gsl_step_def by auto
next
  case (Asleep m)
  then show ?thesis
    using e sleep_out_inv [OF i p] unfolding gsl_step_def by (auto split: if_splits)
next
  case (Rel m)
  then show ?thesis
    using e goto_inv [OF i p, of "Rel_set m (lock_c s)"] unfolding gsl_step_def by auto
next
  case (Rel_set m pre)
  then show ?thesis
    using e rel_cas_inv [OF i p] unfolding gsl_step_def by auto
next
  case Rel_slow
  then show ?thesis
    using e rel_slow_inv [OF i p] unfolding gsl_step_def by (auto split: if_splits)
next
  case Rel_unlock
  then show ?thesis
    using e rel_unlock_inv [OF i p] unfolding gsl_step_def by auto
next
  case Cancel_in
  then show ?thesis
    using inv_facts(1) [OF i p] unfolding proc_ok_def by simp
qed

lemma gsl_event_inv:
  assumes i: "gsl_inv cs n s L g" and n: "n < 2 ^ 15" and cs: "conf_sym cs" and u: "gsl_usage n e s" "\<not> is_cancel e"
    and x: "gsl_exec (lcInitConflictTable cs) n e s = Inr (Some s')"
  shows "\<exists>L' g'. gsl_inv cs n s' L' g'"
proof (cases e)
  case (E_acquire p m b)
  then show ?thesis
    using acquire_call_inv [OF i u(1) [unfolded E_acquire]] x by auto
next
  case (E_release p m)
  then show ?thesis
    using release_call_inv [OF i u(1) [unfolded E_release]] x by auto
next
  case (E_step p)
  then show ?thesis
    using gsl_step_inv [OF i _ n cs] u x by auto
qed (use u(2) in simp)

lemma gsl_reach_inv:
  assumes "gsl_reach (lcInitConflictTable cs) n s" "n < 2 ^ 15" "conf_sym cs"
  shows "\<exists>L g. gsl_inv cs n s L g"
  using assms(1)
proof induction
  case start
  show ?case
    using gsl_inv_init by blast
next
  case (event s e s')
  then show ?case
    using gsl_event_inv [OF _ assms(2,3)] by blast
qed

lemma active_holds: "m < 8 \<Longrightarrow> lcGetActive (holding x) m \<noteq> 0 \<longleftrightarrow> m \<in> holds x"
  unfolding holds_def cnt_def by (simp add: unat_eq_0)

lemma run_reach:
  assumes "gsl_reach tbl n s" "gsl_run tbl n es s = Inr (Some s')" "list_all (\<lambda>e. \<not> is_cancel e) es"
  shows "gsl_reach tbl n s'"
  using assms
proof (induction es arbitrary: s)
  case (Cons e es)
  obtain s1 where "gsl_usage n e s" "gsl_exec tbl n e s = Inr (Some s1)" "gsl_run tbl n es s1 = Inr (Some s')"
    using Cons.prems(2) by (auto simp: run_bind_def split: if_splits sum.splits option.splits)
  then show ?case
    using Cons gsl_reach.event by fastforce
qed simp

lemma pg_conf_sym: "conf_sym pg_conflicts"
  unfolding conf_sym_def by code_simp

text \<open>A state in which process 0 holds \<open>RowShareLock\<close> and process 1 \<open>RowExclusiveLock\<close>.\<close>

definition two_holders_run :: "gsl_event list" where
  "two_holders_run = [E_acquire 0 1 False, E_acquire 1 2 True, E_step 0, E_step 1, E_step 0, E_step 1, E_step 1, E_step 1]"

lemma two_holders:
  obtains s where "gsl_reach (lcInitConflictTable pg_conflicts) 2 s"
    "lcGetActive (holding (procs s 0)) 1 \<noteq> 0" "lcGetActive (holding (procs s 1)) 2 \<noteq> 0"
    "\<forall>p<2. pc (procs s p) = Idle"
proof -
  let ?T = "lcInitConflictTable pg_conflicts"
  have "completes (gsl_run ?T 2 two_holders_run gslLockInit)
      (\<lambda>s. lcGetActive (holding (procs s 0)) 1 \<noteq> 0 \<and> lcGetActive (holding (procs s 1)) 2 \<noteq> 0 \<and>
        is_Idle (pc (procs s 0)) \<and> is_Idle (pc (procs s 1)))"
    by code_simp
  then obtain s where s: "gsl_run ?T 2 two_holders_run gslLockInit = Inr (Some s)"
      "lcGetActive (holding (procs s 0)) 1 \<noteq> 0" "lcGetActive (holding (procs s 1)) 2 \<noteq> 0"
      "is_Idle (pc (procs s 0))" "is_Idle (pc (procs s 1))"
    by (auto elim: completesE)
  have idle: "\<forall>p<2. pc (procs s p) = Idle"
    using s(4,5) by (auto simp: less_2_cases_iff is_Idle_def)
  have "gsl_reach ?T 2 s"
    by (rule run_reach [OF gsl_reach.start s(1)]) (simp add: two_holders_run_def)
  then show ?thesis
    using s idle that by blast
qed






section \<open>Two faults of the code\<close>

text \<open>Two processes want the lock exclusively; the second sleeps, is interrupted and cancels.\<close>

definition cancel_run :: "gsl_event list" where
  "cancel_run = E_acquire 0 7 False # replicate 2 (E_step 0) @ E_acquire 1 7 False # replicate 8 (E_step 1) @
     [E_cancel 1, E_step 1]"


text \<open>
  Processes 0 and 1 hold \<open>AccessShareLock\<close>, 1 waits for \<open>AccessExclusiveLock\<close>; 2 queues behind it for
  \<open>AccessShareLock\<close> and is granted it at once; then 3 queues.
\<close>

definition upgrade_run :: "gsl_event list" where
  "upgrade_run = E_acquire 0 0 False # replicate 2 (E_step 0) @ E_acquire 1 0 False # replicate 2 (E_step 1) @
     E_acquire 1 7 False # replicate 9 (E_step 1) @ E_acquire 2 0 False # replicate 13 (E_step 2) @
     E_acquire 3 0 False # replicate 6 (E_step 3)"


end
