(* ===== verification/Spec2Isabelle.thy ===== *)
theory Spec2Isabelle
  imports Kvs_Array Kv_Arrays App_Wc Reduce Psrs Barrier Estimation Threadpool Kvstore Wc_Run App_Hist App_Lr App_Mm App_Wr Gsl_Excl
begin

text \<open>
  \<^bold>\<open>What this is.\<close> A verification development for the benchmark suite under \<^verbatim>\<open>src/\<close>. Its
  subject is the code the suite itself contributes, above all Metis (\<^verbatim>\<open>src/metis\<close>), a MapReduce
  library for multicore machines, and the applications on top of it. The definitions translate the
  C code function by function and keep its names; the theorems say what the code computes, when
  it ends, and where it does not do what it means to.

  \<^bold>\<open>How Metis works.\<close> An application fills in a parameter record and calls
  \<^verbatim>\<open>mr_run_scheduler\<close> (\<^verbatim>\<open>lib/mr-sched.c\<close>). The pre-splitter runs the application's
  splitter to the end and hands the splits out by an atomic counter. Map workers, one per core, call
  the map function on splits; it emits pairs, which the key/value store puts into a matrix of
  collections, one row per worker and one column per reduce task, chosen by the hash of the key. A
  collection is a B+tree (or a sorted or plain array). If the number of reduce tasks is not given,
  a part of the splits is mapped first, the number of keys is estimated, and the sampled pairs are
  later moved into the matrix proper. Reduce workers take columns, merge the rows of a column and
  reduce or group every key. The results, one bucket per task, are merged by a parallel sort.

  \<^bold>\<open>How faults and loops are modelled.\<close> A failing assertion, an access outside an array, a null
  pointer and a division by zero are values of the type \<open>fault\<close>; a function that can fail
  returns \<open>fault + 'a\<close>. A loop that may run forever is a partial function into \<open>option\<close>
  (or gives \<open>Inr None\<close>); \<open>succeeds\<close> and \<open>completes\<close> say that a computation returns
  without a fault, so every functional theorem also says that the code ends. Where recursion over linked nodes needs a
  bound (\<open>Out_of_fuel\<close>), the bound is the number of pairs or levels, and the theorems show that it
  is never reached. Unsigned machine integers are words, or naturals with the wrap-around written out. Concurrency is a
  sequence of worker numbers in the order in which the workers take their steps; a step is one
  access to shared state. \<open>fair n k\<close> says that each of \<open>n\<close> workers gets more than \<open>k\<close> turns.

  \<^bold>\<open>The theories.\<close>

  \<^item> \<open>Metis_Prelude\<close>: faults, results, checked array access, the contract \<open>comparator\<close> of
    comparison callbacks and the contract \<open>qsort_impl\<close> of the C library's sort. \<open>C_String\<close>:
    \<^verbatim>\<open>strcmp\<close> and \<^verbatim>\<open>toupper\<close>.

  \<^item> \<open>Bsearch\<close> (\<^verbatim>\<open>lib/bsearch.c\<close>): both binary searches equal linear scans and stay in range.

  \<^item> \<open>Mr_Types\<close> (\<^verbatim>\<open>lib/mr-types.h\<close>), \<open>Value_Helper\<close> (\<^verbatim>\<open>lib/value_helper.c\<close>),
    \<open>Kvs_Spec\<close>: records of keys and values, the three ways of collecting the values of a key, and the
    abstract specification of a collection as a list of groups.

  \<^item> \<open>Kvs_Array\<close>, \<open>Kv_Arrays\<close> (\<^verbatim>\<open>lib/keyvals_array.c\<close>, \<^verbatim>\<open>keyval_array.c\<close>,
    \<^verbatim>\<open>keyvals_len_array.c\<close>) and \<open>Kvs_Btree\<close>, \<open>Btree_Heap\<close>, \<open>Btree_Insert\<close>,
    \<open>Btree_Correct\<close>, \<open>Btree_Free\<close> (\<^verbatim>\<open>lib/keyvals_btree.c\<close>): the collections. The B+tree
    lives in a heap of nodes with parent, child and sibling pointers; insertion keeps its shape and
    refines insertion into a sorted list of groups. \<open>Pc_Handler\<close> (\<^verbatim>\<open>lib/pchandler.h\<close>) has the
    contract of a collection as a locale and its interpretations for both.

  \<^item> \<open>Reduce\<close> (\<^verbatim>\<open>lib/reduce.c\<close>), \<open>Mergesort\<close>, \<open>Psrs\<close>, \<open>Barrier\<close>
    (\<^verbatim>\<open>lib/mergesort.c\<close>, \<^verbatim>\<open>lib/psrs.c\<close>): merging the rows of a column; the k-way merge; the
    parallel sort, which is right with one worker and shown to be wrong with two; its barrier as a
    step relation with safety and progress.

  \<^item> \<open>Splitter\<close> (\<^verbatim>\<open>lib/presplitter.c\<close>, \<^verbatim>\<open>defsplitter.c\<close>), \<open>Estimation\<close>
    (\<^verbatim>\<open>lib/estimation.c\<close>), \<open>Threadpool\<close> (\<^verbatim>\<open>lib/pthreadpool.c\<close>): cutting the input, the
    counters of a sample, and the pool of threads as a step relation.

  \<^item> \<open>Bktmgr\<close>, \<open>Bktmgr_Correct\<close>, \<open>Append_Mgr\<close>, \<open>Rbkts\<close>, \<open>Kvstore\<close>
    (\<^verbatim>\<open>lib/btreebktmgr.c\<close>, \<^verbatim>\<open>arraybktmgr.c\<close>, \<^verbatim>\<open>appendbktmgr.c\<close>, \<^verbatim>\<open>rbktsmgr.c\<close>,
    \<^verbatim>\<open>apphelper.c\<close>, \<^verbatim>\<open>kvstore.c\<close>): the matrix of collections, the result buckets, the store.

  \<^item> \<open>Sched\<close> (\<^verbatim>\<open>lib/mr-sched.c\<close>) and \<open>Sched_Map\<close>, \<open>Sched_Reduce\<close>, \<open>Sched_Run\<close>,
    \<open>Sched_Sample\<close>: the scheduler; the invariants of the two phases under every
    interleaving; a whole run with a given number of reduce tasks and with sampling. The locale
    \<open>mr_job\<close> is what an application promises.

  \<^item> \<open>App_Wc\<close>, \<open>Wc_Run\<close>, \<open>App_Hist\<close>, \<open>App_Lr\<close>, \<open>App_Mm\<close>, \<open>App_Wr\<close>
    (\<^verbatim>\<open>app/wc.c\<close>, \<^verbatim>\<open>hist.c\<close>, \<^verbatim>\<open>linear_regression.c\<close>, \<^verbatim>\<open>matrix_mult.c\<close>,
    \<^verbatim>\<open>wr.c\<close>, \<^verbatim>\<open>wrmem.c\<close>): the applications, as interpretations of \<open>mr_job\<close>, with what
    the whole program returns.

  \<^bold>\<open>The GSL lock.\<close> Beside Metis the suite contributes a lock manager for PostgreSQL
  (\<^verbatim>\<open>postgres/gsl\<close>): a lock with eight modes whose counters are packed into a 128-bit word.
  \<open>Gsl_Counts\<close> (\<^verbatim>\<open>lc-array.h\<close>, \<^verbatim>\<open>lc-int128-impl.h\<close>, \<^verbatim>\<open>modes-pg.h\<close>) shows that the packed
  counters refine those kept as arrays. \<open>Gsl\<close> (\<^verbatim>\<open>gsl-impl.h\<close>) has the processes as
  interleaved steps; \<open>Gsl_Correct\<close> and \<open>Gsl_Excl\<close> prove that conflicting modes exclude each other
  for fewer than \<open>2 ^ 15\<close> processes that do not cancel, and exhibit the runs in which cancelling
  and upgrading fail.

  \<^bold>\<open>What the results rely on.\<close> An allocation never fails. \<^verbatim>\<open>qsort\<close> sorts
  (\<open>qsort_impl\<close>, shown to be satisfiable by insertion sort). Pointers have 64 bits. The
  configuration is the default one of \<^verbatim>\<open>lib/mr-conf.h\<close> and \<^verbatim>\<open>lib/kvstore.c\<close>: B+trees, sorting by
  \<^verbatim>\<open>psrs\<close>. The theorems on whole runs ask for fewer than \<open>2 ^ 31\<close> pairs, because array
  capacities are doubled in 32 bits, and for an output small enough (or one worker) that the final sort uses a single worker, because the
  parallel sort is wrong otherwise.

  \<^bold>\<open>Not modelled.\<close> Time stamps, statistics and performance counters (\<^verbatim>\<open>lib/profile.c\<close>,
  \<^verbatim>\<open>perf.c\<close>, \<^verbatim>\<open>ibs.c\<close>, \<^verbatim>\<open>pmcreg.h\<close>) and pinning threads to cores
  (\<^verbatim>\<open>lib/platform.c\<close>) have no effect on results and depend on the machine. The merge rounds for the configuration
  without \<^verbatim>\<open>psrs\<close> are dead code in the default configuration. The
  floating-point parts of the applications are left out, as HOL has no rounding in the
  permitted libraries. The vendored programs (Apache, PostgreSQL, Exim, memcached, the
  Streamflow allocator, Berkeley DB, GSL) are third-party code that the suite
  only builds and runs. The Python and shell scripts start processes, and configure and plot experiments.
\<close>

section \<open>A whole run of the library\<close>





end
